(* ===== verification/Prelude.thy ===== *)
theory Prelude
  imports Main "HOL-Library.Word"
begin

text \<open>
  Shared vocabulary of the development: the fixed-width integers of the C++ code, its
  exceptions as values, the exception-propagating bind and loop, and the association lists
  that stand for the \<open>std::unordered_map\<close>/\<open>std::map\<close> members.
\<close>

section \<open>Types\<close>

type_synonym byte = "8 word"
type_synonym u32 = "32 word"
type_synonym u64 = "64 word"

text \<open>
  A time point of \<open>std::chrono::steady_clock\<close>: nanoseconds since the clock's epoch.
\<close>

type_synonym time_point = int

named_theorems iceflow_simps \<open>unfolding rules of the small operations\<close>
named_theorems names_simps \<open>simplification of the lookups in association lists\<close>

section \<open>Exceptions\<close>

text \<open>
  The exceptions the code throws or lets through. A \<open>Foreign_exception\<close> is a thrown value
  that is not derived from \<open>std::exception\<close> (application callbacks may throw one).
\<close>

datatype exn =
    Runtime_error string
  | Invalid_argument string
  | Out_of_range string
  | Json_exception string
  | Bad_optional_access
  | Foreign_exception nat

text \<open>What \<open>catch (const std::runtime_error \&)\<close> catches.\<close>

fun is_runtime_error :: "exn \<Rightarrow> bool" where
  "is_runtime_error (Runtime_error _) = True"
| "is_runtime_error _ = False"

text \<open>What \<open>catch (std::exception \&)\<close> catches.\<close>

fun is_std_exception :: "exn \<Rightarrow> bool" where
  "is_std_exception (Foreign_exception _) = False"
| "is_std_exception _ = True"

definition bindE :: "exn + 'a \<Rightarrow> ('a \<Rightarrow> exn + 'b) \<Rightarrow> exn + 'b" where
  "bindE m f = (case m of Inl e \<Rightarrow> Inl e | Inr x \<Rightarrow> f x)"

lemma bindE_simps [simp]: "bindE (Inl e) f = Inl e" "bindE (Inr x) f = f x"
  by (simp_all add: bindE_def)

lemma bindE_Inr_iff: "bindE m f = Inr y \<longleftrightarrow> (\<exists>x. m = Inr x \<and> f x = Inr y)"
  by (cases m) simp_all

lemma bindE_Inl_iff: "bindE m f = Inl e \<longleftrightarrow> m = Inl e \<or> (\<exists>x. m = Inr x \<and> f x = Inl e)"
  by (cases m) simp_all

lemma bindE_cong [fundef_cong]:
  "m = m' \<Longrightarrow> (\<And>x. m' = Inr x \<Longrightarrow> f x = g x) \<Longrightarrow> bindE m f = bindE m' g"
  by (cases m') simp_all

text \<open>
  A \<open>for\<close> loop that computes one element per iteration and is left by the first exception.
\<close>

fun traverseE :: "('a \<Rightarrow> exn + 'b) \<Rightarrow> 'a list \<Rightarrow> exn + 'b list" where
  "traverseE f [] = Inr []"
| "traverseE f (x # xs) = bindE (f x) (\<lambda>y. bindE (traverseE f xs) (\<lambda>ys. Inr (y # ys)))"

lemma traverseE_Inr_iff: "traverseE f xs = Inr ys \<longleftrightarrow> list_all2 (\<lambda>x y. f x = Inr y) xs ys"
proof (induction xs arbitrary: ys)
  case Nil
  then show ?case by auto
next
  case (Cons x xs)
  then show ?case by (cases ys) (auto simp: bindE_Inr_iff)
qed

lemma traverseE_length: "traverseE f xs = Inr ys \<Longrightarrow> length ys = length xs"
  by (auto simp: traverseE_Inr_iff dest: list_all2_lengthD)

lemma traverseE_map:
  "(\<And>x. x \<in> set xs \<Longrightarrow> f (g x) = Inr (h x)) \<Longrightarrow> traverseE f (map g xs) = Inr (map h xs)"
  by (induction xs) auto

lemma traverseE_Inl_iff:
  "traverseE f xs = Inl e \<longleftrightarrow>
     (\<exists>as x bs ys. xs = as @ x # bs \<and> traverseE f as = Inr ys \<and> f x = Inl e)"
proof (induction xs)
  case Nil
  then show ?case by simp
next
  case (Cons x xs)
  show ?case
  proof (cases "f x")
    case (Inl e')
    then show ?thesis by (auto simp: bindE_Inr_iff Cons_eq_append_conv) force+
  next
    case (Inr y)
    then have "traverseE f (x # xs) = Inl e \<longleftrightarrow> traverseE f xs = Inl e"
      by (auto simp: bindE_Inl_iff)
    also have "\<dots> \<longleftrightarrow> (\<exists>as z bs ys. x # xs = as @ z # bs \<and> traverseE f as = Inr ys \<and> f z = Inl e)"
      unfolding Cons.IH using Inr
      by (auto simp: Cons_eq_append_conv bindE_Inr_iff) (metis append_Cons traverseE.simps(2) bindE_simps(2))+
    finally show ?thesis .
  qed
qed

text \<open>\<open>std::find_if\<close>: the first match and what precedes it.\<close>

lemma find_Some_split:
  "find P xs = Some x \<longleftrightarrow> (\<exists>as bs. xs = as @ x # bs \<and> P x \<and> (\<forall>a \<in> set as. \<not> P a))"
proof (induction xs)
  case Nil
  then show ?case by simp
next
  case (Cons y ys)
  show ?case
  proof (cases "P y")
    case True
    then show ?thesis by (auto simp: Cons_eq_append_conv)
  next
    case False
    with Cons.IH show ?thesis by (auto simp: Cons_eq_append_conv) (metis set_ConsD)+
  qed
qed

lemma find_key_Some:
  "find (\<lambda>x. f x = k) xs = Some x \<longleftrightarrow>
     (\<exists>before after. xs = before @ x # after \<and> f x = k \<and> k \<notin> f ` set before)"
  by (simp add: find_Some_split image_iff) metis

lemma find_key_None: "find (\<lambda>x. f x = k) xs = None \<longleftrightarrow> k \<notin> f ` set xs"
  by (auto simp: find_None_iff image_iff)

lemma find_in_set: "find P xs = Some x \<Longrightarrow> x \<in> set xs"
  by (auto simp: find_Some_split)

lemma find_append:
  "find P (xs @ ys) = (case find P xs of None \<Rightarrow> find P ys | Some x \<Rightarrow> Some x)"
  by (induction xs) auto

section \<open>References kept in objects\<close>

text \<open>
  A member of type \<open>const T \&\<close>: it stands for the object it was bound to as long as that object
  exists. Once the object is destroyed, to read the member is undefined behaviour.
\<close>

datatype 'a reference = Refers 'a | Dangling

section \<open>Association lists as the standard maps\<close>

text \<open>
  \<open>emplace\<close> inserts only when the key is absent, \<open>put\<close> is \<open>m[k] = v\<close>, and
  \<open>adjust\<close> applies a member function to the value stored under a key, in place.
\<close>

fun emplace :: "'k \<Rightarrow> 'v \<Rightarrow> ('k \<times> 'v) list \<Rightarrow> ('k \<times> 'v) list" where
  "emplace k v [] = [(k, v)]"
| "emplace k v ((k', v') # m) = (if k' = k then (k', v') # m else (k', v') # emplace k v m)"

fun put :: "'k \<Rightarrow> 'v \<Rightarrow> ('k \<times> 'v) list \<Rightarrow> ('k \<times> 'v) list" where
  "put k v [] = [(k, v)]"
| "put k v ((k', v') # m) = (if k' = k then (k', v) # m else (k', v') # put k v m)"

fun adjust :: "'k \<Rightarrow> ('v \<Rightarrow> 'v) \<Rightarrow> ('k \<times> 'v) list \<Rightarrow> ('k \<times> 'v) list" where
  "adjust k f [] = []"
| "adjust k f ((k', v') # m) = (if k' = k then (k', f v') # m else (k', v') # adjust k f m)"

lemma map_of_emplace [names_simps]:
  "map_of (emplace k v m) = (if k \<in> dom (map_of m) then map_of m else (map_of m)(k \<mapsto> v))"
  by (induction k v m rule: emplace.induct) (auto simp: fun_eq_iff)

lemma map_of_put [names_simps]: "map_of (put k v m) = (map_of m)(k \<mapsto> v)"
  by (induction k v m rule: put.induct) (auto simp: fun_eq_iff)

lemma map_of_adjust [names_simps]:
  "map_of (adjust k f m) = (map_of m)(k := map_option f (map_of m k))"
  by (induction k f m rule: adjust.induct) (auto simp: fun_eq_iff)

lemma keys_emplace [names_simps]: "fst ` set (emplace k v m) = insert k (fst ` set m)"
  by (induction k v m rule: emplace.induct) auto

lemma keys_put [names_simps]: "fst ` set (put k v m) = insert k (fst ` set m)"
  by (induction k v m rule: put.induct) auto

lemma keys_adjust [simp]: "map fst (adjust k f m) = map fst m"
  by (induction k f m rule: adjust.induct) auto

lemma distinct_emplace [intro]:
  "distinct (map fst m) \<Longrightarrow> distinct (map fst (emplace k v m))"
  by (induction k v m rule: emplace.induct) (simp_all add: keys_emplace, blast)

lemma distinct_put [intro]: "distinct (map fst m) \<Longrightarrow> distinct (map fst (put k v m))"
  by (induction k v m rule: put.induct) (simp_all add: keys_put, blast)

lemma emplace_present: "k \<in> dom (map_of m) \<Longrightarrow> emplace k v m = m"
  by (induction k v m rule: emplace.induct) (auto split: if_splits)

lemma emplace_absent: "k \<notin> dom (map_of m) \<Longrightarrow> emplace k v m = m @ [(k, v)]"
  by (induction k v m rule: emplace.induct) (auto split: if_splits)

lemma map_of_upds:
  "length ks = length vs \<Longrightarrow> distinct ks \<Longrightarrow> map (m(ks [\<mapsto>] vs)) ks = map Some vs"
proof (induction ks vs arbitrary: m rule: list_induct2)
  case Nil
  then show ?case by simp
next
  case (Cons k ks v vs)
  then have "map (m(k \<mapsto> v, ks [\<mapsto>] vs)) ks = map Some vs" by simp
  with Cons.prems show ?case by (simp add: map_upds_apply_nontin del: map_upds_twist)
qed

section \<open>Bytes and characters\<close>

text \<open>
  \<open>std::vector<uint8_t>(s.begin(), s.end())\<close> and \<open>std::string(v.begin(), v.end())\<close>.
\<close>

definition bytes_of_string :: "string \<Rightarrow> byte list" where
  "bytes_of_string s = map (\<lambda>c. word_of_nat (of_char c)) s"

definition string_of_bytes :: "byte list \<Rightarrow> string" where
  "string_of_bytes bs = map (\<lambda>b. char_of (unat b)) bs"

lemma string_of_bytes_of_string [simp]: "string_of_bytes (bytes_of_string s) = s"
proof -
  have "char_of (unat (word_of_nat (of_char c) :: byte)) = c" for c :: char
  proof -
    have "(of_char c :: nat) < 256" by simp
    then have "unat (word_of_nat (of_char c) :: byte) = of_char c"
      by (simp add: unat_of_nat)
    then show ?thesis by simp
  qed
  then show ?thesis by (simp add: string_of_bytes_def bytes_of_string_def map_idI)
qed

lemma bytes_of_string_of_bytes [simp]: "bytes_of_string (string_of_bytes bs) = bs"
proof -
  have "word_of_nat (of_char (char_of (unat b) :: char)) = b" for b :: byte
  proof -
    have "unat b < 256" using unsigned_less [of b, where 'a = nat] by simp
    then show ?thesis by (simp add: of_char_of)
  qed
  then show ?thesis by (simp add: string_of_bytes_def bytes_of_string_def map_idI)
qed

section \<open>Words and decimal numerals\<close>

lemma ucast_u32_u64 [simp]: "(ucast (ucast (w :: u32) :: u64) :: u32) = w"
  by (rule ucast_up_ucast_id) (simp add: is_up)

lemma unat_increment: "i < n \<Longrightarrow> unat (i + 1) = Suc (unat i)" for i n :: "'a :: len word"
proof -
  assume "i < n"
  then have "unat i < unat n" by (simp add: word_less_nat_alt)
  then have "Suc (unat i) < 2 ^ LENGTH('a)"
    using unsigned_less [of n, where 'a = nat] by linarith
  then show ?thesis by (simp add: unat_word_ariths)
qed

lemma unat_u32_bound: "unat (w :: u32) < 4294967296"
  by (rule order_less_le_trans [OF unsigned_less]) simp

lemma unat_widen [simp]: "unat (ucast (w :: u32) :: u64) = unat w"
proof -
  have "unat w < 18446744073709551616" using unat_u32_bound [of w] by linarith
  then show ?thesis by (simp add: unsigned_ucast_eq take_bit_eq_mod unat_mod)
qed

lemma unat_u32_of_nat: "n < 2 ^ 32 \<Longrightarrow> unat (word_of_nat n :: u32) = n"
  by (simp add: unat_of_nat)

lemma unat_u64_of_nat: "n < 2 ^ 64 \<Longrightarrow> unat (word_of_nat n :: u64) = n"
  by (simp add: unat_of_nat)

text \<open>\<open>std::to_string\<close> of a non-negative number, and reading one back.\<close>

definition digit_char :: "nat \<Rightarrow> char" where
  "digit_char d = char_of (48 + d)"

fun to_string :: "nat \<Rightarrow> string" where
  "to_string n = (if n < 10 then [digit_char n] else to_string (n div 10) @ [digit_char (n mod 10)])"

declare to_string.simps [simp del]

definition digit_value :: "char \<Rightarrow> nat option" where
  "digit_value c =
     (let v = (of_char c :: nat) in if 48 \<le> v \<and> v \<le> 57 then Some (v - 48) else None)"

fun read_digits :: "nat \<Rightarrow> string \<Rightarrow> nat option" where
  "read_digits acc [] = Some acc"
| "read_digits acc (c # cs) =
     (case digit_value c of None \<Rightarrow> None | Some d \<Rightarrow> read_digits (10 * acc + d) cs)"

definition read_nat :: "string \<Rightarrow> nat option" where
  "read_nat s = (if s = [] then None else read_digits 0 s)"

lemma digit_value_char [simp]: "d < 10 \<Longrightarrow> digit_value (digit_char d) = Some d"
  by (simp add: digit_value_def digit_char_def of_char_of)

lemma read_digits_append:
  "read_digits acc (s @ t) =
     (case read_digits acc s of None \<Rightarrow> None | Some v \<Rightarrow> read_digits v t)"
  by (induction acc s rule: read_digits.induct) (auto split: option.splits)

lemma to_string_nonempty [simp]: "to_string n \<noteq> []"
  by (subst to_string.simps) simp

lemma read_digits_to_string: "read_digits 0 (to_string n) = Some n"
proof (induction n rule: to_string.induct)
  case (1 n)
  show ?case
  proof (cases "n < 10")
    case True
    then show ?thesis by (subst to_string.simps) simp
  next
    case False
    with "1.IH" have "read_digits 0 (to_string (n div 10)) = Some (n div 10)" by simp
    with False show ?thesis
      by (subst to_string.simps) (simp add: read_digits_append)
  qed
qed

lemma read_nat_to_string [simp]: "read_nat (to_string n) = Some n"
  by (simp add: read_nat_def read_digits_to_string)

lemma to_string_inject [simp]: "to_string m = to_string n \<longleftrightarrow> m = n"
  by (metis option.inject read_nat_to_string)

end
