(* ===== verification/Ndn_Api.thy ===== *)
theory Ndn_Api
  imports Prelude
begin

text \<open>
  NDN names and the SVS publish/subscribe service (ndn-cxx, ndn-svs) are not part of the
  repository: they are parameters of the model. \<open>ndn_ops\<close> collects the calls the code makes,
  the locale \<open>svs\<close> states their documented behaviour through observers (the live
  subscriptions, the publications, the data store), and \<open>ref_ndn\<close> is a reference instance.
\<close>

section \<open>The operations the code calls\<close>

text \<open>
  The callbacks the code hands to \<open>subscribe\<close>, with what they capture: the bound member
  function \<open>IceflowConsumer::subscribeCallBack\<close> of one consumer object (identified by the
  upstream edge it is stored under), and the back channel handler of a producer, which captures
  the node prefix and the sync prefix.
\<close>

datatype callback =
    Consumer_callback string
  | Backchannel_handler string string

text \<open>
  \<open>name_append\<close> appends one component given as text, \<open>name_append_string\<close> what
  \<open>Name::append\<close> does with a \<open>std::string\<close>, \<open>name_append_number\<close> a number component.
  \<open>svs_publish\<close> takes the node prefix when the caller passes one.
\<close>

record ('ps, 'n) ndn_ops =
  name_of :: "string \<Rightarrow> 'n"
  name_append :: "'n \<Rightarrow> string \<Rightarrow> 'n"
  name_append_string :: "'n \<Rightarrow> string \<Rightarrow> 'n"
  name_append_number :: "'n \<Rightarrow> u64 \<Rightarrow> 'n"
  svs_new :: "'n \<Rightarrow> 'n \<Rightarrow> 'ps"
  svs_subscribe :: "'ps \<Rightarrow> 'n \<Rightarrow> callback \<Rightarrow> u32 \<times> 'ps"
  svs_unsubscribe :: "'ps \<Rightarrow> u32 \<Rightarrow> 'ps"
  svs_publish :: "'ps \<Rightarrow> 'n \<Rightarrow> byte list \<Rightarrow> 'n option \<Rightarrow> u64 \<times> 'ps"
  svs_erase :: "'ps \<Rightarrow> 'n \<Rightarrow> 'ps"

text \<open>One publication: the topic, the payload, the node prefix if one was passed, the number.\<close>

type_synonym 'n publication = "'n \<times> byte list \<times> 'n option \<times> u64"

section \<open>The documented behaviour\<close>

text \<open>
  A subscription handle is not in use when it is returned, as long as the 32-bit counter behind
  it has not run through all its values (\<open>used\<close> counts the subscriptions ever made).
\<close>

locale svs =
  fixes S :: "('ps, 'n) ndn_ops"
    and invar :: "'ps \<Rightarrow> bool"
    and used :: "'ps \<Rightarrow> nat"
    and subs :: "'ps \<Rightarrow> u32 \<rightharpoonup> ('n \<times> callback)"
    and pubs :: "'ps \<Rightarrow> 'n publication list"
    and store :: "'ps \<Rightarrow> 'n set"
  assumes number_inject: "name_append_number S n i = name_append_number S n j \<longleftrightarrow> i = j"
    and number_not_text: "name_append_number S n i \<noteq> name_append S n t"
    and new_inv: "invar (svs_new S n m)"
    and new_subs: "subs (svs_new S n m) = Map.empty"
    and new_used: "used (svs_new S n m) = 0"
    and new_pubs: "pubs (svs_new S n m) = []"
    and subscribe:
      "invar ps \<Longrightarrow> used ps < 2 ^ 32 - 1 \<Longrightarrow> svs_subscribe S ps n c = (h, ps') \<Longrightarrow>
         h \<notin> dom (subs ps) \<and> subs ps' = (subs ps)(h \<mapsto> (n, c)) \<and> used ps' = Suc (used ps) \<and>
         pubs ps' = pubs ps \<and> store ps' = store ps \<and> invar ps'"
    and unsubscribe_subs: "invar ps \<Longrightarrow> subs (svs_unsubscribe S ps h) = (subs ps)(h := None)"
    and unsubscribe_inv: "invar ps \<Longrightarrow> invar (svs_unsubscribe S ps h)"
    and unsubscribe_used: "invar ps \<Longrightarrow> used (svs_unsubscribe S ps h) = used ps"
    and unsubscribe_pubs: "invar ps \<Longrightarrow> pubs (svs_unsubscribe S ps h) = pubs ps"
    and unsubscribe_store: "invar ps \<Longrightarrow> store (svs_unsubscribe S ps h) = store ps"
    and publish:
      "invar ps \<Longrightarrow> svs_publish S ps n d who = (seq, ps') \<Longrightarrow>
         pubs ps' = pubs ps @ [(n, d, who, seq)] \<and> subs ps' = subs ps \<and> used ps' = used ps \<and>
         invar ps'"
    and erase_store: "invar ps \<Longrightarrow> store (svs_erase S ps n) = store ps - {n}"
    and erase_subs: "invar ps \<Longrightarrow> subs (svs_erase S ps n) = subs ps"
    and erase_inv: "invar ps \<Longrightarrow> invar (svs_erase S ps n)"
    and erase_used: "invar ps \<Longrightarrow> used (svs_erase S ps n) = used ps"
    and erase_pubs: "invar ps \<Longrightarrow> pubs (svs_erase S ps n) = pubs ps"
begin

lemmas unsubscribe_simps =
  unsubscribe_subs unsubscribe_inv unsubscribe_used unsubscribe_pubs unsubscribe_store

lemmas erase_simps = erase_store erase_subs erase_inv erase_used erase_pubs

lemmas new_simps = new_inv new_subs new_used new_pubs

end

text \<open>
  What ndn-svs does to the data store: a publication with a node prefix is stored under that
  prefix, the sync prefix of the instance and its number (\<open>packet\<close>), and nothing leaves the store
  but by \<open>erase\<close>. The publications under one node prefix are numbered consecutively, in 64 bits.
\<close>

locale svs_store = svs S invar used subs pubs store
  for S :: "('ps, 'n) ndn_ops" and invar :: "'ps \<Rightarrow> bool" and used :: "'ps \<Rightarrow> nat"
    and subs :: "'ps \<Rightarrow> u32 \<rightharpoonup> ('n \<times> callback)" and pubs :: "'ps \<Rightarrow> 'n publication list"
    and store :: "'ps \<Rightarrow> 'n set" +
  fixes packet :: "'ps \<Rightarrow> 'n \<Rightarrow> u64 \<Rightarrow> 'n"
  assumes new_packet:
      "packet (svs_new S (name_of S sp) m) w q = name_append_number S (name_append_string S w sp) q"
    and subscribe_packet: "invar ps \<Longrightarrow> packet (snd (svs_subscribe S ps n c)) = packet ps"
    and unsubscribe_packet: "invar ps \<Longrightarrow> packet (svs_unsubscribe S ps h) = packet ps"
    and erase_packet: "invar ps \<Longrightarrow> packet (svs_erase S ps n) = packet ps"
    and publish_packet: "invar ps \<Longrightarrow> packet (snd (svs_publish S ps n d who)) = packet ps"
    and publish_keeps: "invar ps \<Longrightarrow> store ps \<subseteq> store (snd (svs_publish S ps n d who))"
    and publish_stores:
      "invar ps \<Longrightarrow> svs_publish S ps n d (Some w) = (seq, ps') \<Longrightarrow> packet ps w seq \<in> store ps'"
    and publish_numbers:
      "invar ps \<Longrightarrow> length (pubs ps) < 2 ^ 64 \<Longrightarrow> distinct (map (\<lambda>(n, d, who, seq). (who, seq)) (pubs ps))"

section \<open>A reference instance\<close>

text \<open>
  Names are component lists parsed at the slashes; handles count up from one; a publication is
  numbered by its position and its packet is stored under node prefix, sync prefix and number.
\<close>

datatype component = Text string | Number u64

fun split_uri :: "string \<Rightarrow> string \<Rightarrow> string list" where
  "split_uri [] acc = (if acc = [] then [] else [rev acc])"
| "split_uri (c # cs) acc =
     (if c = CHR ''/'' then (if acc = [] then [] else [rev acc]) @ split_uri cs []
      else split_uri cs (c # acc))"

definition ref_name_of :: "string \<Rightarrow> component list" where
  "ref_name_of uri = map Text (split_uri uri [])"

record ref_svs =
  rs_group :: "component list"
  rs_node :: "component list"
  rs_count :: nat
  rs_subs :: "(u32 \<times> component list \<times> callback) list"
  rs_pubs :: "component list publication list"
  rs_store :: "component list set"

definition ref_inv :: "ref_svs \<Rightarrow> bool" where
  "ref_inv ps \<longleftrightarrow> (\<forall>h \<in> fst ` set (rs_subs ps). unat h \<le> rs_count ps) \<and>
     map (\<lambda>(n, d, who, seq). seq) (rs_pubs ps) = map word_of_nat [1..<Suc (length (rs_pubs ps))]"

definition ref_subs :: "ref_svs \<Rightarrow> u32 \<rightharpoonup> (component list \<times> callback)" where
  "ref_subs ps = map_of (rs_subs ps)"

definition ref_subscribe :: "ref_svs \<Rightarrow> component list \<Rightarrow> callback \<Rightarrow> u32 \<times> ref_svs" where
  "ref_subscribe ps n c =
     (let h = word_of_nat (Suc (rs_count ps))
      in (h, ps\<lparr>rs_count := Suc (rs_count ps), rs_subs := (h, n, c) # rs_subs ps\<rparr>))"

definition ref_unsubscribe :: "ref_svs \<Rightarrow> u32 \<Rightarrow> ref_svs" where
  "ref_unsubscribe ps h = ps\<lparr>rs_subs := filter (\<lambda>s. fst s \<noteq> h) (rs_subs ps)\<rparr>"

definition ref_publish ::
    "ref_svs \<Rightarrow> component list \<Rightarrow> byte list \<Rightarrow> component list option \<Rightarrow> u64 \<times> ref_svs" where
  "ref_publish ps n d who =
     (let seq = word_of_nat (Suc (length (rs_pubs ps)))
      in (seq, ps\<lparr>rs_pubs := rs_pubs ps @ [(n, d, who, seq)],
            rs_store := insert ((case who of None \<Rightarrow> rs_node ps | Some w \<Rightarrow> w) @ rs_group ps @ [Number seq]) (rs_store ps)\<rparr>))"

definition ref_erase :: "ref_svs \<Rightarrow> component list \<Rightarrow> ref_svs" where
  "ref_erase ps n = ps\<lparr>rs_store := rs_store ps - {n}\<rparr>"

definition ref_ndn :: "(ref_svs, component list) ndn_ops" where
  "ref_ndn =
     \<lparr>name_of = ref_name_of,
      name_append = (\<lambda>n t. n @ [Text t]),
      name_append_string = (\<lambda>n uri. n @ ref_name_of uri),
      name_append_number = (\<lambda>n i. n @ [Number i]),
      svs_new = (\<lambda>n m. \<lparr>rs_group = n, rs_node = m, rs_count = 0, rs_subs = [], rs_pubs = [], rs_store = {}\<rparr>),
      svs_subscribe = ref_subscribe, svs_unsubscribe = ref_unsubscribe,
      svs_publish = ref_publish, svs_erase = ref_erase\<rparr>"

lemma ref_ndn_sels [simp]:
  "name_of ref_ndn = ref_name_of"
  "name_append ref_ndn n t = n @ [Text t]"
  "name_append_string ref_ndn n uri = n @ ref_name_of uri"
  "name_append_number ref_ndn n i = n @ [Number i]"
  "svs_new ref_ndn n m = \<lparr>rs_group = n, rs_node = m, rs_count = 0, rs_subs = [], rs_pubs = [], rs_store = {}\<rparr>"
  "svs_subscribe ref_ndn = ref_subscribe"
  "svs_unsubscribe ref_ndn = ref_unsubscribe"
  "svs_publish ref_ndn = ref_publish"
  "svs_erase ref_ndn = ref_erase"
  by (simp_all add: ref_ndn_def)

lemma map_of_filter_key:
  "map_of (filter (\<lambda>s. fst s \<noteq> h) m) = (map_of m)(h := None)"
  by (induction m) (auto simp: fun_eq_iff)

lemma ref_handle_fresh:
  assumes "ref_inv ps" and "rs_count ps < 2 ^ 32 - 1"
  shows "(word_of_nat (Suc (rs_count ps)) :: u32) \<notin> fst ` set (rs_subs ps)"
proof
  let ?h = "word_of_nat (Suc (rs_count ps)) :: u32"
  assume "?h \<in> fst ` set (rs_subs ps)"
  with assms(1) have "unat ?h \<le> rs_count ps" unfolding ref_inv_def by blast
  moreover have "unat ?h = Suc (rs_count ps)"
    by (rule unat_u32_of_nat) (use assms(2) in simp)
  ultimately show False by simp
qed

lemma ref_subscribe_inv:
  assumes "ref_inv ps" and "rs_count ps < 2 ^ 32 - 1"
  shows "ref_inv (snd (ref_subscribe ps n c))"
proof -
  have "unat (word_of_nat (Suc (rs_count ps)) :: u32) = Suc (rs_count ps)"
    by (rule unat_u32_of_nat) (use assms(2) in simp)
  with assms(1) show ?thesis
    by (auto simp: ref_inv_def ref_subscribe_def Let_def intro: le_SucI simp del: of_nat_Suc)
qed

interpretation ref_svs: svs ref_ndn ref_inv rs_count ref_subs rs_pubs rs_store
proof (unfold_locales, goal_cases)
  case (7 ps n c h ps')
  with ref_handle_fresh [of ps] ref_subscribe_inv [of ps n c] show ?case
    by (auto simp: ref_subscribe_def ref_subs_def Let_def dom_map_of_conv_image_fst)
qed (auto simp: ref_inv_def ref_subs_def ref_unsubscribe_def ref_publish_def ref_erase_def
    Let_def map_of_filter_key split: option.splits)

text \<open>The names of stored packets.\<close>

definition ref_packet :: "ref_svs \<Rightarrow> component list \<Rightarrow> u64 \<Rightarrow> component list" where
  "ref_packet ps w q = w @ rs_group ps @ [Number q]"

lemma ref_numbers:
  assumes "ref_inv ps" and "length (rs_pubs ps) < 2 ^ 64"
  shows "distinct (map (\<lambda>(n, d, who, seq). (who, seq)) (rs_pubs ps))"
proof -
  have "inj_on (word_of_nat :: nat \<Rightarrow> u64) {1..<Suc (length (rs_pubs ps))}"
    by (rule inj_onI) (use assms(2) in \<open>auto simp: word_of_nat_eq_iff take_bit_nat_eq_self\<close>)
  then have "distinct (map (\<lambda>(n, d, who, seq). seq) (rs_pubs ps))"
    using assms(1) by (simp only: ref_inv_def distinct_map distinct_upt set_upt simp_thms)
  moreover have "map (\<lambda>(n, d, who, seq). seq) xs = map snd (map (\<lambda>(n, d, who, seq). (who, seq)) xs)"
    for xs :: "component list publication list" by (simp add: comp_def split_beta)
  ultimately show ?thesis by (metis distinct_map)
qed

interpretation ref_store: svs_store ref_ndn ref_inv rs_count ref_subs rs_pubs rs_store ref_packet
proof (unfold_locales, goal_cases)
  case (8 ps)
  then show ?case by (rule ref_numbers)
qed (auto simp: ref_packet_def ref_subscribe_def ref_unsubscribe_def ref_publish_def ref_erase_def
    Let_def fun_eq_iff)

end
