(* ===== verification/Json_Api.thy ===== *)
theory Json_Api
  imports Prelude "HOL-Library.List_Lexorder" "HOL-Library.Char_ord"
begin

text \<open>
  The JSON library (nlohmann::json) is not part of the repository: it is a parameter of the
  model. \<open>json_ops\<close> collects the member functions the code calls, over an abstract type
  of JSON values; the locale \<open>json_api\<close> states the documented behaviour the code relies on;
  \<open>ref_json\<close> is a reference instance (integers, booleans, strings, arrays, objects) on
  which the locale is interpreted and on which witnesses compute.
\<close>

section \<open>The operations the code calls\<close>

text \<open>
  \<open>j_parse\<close> is \<open>nlohmann::json::parse\<close> and takes the whole input; \<open>j_read\<close> is \<open>stream >> json\<close>, which
  reads one value and leaves what follows it.
\<close>

record 'j json_ops =
  j_at :: "'j \<Rightarrow> string \<Rightarrow> exn + 'j"
  j_contains :: "'j \<Rightarrow> string \<Rightarrow> bool"
  j_value_string :: "'j \<Rightarrow> string \<Rightarrow> string \<Rightarrow> exn + string"
  j_value :: "'j \<Rightarrow> string \<Rightarrow> 'j \<Rightarrow> exn + 'j"
  j_object :: 'j
  j_elems :: "'j \<Rightarrow> 'j list"
  j_items :: "'j \<Rightarrow> (string \<times> 'j) list"
  j_get_string :: "'j \<Rightarrow> exn + string"
  j_get_u32 :: "'j \<Rightarrow> exn + u32"
  j_get_u64 :: "'j \<Rightarrow> exn + u64"
  j_get_object :: "'j \<Rightarrow> exn + (string \<times> 'j) list"
  j_is_number_integer :: "'j \<Rightarrow> bool"
  j_of_u64 :: "u64 \<Rightarrow> 'j"
  j_dump :: "'j \<Rightarrow> string"
  j_parse :: "byte list \<Rightarrow> exn + 'j"
  j_read :: "byte list \<Rightarrow> exn + 'j"

text \<open>The iteration order and key uniqueness of a JSON object (a \<open>std::map\<close>).\<close>

definition ordered_keys :: "(string \<times> 'a) list \<Rightarrow> bool" where
  "ordered_keys kvs \<longleftrightarrow> sorted (map fst kvs) \<and> distinct (map fst kvs)"

section \<open>The documented behaviour\<close>

locale json_api =
  fixes J :: "'j json_ops"
    and of_str :: "string \<Rightarrow> 'j"
    and of_obj :: "(string \<times> 'j) list \<Rightarrow> 'j"
    and of_arr :: "'j list \<Rightarrow> 'j"
  assumes at_found:
      "distinct (map fst kvs) \<Longrightarrow> map_of kvs k = Some v \<Longrightarrow> j_at J (of_obj kvs) k = Inr v"
    and at_missing:
      "distinct (map fst kvs) \<Longrightarrow> map_of kvs k = None \<Longrightarrow>
         \<exists>msg. j_at J (of_obj kvs) k = Inl (Json_exception msg)"
    and contains_obj:
      "distinct (map fst kvs) \<Longrightarrow> j_contains J (of_obj kvs) k \<longleftrightarrow> map_of kvs k \<noteq> None"
    and value_obj:
      "distinct (map fst kvs) \<Longrightarrow>
         j_value J (of_obj kvs) k d = Inr (case map_of kvs k of None \<Rightarrow> d | Some v \<Rightarrow> v)"
    and value_string_obj:
      "distinct (map fst kvs) \<Longrightarrow>
         j_value_string J (of_obj kvs) k s =
           (case map_of kvs k of None \<Rightarrow> Inr s | Some v \<Rightarrow> j_get_string J v)"
    and empty_object: "j_object J = of_obj []"
    and elems_arr: "j_elems J (of_arr js) = js"
    and items_obj: "ordered_keys kvs \<Longrightarrow> j_items J (of_obj kvs) = kvs"
    and get_object_obj: "ordered_keys kvs \<Longrightarrow> j_get_object J (of_obj kvs) = Inr kvs"
    and get_string_str: "j_get_string J (of_str s) = Inr s"
    and get_u32_num: "j_get_u32 J (j_of_u64 J n) = Inr (ucast n)"
    and get_u64_num: "j_get_u64 J (j_of_u64 J n) = Inr n"
    and is_integer_num: "j_is_number_integer J (j_of_u64 J n)"
    and parse_dump_num:
      "j_parse J (bytes_of_string (j_dump J (j_of_u64 J n))) = Inr (j_of_u64 J n)"
begin

lemmas obj_simps =
  at_found contains_obj value_obj value_string_obj empty_object elems_arr items_obj
  get_object_obj get_string_str get_u32_num

lemma at_get_string:
  assumes "distinct (map fst kvs)" and "map_of kvs k = Some (of_str s)"
  shows "bindE (j_at J (of_obj kvs) k) (j_get_string J) = Inr s"
  using assms by (simp add: obj_simps)

lemma at_get_u32:
  assumes "distinct (map fst kvs)" and "map_of kvs k = Some (j_of_u64 J (ucast (w :: u32)))"
  shows "bindE (j_at J (of_obj kvs) k) (j_get_u32 J) = Inr w"
  using assms by (simp add: obj_simps)

end

section \<open>A reference instance\<close>

datatype jval =
    JNull
  | JBool bool
  | JNumber int
  | JString string
  | JArray "jval list"
  | JObject "(string \<times> jval) list"

definition type_error :: exn where
  "type_error = Json_exception ''type_error''"

fun jval_at :: "jval \<Rightarrow> string \<Rightarrow> exn + jval" where
  "jval_at (JObject kvs) k =
     (case map_of kvs k of
        None \<Rightarrow> Inl (Json_exception (''key '' @ k @ '' not found''))
      | Some v \<Rightarrow> Inr v)"
| "jval_at _ _ = Inl type_error"

fun jval_contains :: "jval \<Rightarrow> string \<Rightarrow> bool" where
  "jval_contains (JObject kvs) k \<longleftrightarrow> map_of kvs k \<noteq> None"
| "jval_contains _ _ \<longleftrightarrow> False"

fun jval_get_string :: "jval \<Rightarrow> exn + string" where
  "jval_get_string (JString s) = Inr s"
| "jval_get_string _ = Inl type_error"

fun jval_get_word :: "jval \<Rightarrow> exn + ('n :: len) word" where
  "jval_get_word (JNumber n) = Inr (word_of_int n)"
| "jval_get_word (JBool b) = Inr (of_bool b)"
| "jval_get_word _ = Inl type_error"

fun jval_value :: "jval \<Rightarrow> string \<Rightarrow> jval \<Rightarrow> exn + jval" where
  "jval_value (JObject kvs) k d = Inr (case map_of kvs k of None \<Rightarrow> d | Some v \<Rightarrow> v)"
| "jval_value _ _ _ = Inl type_error"

fun jval_value_string :: "jval \<Rightarrow> string \<Rightarrow> string \<Rightarrow> exn + string" where
  "jval_value_string (JObject kvs) k d =
     (case map_of kvs k of None \<Rightarrow> Inr d | Some v \<Rightarrow> jval_get_string v)"
| "jval_value_string _ _ _ = Inl type_error"

fun jval_elems :: "jval \<Rightarrow> jval list" where
  "jval_elems (JArray js) = js"
| "jval_elems (JObject kvs) = map snd kvs"
| "jval_elems JNull = []"
| "jval_elems j = [j]"

fun jval_items :: "jval \<Rightarrow> (string \<times> jval) list" where
  "jval_items (JObject kvs) = kvs"
| "jval_items (JArray js) = map (Pair []) js"
| "jval_items JNull = []"
| "jval_items j = [([], j)]"

fun jval_get_object :: "jval \<Rightarrow> exn + (string \<times> jval) list" where
  "jval_get_object (JObject kvs) = Inr kvs"
| "jval_get_object _ = Inl type_error"

fun jval_is_number_integer :: "jval \<Rightarrow> bool" where
  "jval_is_number_integer (JNumber _) = True"
| "jval_is_number_integer _ = False"

text \<open>
  Texts: the instance prints and reads integer texts (the only ones the code exchanges as
  messages); any other text is a parse error.
\<close>

fun jval_dump :: "jval \<Rightarrow> string" where
  "jval_dump (JNumber n) = (if n < 0 then CHR ''-'' # to_string (nat (- n)) else to_string (nat n))"
| "jval_dump _ = ''null''"

definition jval_parse :: "byte list \<Rightarrow> exn + jval" where
  "jval_parse bs =
     (case read_nat (string_of_bytes bs) of
        None \<Rightarrow> Inl (Json_exception ''parse_error'')
      | Some n \<Rightarrow> Inr (JNumber (int n)))"

text \<open>The one value at the start of a stream: the instance reads its leading digits.\<close>

definition jval_read :: "byte list \<Rightarrow> exn + jval" where
  "jval_read bs =
     jval_parse (takeWhile (\<lambda>b. b \<in> set (bytes_of_string ''0123456789'')) bs)"

definition ref_json :: "jval json_ops" where
  "ref_json =
     \<lparr>j_at = jval_at, j_contains = jval_contains, j_value_string = jval_value_string,
      j_value = jval_value, j_object = JObject [], j_elems = jval_elems, j_items = jval_items,
      j_get_string = jval_get_string, j_get_u32 = jval_get_word, j_get_u64 = jval_get_word,
      j_get_object = jval_get_object, j_is_number_integer = jval_is_number_integer,
      j_of_u64 = (\<lambda>n. JNumber (uint n)), j_dump = jval_dump, j_parse = jval_parse,
      j_read = jval_read\<rparr>"

lemma ref_json_sels [simp]:
  "j_at ref_json = jval_at" "j_contains ref_json = jval_contains"
  "j_value_string ref_json = jval_value_string" "j_value ref_json = jval_value"
  "j_object ref_json = JObject []" "j_elems ref_json = jval_elems"
  "j_items ref_json = jval_items" "j_get_string ref_json = jval_get_string"
  "j_get_u32 ref_json = jval_get_word" "j_get_u64 ref_json = jval_get_word"
  "j_get_object ref_json = jval_get_object"
  "j_is_number_integer ref_json = jval_is_number_integer"
  "j_of_u64 ref_json n = JNumber (uint n)" "j_dump ref_json = jval_dump"
  "j_parse ref_json = jval_parse" "j_read ref_json = jval_read"
  by (simp_all add: ref_json_def)

interpretation ref_json: json_api ref_json JString JObject JArray
  by unfold_locales (auto simp: jval_parse_def ordered_keys_def split: option.splits)

end
