(* ===== verification/Stats.thy ===== *)
theory Stats
  imports Prelude "HOL-Library.Signed_Division"
begin

text \<open>
  \<open>include/iceflow/stats.hpp\<close>, the congestion reasons of
  \<open>include/iceflow/congestion-reporter.hpp\<close>, and the interface \<open>timestamp_window\<close> of the
  timestamp clean-up loop that the consumer and the producer each implement.
\<close>

section \<open>Statistics\<close>

record EdgeProductionStats =
  unitsProduced :: u64
  production_idleTime :: u64

record EdgeConsumptionStats =
  unitsConsumed :: u64
  consumption_idleTime :: u64

record EdgeStats =
  productionStats :: "EdgeProductionStats option"
  consumptionStats :: "EdgeConsumptionStats option"

section \<open>Congestion reasons\<close>

datatype CongestionReason = CONGESTION_REASON_NETWORK | CONGESTION_REASON_PROCESSING

fun reason_code :: "CongestionReason \<Rightarrow> int" where
  "reason_code CONGESTION_REASON_NETWORK = 0"
| "reason_code CONGESTION_REASON_PROCESSING = 1"

lemma reason_code_inject [simp]: "reason_code r = reason_code s \<longleftrightarrow> r = s"
  by (cases r; cases s) simp_all

text \<open>The enumeration is ordered by its underlying integers.\<close>

instantiation CongestionReason :: linorder
begin

definition less_eq_CongestionReason :: "CongestionReason \<Rightarrow> CongestionReason \<Rightarrow> bool" where
  "less_eq_CongestionReason r s \<longleftrightarrow> reason_code r \<le> reason_code s"

definition less_CongestionReason :: "CongestionReason \<Rightarrow> CongestionReason \<Rightarrow> bool" where
  "less_CongestionReason r s \<longleftrightarrow> reason_code r < reason_code s"

instance
  by standard (auto simp: less_eq_CongestionReason_def less_CongestionReason_def)

end

text \<open>
  A call of \<open>CongestionReporter::reportCongestion\<close>: the reporter object (identified by a
  number, as the shared pointer identifies it), the reason and the edge name, which is passed by
  reference and read by the reporter.
\<close>

type_synonym report_call = "nat \<times> CongestionReason \<times> string reference"

section \<open>Time\<close>

text \<open>One second and one millisecond in the nanoseconds of the clock.\<close>

abbreviation second :: int where
  "second \<equiv> 1000000000"

text \<open>\<open>duration_cast<milliseconds>(d).count()\<close> truncates towards zero.\<close>

definition to_milliseconds :: "int \<Rightarrow> int" where
  "to_milliseconds d = d sdiv 1000000"

lemma to_milliseconds_nonneg: "0 \<le> d \<Longrightarrow> to_milliseconds d = d div 1000000"
  by (cases "d = 0") (simp_all add: to_milliseconds_def signed_divide_int_def)

section \<open>The interface of the timestamp clean-up\<close>

text \<open>
  What a window of recent timestamps is meant to be: those not older than \<open>age\<close>.
\<close>

definition recent :: "int \<Rightarrow> time_point \<Rightarrow> time_point list \<Rightarrow> time_point list" where
  "recent age now ts = filter (\<lambda>t. now - t \<le> age) ts"

text \<open>
  The loop as the code has it: it stops at the first timestamp \<open>t\<close> with
  \<open>t - now \<le> age\<close> and drops the ones before it.
\<close>

locale timestamp_window =
  fixes clean :: "time_point \<Rightarrow> time_point list \<Rightarrow> time_point list"
    and age :: int
  assumes clean_Nil: "clean now [] = []"
    and clean_Cons: "clean now (t # ts) = (if t - now \<le> age then t # ts else clean now ts)"
begin

lemma clean_dropWhile: "clean now ts = dropWhile (\<lambda>t. age < t - now) ts"
  by (induction ts) (auto simp: clean_Nil clean_Cons)

lemma clean_suffix: "\<exists>us. ts = us @ clean now ts"
  by (metis clean_dropWhile takeWhile_dropWhile_id)

lemma clean_idem: "clean now (clean now ts) = clean now ts"
  by (simp add: clean_dropWhile dropWhile_idem)

lemma clean_length: "length (clean now ts) \<le> length ts"
  by (simp add: clean_dropWhile length_dropWhile_le)

text \<open>A clock that does not run backwards: no timestamp lies in the future, and nothing goes.\<close>

lemma clean_past:
  assumes "0 \<le> age" and "\<forall>t \<in> set ts. t \<le> now"
  shows "clean now ts = ts"
proof (cases ts)
  case Nil
  then show ?thesis by (simp add: clean_Nil)
next
  case (Cons t us)
  with assms have "t - now \<le> age" by auto
  with Cons show ?thesis by (simp add: clean_Cons)
qed

text \<open>So an expired timestamp stays, while the intended window is smaller.\<close>

lemma clean_keeps_expired:
  assumes "0 \<le> age" and "\<forall>t \<in> set ts. t \<le> now" and "t \<in> set ts" and "age < now - t"
  shows "t \<in> set (clean now ts)" and "length (recent age now ts) < length (clean now ts)"
proof -
  show "t \<in> set (clean now ts)" using clean_past assms by simp
  have "length (filter (\<lambda>t. now - t \<le> age) ts) < length ts"
    using assms(3,4) by (intro length_filter_less [of t]) auto
  then show "length (recent age now ts) < length (clean now ts)"
    using clean_past assms(1,2) by (simp add: recent_def)
qed

end

end
