(* ===== verification/Consumer.thy ===== *)
theory Consumer
  imports Ndn_Api Json_Api Stats
begin

text \<open>
  \<open>IceflowConsumer\<close>: \<open>include/iceflow/consumer.hpp\<close> and \<open>src/consumer.cpp\<close>. The
  weak pointer to the pub/sub instance is passed to the operations as an optional state:
  \<open>None\<close> is an expired pointer. The consumer callback is of an abstract type \<open>'cb\<close>; running
  it is a parameter of \<open>subscribeCallBack\<close>. The current time is an argument.
\<close>

section \<open>State\<close>

record 'cb IceflowConsumer =
  m_subTopic :: string
  m_partitions :: "u32 list"
  m_subscriptionHandles :: "u32 list"
  m_consumptionTimestamps :: "time_point list"
  m_maxConsumptionAge :: int
  m_consumerCallback :: "'cb option"
  consumer_congestionReporter :: "nat option"
  m_upstreamEdgeName :: "string reference"
  consumer_idleSince :: time_point

text \<open>What a subscription callback receives (\<open>SVSPubSub::SubscriptionData\<close>).\<close>

record 'n SubscriptionData =
  sub_name :: 'n
  sub_data :: "byte list"
  sub_seqNo :: u64

section \<open>Construction, timestamps and statistics\<close>

text \<open>
  \<open>m_upstreamEdgeName\<close> is a reference member: it is bound to the string of the caller, alive while
  the constructor runs.
\<close>

definition newConsumer ::
    "string \<Rightarrow> string \<Rightarrow> nat option \<Rightarrow> time_point \<Rightarrow> 'cb IceflowConsumer" where
  "newConsumer syncPrefix upstreamEdgeName congestionReporter now =
     \<lparr>m_subTopic = syncPrefix @ ''/'' @ upstreamEdgeName, m_partitions = [],
      m_subscriptionHandles = [], m_consumptionTimestamps = [],
      m_maxConsumptionAge = second, m_consumerCallback = None,
      consumer_congestionReporter = congestionReporter, m_upstreamEdgeName = Refers upstreamEdgeName, consumer_idleSince = now\<rparr>"

fun consumer_cleanUp :: "int \<Rightarrow> time_point \<Rightarrow> time_point list \<Rightarrow> time_point list" where
  "consumer_cleanUp age referenceTimepoint [] = []"
| "consumer_cleanUp age referenceTimepoint (firstValue # rest) =
     (let timePassed = firstValue - referenceTimepoint
      in if timePassed \<le> age then firstValue # rest
         else consumer_cleanUp age referenceTimepoint rest)"

definition consumer_cleanUpTimestamps ::
    "time_point \<Rightarrow> 'cb IceflowConsumer \<Rightarrow> 'cb IceflowConsumer" where
  "consumer_cleanUpTimestamps referenceTimepoint c =
     c\<lparr>m_consumptionTimestamps :=
         consumer_cleanUp (m_maxConsumptionAge c) referenceTimepoint (m_consumptionTimestamps c)\<rparr>"

definition consumer_saveTimestamp :: "time_point \<Rightarrow> 'cb IceflowConsumer \<Rightarrow> 'cb IceflowConsumer" where
  "consumer_saveTimestamp timestamp c =
     consumer_cleanUpTimestamps timestamp
       (c\<lparr>m_consumptionTimestamps := m_consumptionTimestamps c @ [timestamp],
          consumer_idleSince := timestamp\<rparr>)"

definition consumer_determineIdleTime :: "time_point \<Rightarrow> 'cb IceflowConsumer \<Rightarrow> u64" where
  "consumer_determineIdleTime referenceTimepoint c =
     word_of_int (to_milliseconds (referenceTimepoint - consumer_idleSince c))"

definition getConsumptionStats ::
    "time_point \<Rightarrow> 'cb IceflowConsumer \<Rightarrow> EdgeConsumptionStats \<times> 'cb IceflowConsumer" where
  "getConsumptionStats referenceTimestamp c =
     (let idleTime = consumer_determineIdleTime referenceTimestamp c;
          c' = consumer_cleanUpTimestamps referenceTimestamp c
      in (\<lparr>unitsConsumed = word_of_nat (length (m_consumptionTimestamps c')),
           consumption_idleTime = idleTime\<rparr>, c'))"

definition setConsumerCallback :: "'cb \<Rightarrow> 'cb IceflowConsumer \<Rightarrow> 'cb IceflowConsumer" where
  "setConsumerCallback cb c = c\<lparr>m_consumerCallback := Some cb\<rparr>"

text \<open>
  \<open>reportCongestion\<close>: the call made on the reporter, or only a warning (\<open>None\<close>). The reference to
  the edge name is handed on as it is.
\<close>

definition consumer_reportCongestion ::
    "CongestionReason \<Rightarrow> 'cb IceflowConsumer \<Rightarrow> report_call option" where
  "consumer_reportCongestion congestionReason c =
     (case consumer_congestionReporter c of
        None \<Rightarrow> None
      | Some r \<Rightarrow> Some (r, congestionReason, m_upstreamEdgeName c))"

section \<open>Subscriptions\<close>

definition consumer_prepareDataName ::
    "('ps, 'n) ndn_ops \<Rightarrow> 'cb IceflowConsumer \<Rightarrow> u32 \<Rightarrow> 'n" where
  "consumer_prepareDataName S c partitionNumber =
     name_append_number S (name_of S (m_subTopic c)) (ucast partitionNumber)"

text \<open>
  \<open>subscribeToTopicPartition\<close> takes a 64-bit number that \<open>prepareDataName\<close> truncates to
  32 bits; it throws when the pub/sub instance is gone. \<open>this\<close> identifies the consumer.
\<close>

definition subscribeToTopicPartition ::
    "('ps, 'n) ndn_ops \<Rightarrow> string \<Rightarrow> u64 \<Rightarrow> 'cb IceflowConsumer \<Rightarrow> 'ps option
       \<Rightarrow> (exn + unit) \<times> 'cb IceflowConsumer \<times> 'ps option" where
  "subscribeToTopicPartition S this topicPartition c lock =
     (case lock of
        Some ps \<Rightarrow>
          (let dataId = consumer_prepareDataName S c (ucast topicPartition);
               (subscriptionHandle, ps') = svs_subscribe S ps dataId (Consumer_callback this)
           in (Inr (),
               c\<lparr>m_subscriptionHandles := m_subscriptionHandles c @ [subscriptionHandle]\<rparr>,
               Some ps'))
      | None \<Rightarrow> (Inl (Runtime_error ''SVS instance has already expired.''), c, None))"

definition unsubscribeFromAllPartitions ::
    "('ps, 'n) ndn_ops \<Rightarrow> 'cb IceflowConsumer \<Rightarrow> 'ps option
       \<Rightarrow> 'cb IceflowConsumer \<times> 'ps option" where
  "unsubscribeFromAllPartitions S c lock =
     (c\<lparr>m_subscriptionHandles := []\<rparr>,
      map_option (\<lambda>ps. foldl (svs_unsubscribe S) ps (m_subscriptionHandles c)) lock)"

text \<open>The \<open>for\<close> loop of \<open>repartition\<close>, left by the first exception.\<close>

fun subscribeAll ::
    "('ps, 'n) ndn_ops \<Rightarrow> string \<Rightarrow> u32 list \<Rightarrow> 'cb IceflowConsumer \<Rightarrow> 'ps option
       \<Rightarrow> (exn + unit) \<times> 'cb IceflowConsumer \<times> 'ps option" where
  "subscribeAll S this [] c lock = (Inr (), c, lock)"
| "subscribeAll S this (p # partitions) c lock =
     (case subscribeToTopicPartition S this (ucast p) c lock of
        (Inl e, c', lock') \<Rightarrow> (Inl e, c', lock')
      | (Inr _, c', lock') \<Rightarrow> subscribeAll S this partitions c' lock')"

text \<open>Only \<open>std::runtime_error\<close> is caught; any other exception leaves \<open>repartition\<close>.\<close>

definition repartition ::
    "('ps, 'n) ndn_ops \<Rightarrow> string \<Rightarrow> u32 list \<Rightarrow> 'cb IceflowConsumer \<Rightarrow> 'ps option
       \<Rightarrow> (exn + bool) \<times> 'cb IceflowConsumer \<times> 'ps option" where
  "repartition S this partitions c lock =
     (let (c1, lock1) = unsubscribeFromAllPartitions S c lock in
      case subscribeAll S this partitions c1 lock1 of
        (Inl e, c2, lock2) \<Rightarrow> (if is_runtime_error e then Inr False else Inl e, c2, lock2)
      | (Inr _, c2, lock2) \<Rightarrow> (Inr True, c2, lock2))"

text \<open>The destructor.\<close>

definition destroyConsumer ::
    "('ps, 'n) ndn_ops \<Rightarrow> 'cb IceflowConsumer \<Rightarrow> 'ps option \<Rightarrow> 'ps option" where
  "destroyConsumer S c lock = snd (unsubscribeFromAllPartitions S c lock)"

section \<open>Receiving data\<close>

definition backchannelName :: "('ps, 'n) ndn_ops \<Rightarrow> string \<Rightarrow> 'n" where
  "backchannelName S topic = name_append S (name_of S topic) ''backchannel''"

text \<open>The acknowledgement: the sequence number as a JSON text, as bytes.\<close>

definition ackPayload :: "'j json_ops \<Rightarrow> u64 \<Rightarrow> byte list" where
  "ackPayload J seqNo = bytes_of_string (j_dump J (j_of_u64 J seqNo))"

text \<open>
  \<open>subscribeCallBack\<close>: \<open>invoke\<close> runs the application's callback on the payload, in a world
  \<open>'w\<close> that contains whatever the callback can reach, and \<open>lockOf\<close>/\<open>putBack\<close> access the
  pub/sub instance in that world after the call. An exception of the callback leaves the
  function before the timestamp is saved and before the acknowledgement is published. The log
  message for a missing callback, which reads \<open>m_upstreamEdgeName\<close>, is left out like all logging.
\<close>

definition subscribeCallBack ::
    "('ps, 'n) ndn_ops \<Rightarrow> 'j json_ops \<Rightarrow> ('cb \<Rightarrow> byte list \<Rightarrow> 'w \<Rightarrow> (exn + unit) \<times> 'w)
       \<Rightarrow> ('w \<Rightarrow> 'ps option) \<Rightarrow> ('ps \<Rightarrow> 'w \<Rightarrow> 'w)
       \<Rightarrow> time_point \<Rightarrow> 'n SubscriptionData \<Rightarrow> 'cb IceflowConsumer \<Rightarrow> 'w
       \<Rightarrow> (exn + unit) \<times> 'cb IceflowConsumer \<times> 'w" where
  "subscribeCallBack S J invoke lockOf putBack now subData c w =
     (case m_consumerCallback c of
        None \<Rightarrow> (Inr (), c, w)
      | Some cb \<Rightarrow>
          (case invoke cb (sub_data subData) w of
             (Inl e, w1) \<Rightarrow> (Inl e, c, w1)
           | (Inr _, w1) \<Rightarrow>
               (let c1 = consumer_saveTimestamp now c in
                case lockOf w1 of
                  None \<Rightarrow> (Inr (), c1, w1)
                | Some ps \<Rightarrow>
                    (Inr (), c1,
                     putBack (snd (svs_publish S ps (backchannelName S (m_subTopic c1))
                                     (ackPayload J (sub_seqNo subData)) None)) w1))))"

section \<open>Lemmas\<close>

interpretation consumer_window: timestamp_window "consumer_cleanUp age" age for age
  by unfold_locales simp_all

lemma consumer_cleanUpTimestamps_sels [simp]:
  "m_subTopic (consumer_cleanUpTimestamps now c) = m_subTopic c"
  "m_subscriptionHandles (consumer_cleanUpTimestamps now c) = m_subscriptionHandles c"
  "m_maxConsumptionAge (consumer_cleanUpTimestamps now c) = m_maxConsumptionAge c"
  "m_consumerCallback (consumer_cleanUpTimestamps now c) = m_consumerCallback c"
  "consumer_idleSince (consumer_cleanUpTimestamps now c) = consumer_idleSince c"
  by (simp_all add: consumer_cleanUpTimestamps_def)

lemma consumer_saveTimestamp_sels [simp]:
  "m_subTopic (consumer_saveTimestamp now c) = m_subTopic c"
  "m_subscriptionHandles (consumer_saveTimestamp now c) = m_subscriptionHandles c"
  "m_maxConsumptionAge (consumer_saveTimestamp now c) = m_maxConsumptionAge c"
  "m_consumerCallback (consumer_saveTimestamp now c) = m_consumerCallback c"
  "consumer_idleSince (consumer_saveTimestamp now c) = now"
  by (simp_all add: consumer_saveTimestamp_def)

text \<open>The subscription of a partition: its data name, served by the consumer's callback.\<close>

definition partition_sub ::
    "('ps, 'n) ndn_ops \<Rightarrow> string \<Rightarrow> 'cb IceflowConsumer \<Rightarrow> u32 \<Rightarrow> 'n \<times> callback" where
  "partition_sub S this c p = (consumer_prepareDataName S c p, Consumer_callback this)"

lemma prepareDataName_handles [simp]:
  "consumer_prepareDataName S (c\<lparr>m_subscriptionHandles := hs\<rparr>) = consumer_prepareDataName S c"
  by (simp add: consumer_prepareDataName_def fun_eq_iff)

lemma partition_sub_handles [simp]:
  "partition_sub S this (c\<lparr>m_subscriptionHandles := hs\<rparr>) = partition_sub S this c"
  by (simp add: partition_sub_def fun_eq_iff)

context svs
begin

lemma unsubscribe_all:
  assumes "invar ps"
  shows "invar (foldl (svs_unsubscribe S) ps hs)"
    and "used (foldl (svs_unsubscribe S) ps hs) = used ps"
    and "pubs (foldl (svs_unsubscribe S) ps hs) = pubs ps"
    and "store (foldl (svs_unsubscribe S) ps hs) = store ps"
    and "subs (foldl (svs_unsubscribe S) ps hs) = subs ps |` (- set hs)"
proof -
  have "invar (foldl (svs_unsubscribe S) ps hs) \<and> used (foldl (svs_unsubscribe S) ps hs) = used ps \<and>
      pubs (foldl (svs_unsubscribe S) ps hs) = pubs ps \<and>
      store (foldl (svs_unsubscribe S) ps hs) = store ps \<and>
      subs (foldl (svs_unsubscribe S) ps hs) = subs ps |` (- set hs)"
    using assms
  proof (induction hs arbitrary: ps)
    case Nil
    then show ?case by simp
  next
    case (Cons h hs)
    from Cons.IH [OF unsubscribe_inv [OF Cons.prems]] Cons.prems show ?case
      by (auto simp: unsubscribe_simps restrict_map_def fun_eq_iff)
  qed
  then show "invar (foldl (svs_unsubscribe S) ps hs)"
    and "used (foldl (svs_unsubscribe S) ps hs) = used ps"
    and "pubs (foldl (svs_unsubscribe S) ps hs) = pubs ps"
    and "store (foldl (svs_unsubscribe S) ps hs) = store ps"
    and "subs (foldl (svs_unsubscribe S) ps hs) = subs ps |` (- set hs)"
    by simp_all
qed

lemma subscribeAll_live:
  assumes "invar ps" and "used ps + length partitions < 2 ^ 32"
  shows "\<exists>hs ps'. subscribeAll S this partitions c (Some ps) =
      (Inr (), c\<lparr>m_subscriptionHandles := m_subscriptionHandles c @ hs\<rparr>, Some ps') \<and>
    length hs = length partitions \<and> distinct hs \<and> set hs \<inter> dom (subs ps) = {} \<and>
    subs ps' = (subs ps)(hs [\<mapsto>] map (partition_sub S this c) partitions) \<and>
    invar ps' \<and> used ps' = used ps + length partitions \<and> pubs ps' = pubs ps \<and> store ps' = store ps"
  using assms
proof (induction partitions arbitrary: ps c)
  case Nil
  then show ?case by auto
next
  case (Cons p partitions)
  obtain h ps1 where sub:
    "svs_subscribe S ps (consumer_prepareDataName S c p) (Consumer_callback this) = (h, ps1)"
    by (cases "svs_subscribe S ps (consumer_prepareDataName S c p) (Consumer_callback this)")
  from Cons.prems have "used ps < 2 ^ 32 - 1" by simp
  note ps1 = subscribe [OF Cons.prems(1) this sub]
  let ?c1 = "c\<lparr>m_subscriptionHandles := m_subscriptionHandles c @ [h]\<rparr>"
  have subs1: "subs ps1 = (subs ps)(h \<mapsto> partition_sub S this c p)"
    using ps1 by (simp add: partition_sub_def)
  have "invar ps1" and "used ps1 + length partitions < 2 ^ 32" using ps1 Cons.prems by simp_all
  from Cons.IH [OF this, of ?c1] obtain hs ps' where **:
    "subscribeAll S this partitions ?c1 (Some ps1) =
       (Inr (), ?c1\<lparr>m_subscriptionHandles := m_subscriptionHandles ?c1 @ hs\<rparr>, Some ps')"
    and *: "length hs = length partitions" "distinct hs" "set hs \<inter> dom (subs ps1) = {}"
    "subs ps' = (subs ps1)(hs [\<mapsto>] map (partition_sub S this ?c1) partitions)"
    "invar ps'" "used ps' = used ps1 + length partitions" "pubs ps' = pubs ps1" "store ps' = store ps1"
    by blast
  have "subs ps' = (subs ps)(h # hs [\<mapsto>] map (partition_sub S this c) (p # partitions))"
    by (simp only: *(4) subs1 map_upds_Cons list.map partition_sub_handles)
  moreover have "set (h # hs) \<inter> dom (subs ps) = {}" and "distinct (h # hs)"
    using *(2,3) ps1 by (auto simp: subs1)
  ultimately show ?case
    using * ** ps1 by (intro exI [of _ "h # hs"] exI [of _ ps'])
      (simp add: subscribeToTopicPartition_def sub)
qed

end

section \<open>Properties\<close>

lemma repartition_fresh:
  assumes "svs S invar used subs pubs store" and "invar ps"
    and "used ps + length partitions < 2 ^ 32"
  shows "\<exists>hs ps'. repartition S this partitions c (Some ps) =
      (Inr True, c\<lparr>m_subscriptionHandles := hs\<rparr>, Some ps') \<and>
    length hs = length partitions \<and> distinct hs \<and>
    map (subs ps') hs = map (\<lambda>p. Some (partition_sub S this c p)) partitions \<and>
    (\<forall>h. h \<notin> set hs \<longrightarrow>
       subs ps' h = (if h \<in> set (m_subscriptionHandles c) then None else subs ps h)) \<and>
    set hs \<inter> dom (subs ps |` (- set (m_subscriptionHandles c))) = {} \<and>
    invar ps' \<and> used ps' = used ps + length partitions \<and> pubs ps' = pubs ps \<and> store ps' = store ps"
proof -
  let ?c0 = "c\<lparr>m_subscriptionHandles := []\<rparr>"
  let ?ps0 = "foldl (svs_unsubscribe S) ps (m_subscriptionHandles c)"
  note un = svs.unsubscribe_all [OF assms(1,2), where hs = "m_subscriptionHandles c"]
  obtain hs ps' where *:
    "subscribeAll S this partitions ?c0 (Some ?ps0) =
       (Inr (), c\<lparr>m_subscriptionHandles := hs\<rparr>, Some ps')"
    "length hs = length partitions" "distinct hs" "set hs \<inter> dom (subs ?ps0) = {}"
    "subs ps' = (subs ?ps0)(hs [\<mapsto>] map (partition_sub S this c) partitions)"
    "invar ps' \<and> used ps' = used ps + length partitions \<and> pubs ps' = pubs ps \<and> store ps' = store ps"
    using svs.subscribeAll_live [OF assms(1) un(1), where partitions = partitions
        and this = this and c = ?c0] assms(3) un(2-4) by auto
  have "repartition S this partitions c (Some ps) =
      (Inr True, c\<lparr>m_subscriptionHandles := hs\<rparr>, Some ps')"
    by (simp add: repartition_def unsubscribeFromAllPartitions_def *(1))
  moreover have "map (subs ps') hs = map (\<lambda>p. Some (partition_sub S this c p)) partitions"
    using map_of_upds [of hs "map (partition_sub S this c) partitions" "subs ?ps0"] *(2,3)
    by (simp add: *(5) comp_def)
  moreover have "h \<notin> set hs \<Longrightarrow>
      subs ps' h = (if h \<in> set (m_subscriptionHandles c) then None else subs ps h)" for h
    by (simp add: *(5) map_upds_apply_nontin un(5) restrict_map_def)
  moreover have "set hs \<inter> dom (subs ps |` (- set (m_subscriptionHandles c))) = {}"
    using *(4) by (simp add: un(5))
  ultimately show ?thesis using *(2,3,6) by blast
qed

text \<open>
  Repartitioning is exact. With a live pub/sub instance whose handle counter has room,
  \<open>repartition\<close> returns true and leaves the consumer with one fresh handle per requested
  partition, in order; exactly these handles are subscribed to the partitions' data names with
  this consumer's callback, all previous subscriptions of the consumer are gone, and every other
  subscription is untouched.
\<close>

theorem repartition_exact:
  assumes "svs S invar used subs pubs store" and "invar ps"
    and "used ps + length partitions < 2 ^ 32"
  shows "\<exists>hs ps'. repartition S this partitions c (Some ps) =
      (Inr True, c\<lparr>m_subscriptionHandles := hs\<rparr>, Some ps') \<and>
    length hs = length partitions \<and> distinct hs \<and>
    map (subs ps') hs = map (\<lambda>p. Some (partition_sub S this c p)) partitions \<and>
    (\<forall>h. h \<notin> set hs \<longrightarrow>
       subs ps' h = (if h \<in> set (m_subscriptionHandles c) then None else subs ps h))"
  using repartition_fresh [OF assms, of this c] by blast

definition example_consumer :: "unit IceflowConsumer" where
  "example_consumer = newConsumer ''app'' ''e'' None 0"

theorem repartition_exact_witness:
  "\<exists>hs ps'. repartition ref_ndn ''e'' [0, 2] example_consumer (Some (svs_new ref_ndn [] [])) =
      (Inr True, example_consumer\<lparr>m_subscriptionHandles := hs\<rparr>, Some ps') \<and>
    map (ref_subs ps') hs =
      [Some ([Text ''app'', Text ''e'', Number 0], Consumer_callback ''e''),
       Some ([Text ''app'', Text ''e'', Number 2], Consumer_callback ''e'')]"
proof -
  have "ref_inv (svs_new ref_ndn [] [])" by (rule ref_svs.new_inv)
  moreover have "rs_count (svs_new ref_ndn [] []) + length [0, 2 :: u32] < 2 ^ 32" by simp
  ultimately show ?thesis
    using repartition_exact [OF ref_svs.svs_axioms, of "svs_new ref_ndn [] []" "[0, 2]"
        "''e''" example_consumer]
    by (auto simp: partition_sub_def consumer_prepareDataName_def example_consumer_def
        newConsumer_def ref_name_of_def)
qed

text \<open>
  Repartitioning after the pub/sub instance is gone. The consumer forgets its handles and the
  call returns false, without an exception, unless no partition was requested.
\<close>

theorem repartition_expired:
  "repartition S this partitions c None =
     (Inr (partitions = []), c\<lparr>m_subscriptionHandles := []\<rparr>, None)"
  by (cases partitions)
    (simp_all add: repartition_def unsubscribeFromAllPartitions_def subscribeToTopicPartition_def)

text \<open>
  Topics do not collide. Different partitions of one consumer have different data names, and
  none of them is the back channel of the topic.
\<close>

theorem consumer_names_distinct:
  assumes "svs S invar used subs pubs store"
  shows "(consumer_prepareDataName S c p = consumer_prepareDataName S c q \<longleftrightarrow> p = q) \<and>
    consumer_prepareDataName S c p \<noteq> backchannelName S (m_subTopic c)"
  using svs.number_inject [OF assms] svs.number_not_text [OF assms]
  by (metis backchannelName_def consumer_prepareDataName_def ucast_u32_u64)

theorem consumer_names_distinct_witness:
  "consumer_prepareDataName ref_ndn example_consumer 1 \<noteq> consumer_prepareDataName ref_ndn example_consumer 2"
  using consumer_names_distinct [OF ref_svs.svs_axioms, of example_consumer 1 2] by simp

text \<open>The life of a consumer as far as its statistics go: data arrived at the times \<open>ts\<close>.\<close>

definition consumed_at ::
    "'cb IceflowConsumer \<Rightarrow> time_point list \<Rightarrow> 'cb IceflowConsumer" where
  "consumed_at c ts = foldl (\<lambda>c t. consumer_saveTimestamp t c) c ts"

lemma consumed_at_frame [simp]:
  "m_maxConsumptionAge (consumed_at c ts) = m_maxConsumptionAge c"
  "consumer_idleSince (consumed_at c ts) = (if ts = [] then consumer_idleSince c else last ts)"
  by (induction ts arbitrary: c) (auto simp: consumed_at_def)

lemma consumed_at_timestamps:
  assumes "0 \<le> m_maxConsumptionAge c" and "sorted (m_consumptionTimestamps c @ ts)"
  shows "m_consumptionTimestamps (consumed_at c ts) = m_consumptionTimestamps c @ ts"
  using assms
proof (induction ts arbitrary: c)
  case Nil
  then show ?case by (simp add: consumed_at_def)
next
  case (Cons t ts)
  have "consumer_cleanUp (m_maxConsumptionAge c) t (m_consumptionTimestamps c @ [t])
      = m_consumptionTimestamps c @ [t]"
    by (rule consumer_window.clean_past) (use Cons.prems in \<open>auto simp: sorted_append\<close>)
  then have "m_consumptionTimestamps (consumer_saveTimestamp t c) = m_consumptionTimestamps c @ [t]"
    by (simp add: consumer_saveTimestamp_def consumer_cleanUpTimestamps_def)
  with Cons.IH [of "consumer_saveTimestamp t c"] Cons.prems show ?case
    by (simp add: consumed_at_def)
qed

text \<open>
  C35: the consumption statistics never forget. On a clock that does not run backwards,
  \<open>unitsConsumed\<close> is the number of units consumed since the consumer was created (modulo
  \<open>2 ^ 64\<close>), not the number consumed within the last second: the clean-up loop compares
  \<open>timestamp - now\<close>, which is never positive, with the age limit. The idle time is the
  number of milliseconds since the last unit, or since construction.
\<close>

theorem consumption_stats_never_expire:
  assumes "sorted (created # ts @ [now])"
  shows "fst (getConsumptionStats now (consumed_at (newConsumer pre edge r created) ts)) =
    \<lparr>unitsConsumed = word_of_nat (length ts),
     consumption_idleTime = word_of_int ((now - last (created # ts)) div 1000000)\<rparr>"
proof -
  let ?c0 = "newConsumer pre edge r created"
  let ?c = "consumed_at ?c0 ts"
  have ts: "m_consumptionTimestamps ?c = ts"
    by (subst consumed_at_timestamps) (use assms in \<open>auto simp: newConsumer_def sorted_append\<close>)
  have c: "m_maxConsumptionAge ?c = second" "consumer_idleSince ?c = last (created # ts)"
    by (simp_all add: newConsumer_def)
  have "consumer_cleanUp second now ts = ts"
    by (rule consumer_window.clean_past) (use assms in \<open>auto simp: sorted_append\<close>)
  moreover have "last (created # ts) \<le> now"
    using assms by (auto simp: sorted_append)
  ultimately show ?thesis
    by (simp add: getConsumptionStats_def consumer_cleanUpTimestamps_def ts c
        consumer_determineIdleTime_def to_milliseconds_nonneg del: last.simps consumed_at_frame)
qed

theorem consumption_stats_never_expire_witness:
  "unitsConsumed (fst (getConsumptionStats (100 * second)
     (consumed_at (newConsumer ''/app'' ''e'' None 0) [1, 2, 3]))) = 3"
  by (subst consumption_stats_never_expire) simp_all

end
