(* ===== verification/Mt19937.thy ===== *)
theory Mt19937
  imports Prelude
begin

text \<open>
  \<open>std::mt19937\<close>, the generator from which \<open>IceflowProducer\<close> draws partition numbers, as the
  C++ standard defines it: the state is the window of the last 624 words, one step computes the
  next word of the recurrence, appends it and returns it tempered.
\<close>

unbundle bit_operations_syntax

definition mt_n :: nat where "mt_n = 624"
definition mt_m :: nat where "mt_m = 397"

type_synonym mt_state = "u32 list"

text \<open>The seeding recurrence; the loop index runs from 1 to 623.\<close>

fun mt_seed_loop :: "nat \<Rightarrow> nat \<Rightarrow> u32 \<Rightarrow> u32 list" where
  "mt_seed_loop 0 i x = []"
| "mt_seed_loop (Suc k) i x =
     (let x' = 1812433253 * (x XOR drop_bit 30 x) + word_of_nat i
      in x' # mt_seed_loop k (Suc i) x')"

definition mt19937_seed :: "u32 \<Rightarrow> mt_state" where
  "mt19937_seed value = value # mt_seed_loop (mt_n - 1) 1 value"

definition mt_temper :: "u32 \<Rightarrow> u32" where
  "mt_temper x =
     (let z1 = x XOR drop_bit 11 x;
          z2 = z1 XOR (push_bit 7 z1 AND 0x9d2c5680);
          z3 = z2 XOR (push_bit 15 z2 AND 0xefc60000)
      in z3 XOR drop_bit 18 z3)"

definition mt19937_next :: "mt_state \<Rightarrow> u32 \<times> mt_state" where
  "mt19937_next xs =
     (let y = (xs ! 0 AND 0x80000000) OR (xs ! 1 AND 0x7fffffff);
          alpha = (if bit y 0 then 0x9908b0df else 0);
          x = xs ! mt_m XOR drop_bit 1 y XOR alpha
      in (mt_temper x, tl xs @ [x]))"

section \<open>The window keeps its length\<close>

definition mt_ok :: "mt_state \<Rightarrow> bool" where
  "mt_ok xs \<longleftrightarrow> length xs = mt_n"

lemma length_mt_seed_loop [simp]: "length (mt_seed_loop k i x) = k"
  by (induction k arbitrary: i x) (simp_all add: Let_def)

lemma mt_ok_seed [intro]: "mt_ok (mt19937_seed s)"
  by (simp add: mt_ok_def mt19937_seed_def mt_n_def)

lemma mt_ok_next [intro]: "mt_ok xs \<Longrightarrow> mt_ok (snd (mt19937_next xs))"
  by (simp add: mt_ok_def mt19937_next_def mt_n_def Let_def)

end
