(* ===== verification/Producer.thy ===== *)
theory Producer
  imports Consumer Mt19937
begin

text \<open>
  \<open>IceflowProducer\<close>: \<open>include/iceflow/producer.hpp\<close> and \<open>src/producer.cpp\<close>. As for
  the consumer, the weak pointer to the pub/sub instance is an optional state and the time is an
  argument. The back channel handler is the lambda of \<open>setupBackchannel\<close>.
\<close>

section \<open>State\<close>

record IceflowProducer =
  m_pubTopic :: string
  producer_nodePrefix :: string
  producer_syncPrefix :: string
  m_numberOfPartitions :: u32
  m_topicPartitions :: "u32 set"
  m_randomNumberGenerator :: mt_state
  producer_congestionReporter :: "nat option"
  m_productionTimestamps :: "time_point list"
  m_maxProductionTimestampAge :: int
  m_downstreamEdgeName :: "string reference"
  producer_idleSince :: time_point

section \<open>Topic partitions\<close>

text \<open>
  The loop \<open>for (uint64_t i = 0; i < numberOfPartitions; ++i)\<close>: the 64-bit index is
  truncated to the 32-bit element type of the set.
\<close>

function emplacePartitions :: "u64 \<Rightarrow> u64 \<Rightarrow> u32 set \<Rightarrow> u32 set" where
  "emplacePartitions i n acc =
     (if i < n then emplacePartitions (i + 1) n (insert (ucast i) acc) else acc)"
  by pat_completeness auto

termination
proof (relation "measure (\<lambda>(i, n, _). unat n - unat i)")
  fix i n :: u64 and acc :: "u32 set"
  assume "i < n"
  then have "unat i < unat n" by (simp add: word_less_nat_alt)
  with unat_increment [OF \<open>i < n\<close>] show "((i + 1, n, insert (ucast i) acc), i, n, acc)
      \<in> measure (\<lambda>(i, n, _). unat n - unat i)"
    by simp
qed simp

declare emplacePartitions.simps [simp del]

definition setTopicPartitions :: "u64 \<Rightarrow> IceflowProducer \<Rightarrow> exn + IceflowProducer" where
  "setTopicPartitions numberOfPartitions p =
     (if numberOfPartitions = 0
      then Inl (Invalid_argument ''At least one topic partition has to be defined!'')
      else Inr (p\<lparr>m_topicPartitions := emplacePartitions 0 numberOfPartitions {}\<rparr>))"

section \<open>Back channel\<close>

text \<open>
  The subscription callback: it parses the payload, ignores what is not an integer, and erases
  the data packet \<open>nodePrefix/syncPrefix/sequenceNumber\<close> from the data store. Exceptions
  derived from \<open>std::exception\<close> are caught and logged.
\<close>

definition handleBackchannel ::
    "('ps, 'n) ndn_ops \<Rightarrow> 'j json_ops \<Rightarrow> string \<Rightarrow> string \<Rightarrow> 'n SubscriptionData \<Rightarrow> 'ps
       \<Rightarrow> (exn + unit) \<times> 'ps" where
  "handleBackchannel S J nodePrefix syncPrefix subscriptionData ps =
     (let caught = (\<lambda>e. (if is_std_exception e then Inr () else Inl e, ps)) in
      case j_parse J (sub_data subscriptionData) of
        Inl e \<Rightarrow> caught e
      | Inr sequenceNumberJson \<Rightarrow>
          (if \<not> j_is_number_integer J sequenceNumberJson then (Inr (), ps)
           else case j_get_u64 J sequenceNumberJson of
                  Inl e \<Rightarrow> caught e
                | Inr sequenceNumber \<Rightarrow>
                    (Inr (), svs_erase S ps
                       (name_append_number S
                          (name_append_string S (name_of S nodePrefix) syncPrefix)
                          sequenceNumber))))"

definition setupBackchannel ::
    "('ps, 'n) ndn_ops \<Rightarrow> IceflowProducer \<Rightarrow> 'ps option \<Rightarrow> 'ps option" where
  "setupBackchannel S p lock =
     map_option (\<lambda>ps. snd (svs_subscribe S ps (backchannelName S (m_pubTopic p))
                  (Backchannel_handler (producer_nodePrefix p) (producer_syncPrefix p)))) lock"

section \<open>Construction\<close>

text \<open>
  The constructor: the seed is \<open>time(nullptr)\<close>; \<open>m_idleSince\<close> keeps its default, the epoch
  of the clock. When the number of partitions is zero it throws before it subscribes.
  The reference member \<open>m_downstreamEdgeName\<close> is bound to the string of the caller.
\<close>

definition newProducer ::
    "('ps, 'n) ndn_ops \<Rightarrow> string \<Rightarrow> string \<Rightarrow> string \<Rightarrow> u32 \<Rightarrow> nat option \<Rightarrow> int \<Rightarrow> 'ps option
       \<Rightarrow> (exn + IceflowProducer) \<times> 'ps option" where
  "newProducer S nodePrefix syncPrefix downstreamEdgeName numberOfPartitions reporter time lock =
     (case setTopicPartitions (ucast numberOfPartitions)
             \<lparr>m_pubTopic = syncPrefix @ ''/'' @ downstreamEdgeName,
              producer_nodePrefix = nodePrefix, producer_syncPrefix = syncPrefix,
              m_numberOfPartitions = numberOfPartitions, m_topicPartitions = {},
              m_randomNumberGenerator = mt19937_seed (word_of_int time),
              producer_congestionReporter = reporter,
              m_productionTimestamps = [], m_maxProductionTimestampAge = second,
              m_downstreamEdgeName = Refers downstreamEdgeName, producer_idleSince = 0\<rparr> of
        Inl e \<Rightarrow> (Inl e, lock)
      | Inr p \<Rightarrow> (Inr p, setupBackchannel S p lock))"

section \<open>Publishing\<close>

definition producer_prepareDataName :: "('ps, 'n) ndn_ops \<Rightarrow> IceflowProducer \<Rightarrow> u32 \<Rightarrow> 'n" where
  "producer_prepareDataName S p partitionNumber =
     name_append_number S (name_of S (m_pubTopic p)) (ucast partitionNumber)"

definition getNextPartitionNumber :: "IceflowProducer \<Rightarrow> u32 \<times> IceflowProducer" where
  "getNextPartitionNumber p =
     (let (r, rng) = mt19937_next (m_randomNumberGenerator p)
      in (r mod m_numberOfPartitions p, p\<lparr>m_randomNumberGenerator := rng\<rparr>))"

definition producer_pushData ::
    "('ps, 'n) ndn_ops \<Rightarrow> byte list \<Rightarrow> IceflowProducer \<Rightarrow> 'ps option
       \<Rightarrow> IceflowProducer \<times> 'ps option" where
  "producer_pushData S data p lock =
     (case lock of
        None \<Rightarrow> (p, None)
      | Some ps \<Rightarrow>
          (let (partitionNumber, p') = getNextPartitionNumber p;
               dataID = producer_prepareDataName S p' partitionNumber;
               (sequenceNo, ps') =
                 svs_publish S ps dataID data (Some (name_of S (producer_nodePrefix p')))
           in (p', Some ps')))"

section \<open>Timestamps, statistics, congestion\<close>

fun producer_cleanUp :: "int \<Rightarrow> time_point \<Rightarrow> time_point list \<Rightarrow> time_point list" where
  "producer_cleanUp age referenceTimepoint [] = []"
| "producer_cleanUp age referenceTimepoint (firstValue # rest) =
     (let timePassed = firstValue - referenceTimepoint
      in if timePassed \<le> age then firstValue # rest
         else producer_cleanUp age referenceTimepoint rest)"

definition producer_cleanUpTimestamps :: "time_point \<Rightarrow> IceflowProducer \<Rightarrow> IceflowProducer" where
  "producer_cleanUpTimestamps referenceTimepoint p =
     p\<lparr>m_productionTimestamps :=
         producer_cleanUp (m_maxProductionTimestampAge p) referenceTimepoint (m_productionTimestamps p)\<rparr>"

text \<open>Private, and called by no function of the class.\<close>

definition producer_saveTimestamp :: "time_point \<Rightarrow> IceflowProducer \<Rightarrow> IceflowProducer" where
  "producer_saveTimestamp timestamp p =
     producer_cleanUpTimestamps timestamp
       (p\<lparr>m_productionTimestamps := m_productionTimestamps p @ [timestamp]\<rparr>)"

definition producer_determineIdleTime :: "time_point \<Rightarrow> IceflowProducer \<Rightarrow> u64" where
  "producer_determineIdleTime referenceTimepoint p =
     word_of_int (to_milliseconds (referenceTimepoint - producer_idleSince p))"

definition getProductionStats ::
    "time_point \<Rightarrow> IceflowProducer \<Rightarrow> EdgeProductionStats \<times> IceflowProducer" where
  "getProductionStats referenceTimestamp p =
     (let idleTime = producer_determineIdleTime referenceTimestamp p;
          p' = producer_cleanUpTimestamps referenceTimestamp p
      in (\<lparr>unitsProduced = word_of_nat (length (m_productionTimestamps p')),
           production_idleTime = idleTime\<rparr>, p'))"

definition producer_reportCongestion ::
    "CongestionReason \<Rightarrow> IceflowProducer \<Rightarrow> report_call option" where
  "producer_reportCongestion congestionReason p =
     (case producer_congestionReporter p of
        None \<Rightarrow> None
      | Some r \<Rightarrow> Some (r, congestionReason, m_downstreamEdgeName p))"

section \<open>Lemmas\<close>

interpretation producer_window: timestamp_window "producer_cleanUp age" age for age
  by unfold_locales simp_all

lemma emplacePartitions_unat:
  "emplacePartitions i n acc = acc \<union> ucast ` {j :: u64. unat i \<le> unat j \<and> unat j < unat n}"
proof (induction i n acc rule: emplacePartitions.induct)
  case (1 i n acc)
  show ?case
  proof (cases "i < n")
    case True
    then have "{j :: u64. unat i \<le> unat j \<and> unat j < unat n} =
        insert i {j. unat (i + 1) \<le> unat j \<and> unat j < unat n}"
      using unat_increment [OF True]
      by (auto simp: word_less_nat_alt Suc_le_eq le_less dest: unsigned_word_eqI)
    with True "1.IH" show ?thesis
      by (simp add: emplacePartitions.simps [of i n acc])
  next
    case False
    then show ?thesis
      by (auto simp: emplacePartitions.simps [of i n acc] word_less_nat_alt)
  qed
qed

lemma ucast_below: "(ucast ` {j :: u64. unat j < unat n} :: u32 set) = {q. unat q < unat n}"
proof (intro set_eqI iffI)
  fix q :: u32
  assume "q \<in> ucast ` {j :: u64. unat j < unat n}"
  then obtain j :: u64 where "q = ucast j" and "unat j < unat n" by blast
  moreover have "unat (ucast j :: u32) \<le> unat j"
    by (simp add: unsigned_ucast_eq take_bit_eq_mod)
  ultimately show "q \<in> {q. unat q < unat n}" by simp
next
  fix q :: u32
  assume "q \<in> {q. unat q < unat n}"
  then show "q \<in> ucast ` {j :: u64. unat j < unat n}"
    by (intro image_eqI [of _ _ "ucast q"]) simp_all
qed

text \<open>
  The topic partitions. \<open>setTopicPartitions\<close> throws \<open>std::invalid_argument\<close> on zero
  and otherwise makes the set of topic partitions exactly the numbers below the argument that fit
  32 bits, whatever it was before; it changes nothing else. In particular the 64-bit loop ends.
\<close>

lemma setTopicPartitions_eq:
  "setTopicPartitions n p =
     (if n = 0 then Inl (Invalid_argument ''At least one topic partition has to be defined!'')
      else Inr (p\<lparr>m_topicPartitions := {q. unat q < unat n}\<rparr>))"
  using emplacePartitions_unat [of 0 n "{}"] ucast_below [of n]
  by (simp add: setTopicPartitions_def)

section \<open>Properties\<close>

text \<open>
  The states of a producer: constructed, then changed by its public operations in any order and
  with any arguments; the string its edge name refers to may be destroyed at any time.
\<close>

inductive producer_reach :: "('ps, 'n) ndn_ops \<Rightarrow> IceflowProducer \<Rightarrow> bool" for S where
  created: "newProducer S np sp e n r time lock = (Inr p, lock') \<Longrightarrow> producer_reach S p"
| pushed: "producer_reach S p \<Longrightarrow> producer_pushData S data p lock = (p', lock') \<Longrightarrow>
     producer_reach S p'"
| repartitioned: "producer_reach S p \<Longrightarrow> setTopicPartitions n p = Inr p' \<Longrightarrow> producer_reach S p'"
| queried: "producer_reach S p \<Longrightarrow> getProductionStats now p = (stats, p') \<Longrightarrow> producer_reach S p'"
| name_destroyed: "producer_reach S p \<Longrightarrow> producer_reach S (p\<lparr>m_downstreamEdgeName := Dangling\<rparr>)"

definition producer_invar :: "IceflowProducer \<Rightarrow> bool" where
  "producer_invar p \<longleftrightarrow> m_numberOfPartitions p \<noteq> 0 \<and> m_topicPartitions p \<noteq> {} \<and>
     mt_ok (m_randomNumberGenerator p) \<and> m_productionTimestamps p = [] \<and> producer_idleSince p = 0"

lemma below_nonempty: "n \<noteq> 0 \<Longrightarrow> {q :: u32. unat q < unat n} \<noteq> {}" for n :: "'a :: len word"
  using unsigned_0 unat_gt_0 [of n] by (metis (mono_tags) empty_iff mem_Collect_eq)

lemma pushData_producer:
  "fst (producer_pushData S data p lock) =
     (if lock = None then p
      else p\<lparr>m_randomNumberGenerator := snd (mt19937_next (m_randomNumberGenerator p))\<rparr>)"
  by (simp add: producer_pushData_def getNextPartitionNumber_def split_beta Let_def
      split: option.split)

lemma producer_reach_invar: "producer_reach S p \<Longrightarrow> producer_invar p"
proof (induction rule: producer_reach.induct)
  case (created np sp e n r time lock p lock')
  then show ?case
    using below_nonempty [of "ucast n :: u64"]
    by (auto simp: newProducer_def setTopicPartitions_eq producer_invar_def split: if_splits)
next
  case (pushed p data lock p' lock')
  then have "p' = fst (producer_pushData S data p lock)" by simp
  with pushed.IH show ?case by (simp add: pushData_producer producer_invar_def mt_ok_next)
next
  case (repartitioned p n p')
  then show ?case
    using below_nonempty [of n]
    by (auto simp: setTopicPartitions_eq producer_invar_def split: if_splits)
next
  case (queried p now stats p')
  then show ?case
    by (auto simp: getProductionStats_def producer_cleanUpTimestamps_def producer_invar_def Let_def)
next
  case (name_destroyed p)
  then show ?case by (simp add: producer_invar_def)
qed

lemma getProductionStats_invar:
  "producer_invar p \<Longrightarrow> fst (getProductionStats now p) =
     \<lparr>unitsProduced = 0, production_idleTime = word_of_int (to_milliseconds now)\<rparr>"
  by (simp add: getProductionStats_def producer_cleanUpTimestamps_def producer_invar_def
      producer_determineIdleTime_def Let_def)

text \<open>
  C36: production is never counted. In every state a producer can reach through its public
  operations the production statistics report zero units, however much was pushed, and an idle
  time counted from the epoch of the clock: \<open>pushData\<close> never calls \<open>saveTimestamp\<close>, and
  \<open>m_idleSince\<close> is never set.
\<close>

theorem production_never_counted:
  assumes "producer_reach S p"
  shows "fst (getProductionStats now p) =
    \<lparr>unitsProduced = 0, production_idleTime = word_of_int (to_milliseconds now)\<rparr>"
  by (rule getProductionStats_invar [OF producer_reach_invar [OF assms]])

definition example_producer :: IceflowProducer where
  "example_producer =
     \<lparr>m_pubTopic = ''app/e'', producer_nodePrefix = ''/node'', producer_syncPrefix = ''app'',
      m_numberOfPartitions = 3, m_topicPartitions = {q. unat q < 3},
      m_randomNumberGenerator = mt19937_seed (word_of_int 7),
      producer_congestionReporter = None, m_productionTimestamps = [],
      m_maxProductionTimestampAge = second, m_downstreamEdgeName = Refers ''e'', producer_idleSince = 0\<rparr>"

lemma example_producer_new:
  "newProducer S ''/node'' ''app'' ''e'' 3 None 7 None = (Inr example_producer, None)"
proof -
  have "(ucast (3 :: u32) :: u64) = 3" by simp
  then show ?thesis
    by (simp add: newProducer_def setTopicPartitions_eq setupBackchannel_def
        example_producer_def)
qed

lemma example_producer_reach: "producer_reach S example_producer"
  by (rule producer_reach.created [OF example_producer_new])

theorem production_never_counted_witness:
  "fst (getProductionStats 5000000 (fst (producer_pushData ref_ndn [1] example_producer
     (Some (svs_new ref_ndn [] []))))) = \<lparr>unitsProduced = 0, production_idleTime = 5\<rparr>"
proof -
  have "producer_reach ref_ndn (fst (producer_pushData ref_ndn [1] example_producer
     (Some (svs_new ref_ndn [] []))))"
    by (rule producer_reach.pushed [OF example_producer_reach]) (rule prod.collapse [symmetric])
  from production_never_counted [OF this, of 5000000] show ?thesis
    by (simp add: to_milliseconds_nonneg)
qed

text \<open>
  What a push publishes. In every reachable state, with a live pub/sub instance, one
  \<open>pushData\<close> makes exactly one publication: the payload, under the data name of a partition
  below the number of partitions given to the constructor, with the node prefix; subscriptions
  stay as they are. (With an expired instance it does nothing.)
\<close>

theorem pushData_publishes:
  assumes "svs S invar used subs pubs store" and "producer_reach S p" and "invar ps"
  shows "\<exists>q seq ps'. snd (producer_pushData S data p (Some ps)) = Some ps' \<and>
    unat q < unat (m_numberOfPartitions p) \<and>
    pubs ps' = pubs ps @
      [(producer_prepareDataName S p q, data, Some (name_of S (producer_nodePrefix p)), seq)] \<and>
    subs ps' = subs ps \<and> snd (producer_pushData S data p None) = None"
proof -
  let ?r = "fst (mt19937_next (m_randomNumberGenerator p))"
  let ?q = "?r mod m_numberOfPartitions p"
  let ?who = "Some (name_of S (producer_nodePrefix p))"
  obtain seq ps' where pub:
    "svs_publish S ps (producer_prepareDataName S p ?q) data ?who = (seq, ps')"
    by (cases "svs_publish S ps (producer_prepareDataName S p ?q) data ?who")
  have name: "producer_prepareDataName S (p\<lparr>m_randomNumberGenerator := g\<rparr>) =
      producer_prepareDataName S p" for g
    by (simp add: producer_prepareDataName_def fun_eq_iff)
  have "m_numberOfPartitions p \<noteq> 0"
    using producer_reach_invar [OF assms(2)] by (simp add: producer_invar_def)
  then have "unat ?q < unat (m_numberOfPartitions p)"
    by (simp add: unat_mod unat_gt_0 unsigned_eq_0_iff)
  moreover have "snd (producer_pushData S data p (Some ps)) = Some ps'"
    by (simp add: producer_pushData_def getNextPartitionNumber_def split_beta Let_def name pub)
  ultimately show ?thesis
    using svs.publish [OF assms(1,3) pub] by (auto simp: producer_pushData_def)
qed

theorem pushData_publishes_witness:
  "\<exists>q seq ps'. snd (producer_pushData ref_ndn [42] example_producer (Some (svs_new ref_ndn [] []))) = Some ps' \<and>
    unat q < 3 \<and> rs_pubs ps' =
      [(producer_prepareDataName ref_ndn example_producer q, [42], Some [Text ''node''], seq)]"
proof -
  have "ref_inv (svs_new ref_ndn [] [])" by (rule ref_svs.new_inv)
  from pushData_publishes [OF ref_svs.svs_axioms example_producer_reach this, where data = "[42]"]
  show ?thesis by (auto simp: example_producer_def ref_name_of_def)
qed

text \<open>A sequence of pushes.\<close>

fun pushAll ::
    "('ps, 'n) ndn_ops \<Rightarrow> byte list list \<Rightarrow> IceflowProducer \<Rightarrow> 'ps option
       \<Rightarrow> IceflowProducer \<times> 'ps option" where
  "pushAll S [] p lock = (p, lock)"
| "pushAll S (d # ds) p lock =
     (let (p', lock') = producer_pushData S d p lock in pushAll S ds p' lock')"

lemma pushData_topicPartitions:
  "producer_pushData S d (p\<lparr>m_topicPartitions := T\<rparr>) lock =
     apfst (m_topicPartitions_update (\<lambda>_. T)) (producer_pushData S d p lock)"
  by (simp add: producer_pushData_def getNextPartitionNumber_def producer_prepareDataName_def
      split_beta Let_def split: option.split)

lemma pushAll_topicPartitions:
  "pushAll S ds (p\<lparr>m_topicPartitions := T\<rparr>) lock =
     apfst (m_topicPartitions_update (\<lambda>_. T)) (pushAll S ds p lock)"
  by (induction ds arbitrary: p lock) (simp_all add: pushData_topicPartitions split_beta Let_def)

text \<open>
  C37: repartitioning a producer has no effect on what it publishes. After a successful
  \<open>setTopicPartitions\<close>, any sequence of pushes leaves the pub/sub instance in exactly the
  state it would reach without it: \<open>getNextPartitionNumber\<close> draws from
  \<open>m_numberOfPartitions\<close>, which only the constructor sets, and never reads
  \<open>m_topicPartitions\<close>.
\<close>

theorem repartitioning_ignored:
  assumes "setTopicPartitions n p = Inr p'"
  shows "snd (pushAll S ds p' lock) = snd (pushAll S ds p lock)"
  using assms by (auto simp: setTopicPartitions_eq pushAll_topicPartitions split: if_splits)

theorem repartitioning_ignored_witness:
  "snd (pushAll ref_ndn [[1], [2]] (example_producer\<lparr>m_topicPartitions := {q. unat q < 1}\<rparr>)
     (Some (svs_new ref_ndn [] []))) =
   snd (pushAll ref_ndn [[1], [2]] example_producer (Some (svs_new ref_ndn [] [])))"
  by (rule repartitioning_ignored [where n = 1]) (simp add: setTopicPartitions_eq)

text \<open>The packet a back channel handler erases.\<close>

definition packetName :: "('ps, 'n) ndn_ops \<Rightarrow> string \<Rightarrow> string \<Rightarrow> u64 \<Rightarrow> 'n" where
  "packetName S nodePrefix syncPrefix seqNo =
     name_append_number S (name_append_string S (name_of S nodePrefix) syncPrefix) seqNo"

lemma handleBackchannel_ack:
  assumes "json_api J of_str of_obj of_arr" and "svs S invar used subs pubs store" and "invar ps"
    and "sub_data d = ackPayload J seqNo"
  shows "\<exists>ps'. handleBackchannel S J nodePrefix syncPrefix d ps = (Inr (), ps') \<and>
    store ps' = store ps - {packetName S nodePrefix syncPrefix seqNo} \<and>
    subs ps' = subs ps \<and> pubs ps' = pubs ps"
  using assms(3,4)
  by (simp add: handleBackchannel_def ackPayload_def Let_def packetName_def
      json_api.parse_dump_num [OF assms(1)] json_api.is_integer_num [OF assms(1)]
      json_api.get_u64_num [OF assms(1)] svs.erase_simps [OF assms(2)])

text \<open>
  Acknowledgements are understood. On the payload a consumer sends for sequence number
  \<open>seqNo\<close>, the back channel handler of a producer erases from the data store exactly the
  packet named by its own node prefix, the sync prefix and \<open>seqNo\<close>; it throws nothing and
  leaves subscriptions and publications alone.
\<close>

theorem acknowledgement_erases_packet:
  assumes "json_api J of_str of_obj of_arr" and "svs S invar used subs pubs store" and "invar ps"
    and "sub_data d = ackPayload J seqNo"
  shows "\<exists>ps'. handleBackchannel S J nodePrefix syncPrefix d ps = (Inr (), ps') \<and>
    store ps' = store ps - {packetName S nodePrefix syncPrefix seqNo} \<and>
    subs ps' = subs ps \<and> pubs ps' = pubs ps"
  by (rule handleBackchannel_ack [OF assms])

theorem acknowledgement_erases_packet_witness:
  "\<exists>ps'. handleBackchannel ref_ndn ref_json ''/node'' ''app''
      \<lparr>sub_name = [], sub_data = ackPayload ref_json 12, sub_seqNo = 1\<rparr>
      (\<lparr>rs_group = [Text ''app''], rs_node = [Text ''node''], rs_count = 0, rs_subs = [], rs_pubs = [],
        rs_store = {[Text ''node'', Text ''app'', Number 12], [Text ''x'']}\<rparr>) = (Inr (), ps') \<and>
    rs_store ps' = {[Text ''x'']}"
proof -
  let ?ps = "\<lparr>rs_group = [Text ''app''], rs_node = [Text ''node''], rs_count = 0, rs_subs = [], rs_pubs = [],
        rs_store = {[Text ''node'', Text ''app'', Number 12], [Text ''x'']}\<rparr>"
  let ?d = "\<lparr>sub_name = [] :: component list, sub_data = ackPayload ref_json 12, sub_seqNo = 1\<rparr>"
  have "ref_inv ?ps" by (simp add: ref_inv_def)
  moreover have "sub_data ?d = ackPayload ref_json 12" by simp
  moreover have "packetName ref_ndn ''/node'' ''app'' 12 = [Text ''node'', Text ''app'', Number 12]"
    by (simp add: packetName_def ref_name_of_def)
  ultimately show ?thesis
    using acknowledgement_erases_packet [OF ref_json.json_api_axioms ref_svs.svs_axioms,
        of ?ps ?d 12 "''/node''" "''app''"] by auto
qed

end
