(* ===== verification/Dag_Parser.thy ===== *)
theory Dag_Parser
  imports Json_Api
begin

text \<open>
  The application DAG: \<open>include/iceflow/dag-parser.hpp\<close> and \<open>src/dag-parser.cpp\<close>.
  The records carry the fields of the structs, \<open>parseEdge\<close>, \<open>parseNode\<close> and \<open>fromJson\<close>
  are the nested loops of \<open>DAGParser::fromJson\<close>, and the \<open>find*\<close> operations are the
  member functions of the same name. A JSON value stays abstract (type \<open>'j\<close>).
\<close>

section \<open>Data model\<close>

record Resources =
  cpu :: u32
  memory :: u32

record Container =
  image :: string
  tag :: string
  envs :: "(string \<times> string) list"
  mounts :: "(string \<times> string) list"
  resources :: Resources

record ScalingParameters =
  taskComplexity :: u32

record 'j Edge =
  edge_id :: string
  target :: string
  maxPartitions :: u32
  edge_applicationConfiguration :: "(string \<times> 'j) list"

record 'j Node =
  task :: string
  node_name :: string
  description :: string
  executor :: string
  container :: Container
  scalingParameters :: ScalingParameters
  downstream :: "'j Edge list"
  node_applicationConfiguration :: "(string \<times> 'j) list"

record 'j DAGParser =
  m_applicationName :: string
  m_nodes :: "'j Node list"
  m_json :: "'j option"

section \<open>Parsing\<close>

definition at_string :: "'j json_ops \<Rightarrow> 'j \<Rightarrow> string \<Rightarrow> exn + string" where
  "at_string J j k = bindE (j_at J j k) (j_get_string J)"

definition at_u32 :: "'j json_ops \<Rightarrow> 'j \<Rightarrow> string \<Rightarrow> exn + u32" where
  "at_u32 J j k = bindE (j_at J j k) (j_get_u32 J)"

text \<open>The loop \<open>for (const auto \&[key, value] : m.items()) m.emplace(key, value.get<string>())\<close>.\<close>

fun emplaceStrings ::
    "'j json_ops \<Rightarrow> (string \<times> 'j) list \<Rightarrow> (string \<times> string) list \<Rightarrow> exn + (string \<times> string) list" where
  "emplaceStrings J [] acc = Inr acc"
| "emplaceStrings J ((k, v) # kvs) acc =
     bindE (j_get_string J v) (\<lambda>s. emplaceStrings J kvs (emplace k s acc))"

definition parseContainer :: "'j json_ops \<Rightarrow> 'j \<Rightarrow> exn + Container" where
  "parseContainer J containerJson =
     bindE (at_string J containerJson ''image'') (\<lambda>img.
     bindE (j_value_string J containerJson ''tag'' ''latest'') (\<lambda>tg.
     bindE (j_value J containerJson ''envs'' (j_object J)) (\<lambda>envsJson.
     bindE (emplaceStrings J (j_items J envsJson) []) (\<lambda>es.
     bindE (j_value J containerJson ''mounts'' (j_object J)) (\<lambda>mountsJson.
     bindE (emplaceStrings J (j_items J mountsJson) []) (\<lambda>ms.
     bindE (bindE (j_at J containerJson ''resources'') (\<lambda>r. at_u32 J r ''cpu'')) (\<lambda>c.
     bindE (bindE (j_at J containerJson ''resources'') (\<lambda>r. at_u32 J r ''memory'')) (\<lambda>mem.
     Inr \<lparr>image = img, tag = tg, envs = es, mounts = ms,
          resources = \<lparr>cpu = c, memory = mem\<rparr>\<rparr>))))))))"

definition parseEdge :: "'j json_ops \<Rightarrow> 'j \<Rightarrow> exn + 'j Edge" where
  "parseEdge J edgeJson =
     bindE (at_string J edgeJson ''id'') (\<lambda>i.
     bindE (at_string J edgeJson ''target'') (\<lambda>t.
     bindE (at_u32 J edgeJson ''maxPartitions'') (\<lambda>n.
     bindE (j_value J edgeJson ''applicationConfiguration'' (j_object J)) (\<lambda>cfgJson.
     bindE (j_get_object J cfgJson) (\<lambda>cfg.
     Inr \<lparr>edge_id = i, target = t, maxPartitions = n, edge_applicationConfiguration = cfg\<rparr>)))))"

definition parseDownstream :: "'j json_ops \<Rightarrow> 'j \<Rightarrow> exn + 'j Edge list" where
  "parseDownstream J nodeJson =
     (if j_contains J nodeJson ''downstream''
      then bindE (j_at J nodeJson ''downstream'') (\<lambda>es. traverseE (parseEdge J) (j_elems J es))
      else Inr [])"

definition parseNode :: "'j json_ops \<Rightarrow> 'j \<Rightarrow> exn + 'j Node" where
  "parseNode J nodeJson =
     bindE (at_string J nodeJson ''task'') (\<lambda>t.
     bindE (at_string J nodeJson ''name'') (\<lambda>n.
     bindE (at_string J nodeJson ''description'') (\<lambda>d.
     bindE (at_string J nodeJson ''executor'') (\<lambda>x.
     bindE (bindE (j_at J nodeJson ''container'') (parseContainer J)) (\<lambda>c.
     bindE (bindE (j_at J nodeJson ''scalingParameters'') (\<lambda>s. at_u32 J s ''taskComplexity'')) (\<lambda>tc.
     bindE (parseDownstream J nodeJson) (\<lambda>es.
     bindE (j_value J nodeJson ''applicationConfiguration'' (j_object J)) (\<lambda>cfgJson.
     bindE (j_get_object J cfgJson) (\<lambda>cfg.
     Inr \<lparr>task = t, node_name = n, description = d, executor = x, container = c,
          scalingParameters = \<lparr>taskComplexity = tc\<rparr>, downstream = es,
          node_applicationConfiguration = cfg\<rparr>)))))))))"

definition fromJson :: "'j json_ops \<Rightarrow> 'j \<Rightarrow> exn + 'j DAGParser" where
  "fromJson J json =
     bindE (at_string J json ''applicationName'') (\<lambda>appName.
     bindE (j_at J json ''nodes'') (\<lambda>nodesJson.
     bindE (traverseE (parseNode J) (j_elems J nodesJson)) (\<lambda>nodeList.
     Inr \<lparr>m_applicationName = appName, m_nodes = nodeList, m_json = Some json\<rparr>)))"

text \<open>
  Reading the DAG from a file: the file system is a partial map from names to contents; a
  file that cannot be opened throws before anything is parsed.
\<close>

definition parseFromFile ::
    "'j json_ops \<Rightarrow> (string \<Rightarrow> byte list option) \<Rightarrow> string \<Rightarrow> exn + 'j DAGParser" where
  "parseFromFile J files filename =
     (case files filename of
        None \<Rightarrow> Inl (Runtime_error (''File can not be opened '' @ filename))
      | Some contents \<Rightarrow> bindE (j_read J contents) (fromJson J))"

section \<open>Queries\<close>

definition quote :: string where
  "quote = [CHR 0x27]"

definition findNodeByName :: "'j DAGParser \<Rightarrow> string \<Rightarrow> exn + 'j Node" where
  "findNodeByName p nodeName =
     (case find (\<lambda>n. node_name n = nodeName) (m_nodes p) of
        Some n \<Rightarrow> Inr n
      | None \<Rightarrow> Inl (Runtime_error (''Node with name '' @ quote @ nodeName @ quote @ '' not found'')))"

fun findEdgeIn :: "'j Node list \<Rightarrow> string \<Rightarrow> 'j Edge option" where
  "findEdgeIn [] edgeId = None"
| "findEdgeIn (n # ns) edgeId =
     (case find (\<lambda>e. edge_id e = edgeId) (downstream n) of
        Some e \<Rightarrow> Some e
      | None \<Rightarrow> findEdgeIn ns edgeId)"

text \<open>
  The loop of \<open>findEdgeByName\<close> searches a copy of each node's edges; what it returns is a reference
  into that copy, which is destroyed on return.
\<close>

definition findEdgeByName :: "'j DAGParser \<Rightarrow> string \<Rightarrow> exn + 'j Edge reference" where
  "findEdgeByName p edgeId =
     (case findEdgeIn (m_nodes p) edgeId of
        Some e \<Rightarrow> Inr Dangling
      | None \<Rightarrow> Inl (Runtime_error (''Edge with ID '' @ quote @ edgeId @ quote @ '' not found'')))"

fun upstreamEdgesIn :: "'j Node list \<Rightarrow> string \<Rightarrow> ('j Node \<times> 'j Edge) list" where
  "upstreamEdgesIn [] taskId = []"
| "upstreamEdgesIn (n # ns) taskId =
     (case find (\<lambda>e. target e = taskId) (downstream n) of
        Some e \<Rightarrow> (n, e) # upstreamEdgesIn ns taskId
      | None \<Rightarrow> upstreamEdgesIn ns taskId)"

definition findUpstreamEdgesOfTask :: "'j DAGParser \<Rightarrow> string \<Rightarrow> ('j Node \<times> 'j Edge) list" where
  "findUpstreamEdgesOfTask p taskId = upstreamEdgesIn (m_nodes p) taskId"

definition findUpstreamEdges :: "'j DAGParser \<Rightarrow> 'j Node \<Rightarrow> ('j Node \<times> 'j Edge) list" where
  "findUpstreamEdges p n = findUpstreamEdgesOfTask p (task n)"

section \<open>The JSON form of a DAG\<close>

text \<open>
  The documents of \<open>dag-syntax.cddl\<close>, written with the constructors of the JSON library:
  what a DAG looks like on disk. Used to state that parsing is the inverse of writing.
\<close>

definition json_strings ::
    "(string \<Rightarrow> 'j) \<Rightarrow> ((string \<times> 'j) list \<Rightarrow> 'j) \<Rightarrow> (string \<times> string) list \<Rightarrow> 'j" where
  "json_strings of_str of_obj m = of_obj (map (\<lambda>(k, s). (k, of_str s)) m)"

definition json_of_container ::
    "'j json_ops \<Rightarrow> (string \<Rightarrow> 'j) \<Rightarrow> ((string \<times> 'j) list \<Rightarrow> 'j) \<Rightarrow> Container \<Rightarrow> 'j" where
  "json_of_container J of_str of_obj c = of_obj
     [(''image'', of_str (image c)), (''tag'', of_str (tag c)),
      (''envs'', json_strings of_str of_obj (envs c)),
      (''mounts'', json_strings of_str of_obj (mounts c)),
      (''resources'', of_obj [(''cpu'', j_of_u64 J (ucast (cpu (resources c)))),
                             (''memory'', j_of_u64 J (ucast (memory (resources c))))])]"

definition json_of_edge ::
    "'j json_ops \<Rightarrow> (string \<Rightarrow> 'j) \<Rightarrow> ((string \<times> 'j) list \<Rightarrow> 'j) \<Rightarrow> 'j Edge \<Rightarrow> 'j" where
  "json_of_edge J of_str of_obj e = of_obj
     [(''id'', of_str (edge_id e)), (''target'', of_str (target e)),
      (''maxPartitions'', j_of_u64 J (ucast (maxPartitions e))),
      (''applicationConfiguration'', of_obj (edge_applicationConfiguration e))]"

definition json_of_node ::
    "'j json_ops \<Rightarrow> (string \<Rightarrow> 'j) \<Rightarrow> ((string \<times> 'j) list \<Rightarrow> 'j) \<Rightarrow> ('j list \<Rightarrow> 'j)
       \<Rightarrow> 'j Node \<Rightarrow> 'j" where
  "json_of_node J of_str of_obj of_arr n = of_obj
     [(''task'', of_str (task n)), (''name'', of_str (node_name n)),
      (''description'', of_str (description n)), (''executor'', of_str (executor n)),
      (''container'', json_of_container J of_str of_obj (container n)),
      (''scalingParameters'',
         of_obj [(''taskComplexity'', j_of_u64 J (ucast (taskComplexity (scalingParameters n))))]),
      (''downstream'', of_arr (map (json_of_edge J of_str of_obj) (downstream n))),
      (''applicationConfiguration'', of_obj (node_applicationConfiguration n))]"

definition json_of_dag ::
    "'j json_ops \<Rightarrow> (string \<Rightarrow> 'j) \<Rightarrow> ((string \<times> 'j) list \<Rightarrow> 'j) \<Rightarrow> ('j list \<Rightarrow> 'j)
       \<Rightarrow> string \<Rightarrow> 'j Node list \<Rightarrow> 'j" where
  "json_of_dag J of_str of_obj of_arr app ns = of_obj
     [(''applicationName'', of_str app),
      (''nodes'', of_arr (map (json_of_node J of_str of_obj of_arr) ns))]"

text \<open>The maps of a node are \<open>std::map\<close>s: their keys are ordered and unique.\<close>

definition wf_node :: "'j Node \<Rightarrow> bool" where
  "wf_node n \<longleftrightarrow> ordered_keys (envs (container n)) \<and> ordered_keys (mounts (container n)) \<and>
     ordered_keys (node_applicationConfiguration n) \<and>
     (\<forall>e \<in> set (downstream n). ordered_keys (edge_applicationConfiguration e))"

lemma emplaceStrings_map:
  assumes "\<And>s. j_get_string J (of_str s) = Inr s"
    and "distinct (map fst acc @ map fst kvs)"
  shows "emplaceStrings J (map (\<lambda>(k, s). (k, of_str s)) kvs) acc = Inr (acc @ kvs)"
  using assms(2)
proof (induction kvs arbitrary: acc)
  case Nil
  then show ?case by simp
next
  case (Cons kv kvs)
  obtain k s where [simp]: "kv = (k, s)" by (cases kv)
  from Cons.prems have "k \<notin> dom (map_of acc)" by (simp add: dom_map_of_conv_image_fst)
  then have "emplace k s acc = acc @ [(k, s)]" by (rule emplace_absent)
  with Cons.IH [of "acc @ [(k, s)]"] Cons.prems assms(1) show ?case by simp
qed

lemma ordered_keys_map [simp]: "ordered_keys (map (\<lambda>(k, s). (k, f s)) kvs) \<longleftrightarrow> ordered_keys kvs"
  by (simp add: ordered_keys_def comp_def split_beta)

context json_api
begin

lemma parse_strings:
  assumes "ordered_keys m"
  shows "emplaceStrings J (j_items J (json_strings of_str of_obj m)) [] = Inr m"
proof -
  from assms have "distinct (map fst ([] :: (string \<times> string) list) @ map fst m)"
    by (simp add: ordered_keys_def)
  from emplaceStrings_map [of J of_str, OF get_string_str this] assms show ?thesis
    by (simp add: json_strings_def items_obj)
qed

lemma parse_container:
  assumes "ordered_keys (envs c)" and "ordered_keys (mounts c)"
  shows "parseContainer J (json_of_container J of_str of_obj c) = Inr c"
  using assms
  by (simp add: parseContainer_def json_of_container_def at_string_def at_u32_def obj_simps
      parse_strings)

lemma parse_edge:
  "ordered_keys (edge_applicationConfiguration e) \<Longrightarrow>
     parseEdge J (json_of_edge J of_str of_obj e) = Inr e"
  by (simp add: parseEdge_def json_of_edge_def at_string_def at_u32_def obj_simps)

lemma parse_node:
  assumes "wf_node n"
  shows "parseNode J (json_of_node J of_str of_obj of_arr n) = Inr n"
proof -
  have "traverseE (parseEdge J) (map (json_of_edge J of_str of_obj) (downstream n))
      = Inr (map (\<lambda>e. e) (downstream n))"
    by (rule traverseE_map) (use assms in \<open>auto simp: wf_node_def parse_edge\<close>)
  with assms show ?thesis
    by (simp add: parseNode_def json_of_node_def parseDownstream_def at_string_def at_u32_def
        obj_simps wf_node_def parse_container)
qed

lemma parse_dag:
  assumes "\<forall>n \<in> set ns. wf_node n"
  shows "fromJson J (json_of_dag J of_str of_obj of_arr app ns) =
    Inr \<lparr>m_applicationName = app, m_nodes = ns,
         m_json = Some (json_of_dag J of_str of_obj of_arr app ns)\<rparr>"
proof -
  have "traverseE (parseNode J) (map (json_of_node J of_str of_obj of_arr) ns)
      = Inr (map (\<lambda>n. n) ns)"
    by (rule traverseE_map) (use assms in \<open>auto simp: parse_node\<close>)
  then show ?thesis
    by (simp add: fromJson_def json_of_dag_def at_string_def obj_simps)
qed

end

section \<open>Properties of parsing\<close>

text \<open>
  C22: parsing is the inverse of writing. For every DAG whose maps have ordered unique keys,
  \<open>fromJson\<close> applied to its JSON document returns exactly the nodes, edges, containers,
  resources and configurations written, in order, and keeps the document as the raw DAG.
\<close>

theorem fromJson_roundtrip:
  assumes "json_api J of_str of_obj of_arr" and "\<forall>n \<in> set ns. wf_node n"
  shows "fromJson J (json_of_dag J of_str of_obj of_arr app ns) =
    Inr \<lparr>m_applicationName = app, m_nodes = ns,
         m_json = Some (json_of_dag J of_str of_obj of_arr app ns)\<rparr>"
  using json_api.parse_dag assms .

definition example_node :: "jval Node" where
  "example_node = \<lparr>task = ''1'', node_name = ''text2lines'', description = ''Splits text.'',
     executor = ''container'',
     container = \<lparr>image = ''text2lines-image'', tag = ''latest'',
       envs = [(''A'', ''x''), (''B'', ''y'')], mounts = [],
       resources = \<lparr>cpu = 1, memory = 1000000000\<rparr>\<rparr>,
     scalingParameters = \<lparr>taskComplexity = 2\<rparr>,
     downstream = [\<lparr>edge_id = ''t2l'', target = ''2'', maxPartitions = 3,
       edge_applicationConfiguration = []\<rparr>],
     node_applicationConfiguration = [(''measurementsSaveThreshold'', JNumber 100)]\<rparr>"

lemma example_node_wf: "wf_node example_node"
  by (simp add: wf_node_def example_node_def ordered_keys_def)

theorem fromJson_roundtrip_witness:
  "fromJson ref_json (json_of_dag ref_json JString JObject JArray ''WordCount'' [example_node]) =
    Inr \<lparr>m_applicationName = ''WordCount'', m_nodes = [example_node],
         m_json = Some (json_of_dag ref_json JString JObject JArray ''WordCount'' [example_node])\<rparr>"
  by (rule fromJson_roundtrip [OF ref_json.json_api_axioms]) (simp add: example_node_wf)

text \<open>
  Parsing is all or nothing. \<open>fromJson\<close> throws exactly when the application name or
  the node list cannot be read or when some node cannot be parsed, and then it throws the
  exception of the \<^emph>\<open>first\<close> failing node, whatever follows it.
\<close>

theorem fromJson_error_iff:
  "fromJson J j = Inl e \<longleftrightarrow>
     at_string J j ''applicationName'' = Inl e \<or>
     (\<exists>app. at_string J j ''applicationName'' = Inr app \<and>
        (j_at J j ''nodes'' = Inl e \<or>
         (\<exists>nodesJson before bad after parsed.
            j_at J j ''nodes'' = Inr nodesJson \<and>
            j_elems J nodesJson = before @ bad # after \<and>
            list_all2 (\<lambda>nj n. parseNode J nj = Inr n) before parsed \<and>
            parseNode J bad = Inl e)))"
  by (auto simp: fromJson_def bindE_Inl_iff traverseE_Inl_iff traverseE_Inr_iff)

text \<open>The keys \<open>fromJson\<close> reads with \<open>at\<close>, per node: none of them has a default.\<close>

definition mandatory_keys :: "string list" where
  "mandatory_keys =
     [''task'', ''name'', ''description'', ''executor'', ''container'', ''scalingParameters'']"

text \<open>
  Every mandatory key of a node is really demanded. A node object without one of
  \<open>task\<close>, \<open>name\<close>, \<open>description\<close>, \<open>executor\<close>, \<open>container\<close> and
  \<open>scalingParameters\<close> is never parsed, whatever its other entries are.
\<close>

theorem parseNode_missing_key:
  assumes "json_api J of_str of_obj of_arr"
    and "distinct (map fst kvs)" and "k \<in> set mandatory_keys" and "map_of kvs k = None"
  shows "\<exists>e. parseNode J (of_obj kvs) = Inl e"
proof (rule ccontr)
  assume "\<nexists>e. parseNode J (of_obj kvs) = Inl e"
  then obtain n where n: "parseNode J (of_obj kvs) = Inr n"
    by (cases "parseNode J (of_obj kvs)") auto
  obtain msg where "j_at J (of_obj kvs) k = Inl (Json_exception msg)"
    using json_api.at_missing [OF assms(1,2,4)] by blast
  with n assms(3) show False
    by (auto simp: parseNode_def mandatory_keys_def at_string_def bindE_Inr_iff)
qed

theorem parseNode_missing_key_witness:
  "\<exists>e. parseNode ref_json (JObject [(''task'', JString ''1''), (''name'', JString ''n'')]) = Inl e"
  by (rule parseNode_missing_key [OF ref_json.json_api_axioms, where k = "''executor''"])
    (simp_all add: mandatory_keys_def)

text \<open>
  The optional parts of a container. Without the keys \<open>tag\<close>, \<open>envs\<close> and
  \<open>mounts\<close> (as in the example DAG of the repository) parsing still succeeds on the other
  keys, the tag is \<open>latest\<close> and the two maps are empty.
\<close>

theorem parseContainer_defaults:
  assumes "json_api J of_str of_obj of_arr"
    and "distinct (map fst kvs)"
    and "map_of kvs ''tag'' = None" and "map_of kvs ''envs'' = None" and "map_of kvs ''mounts'' = None"
    and "map_of kvs ''image'' = Some (of_str img)"
    and "map_of kvs ''resources'' = Some (of_obj res)" and "distinct (map fst res)"
    and "map_of res ''cpu'' = Some (j_of_u64 J (ucast c))"
    and "map_of res ''memory'' = Some (j_of_u64 J (ucast m))"
  shows "parseContainer J (of_obj kvs) = Inr
    \<lparr>image = img, tag = ''latest'', envs = [], mounts = [], resources = \<lparr>cpu = c, memory = m\<rparr>\<rparr>"
proof -
  note api = json_api.obj_simps [OF assms(1)]
  have "ordered_keys ([] :: (string \<times> 'a) list)" by (simp add: ordered_keys_def)
  then have empty: "j_items J (of_obj []) = []" by (rule json_api.items_obj [OF assms(1)])
  show ?thesis
    using assms(2-)
    by (simp add: parseContainer_def at_string_def at_u32_def api empty)
qed

theorem parseContainer_defaults_witness:
  "parseContainer ref_json
     (JObject [(''image'', JString ''text2lines-image''),
               (''resources'', JObject [(''cpu'', JNumber 1), (''memory'', JNumber 1000000000)])])
   = Inr \<lparr>image = ''text2lines-image'', tag = ''latest'', envs = [], mounts = [],
          resources = \<lparr>cpu = 1, memory = 1000000000\<rparr>\<rparr>"
  by (rule parseContainer_defaults [OF ref_json.json_api_axioms,
        where res = "[(''cpu'', JNumber 1), (''memory'', JNumber 1000000000)]"
          and c = 1 and m = 1000000000]) simp_all

section \<open>Properties of the queries\<close>

lemma findEdgeIn_concat: "findEdgeIn ns i = find (\<lambda>e. edge_id e = i) (concat (map downstream ns))"
  by (induction ns) (auto simp: find_append split: option.split)

text \<open>
  \<open>findNodeByName\<close> returns the first node with the name, and throws exactly when there is
  none, a \<open>std::runtime_error\<close> that names it.
\<close>

theorem findNodeByName_first:
  "(findNodeByName p nm = Inr n \<longleftrightarrow>
      (\<exists>before after. m_nodes p = before @ n # after \<and> node_name n = nm \<and>
         nm \<notin> node_name ` set before)) \<and>
   (findNodeByName p nm = Inl x \<longleftrightarrow> nm \<notin> node_name ` set (m_nodes p) \<and>
      x = Runtime_error (''Node with name '' @ quote @ nm @ quote @ '' not found''))"
proof -
  have "findNodeByName p nm = Inr n \<longleftrightarrow> find (\<lambda>n. node_name n = nm) (m_nodes p) = Some n"
    by (simp add: findNodeByName_def split: option.split)
  moreover have "findNodeByName p nm = Inl x \<longleftrightarrow> find (\<lambda>n. node_name n = nm) (m_nodes p) = None \<and>
      x = Runtime_error (''Node with name '' @ quote @ nm @ quote @ '' not found'')"
    by (auto simp: findNodeByName_def split: option.split)
  ultimately show ?thesis
    by (simp add: find_key_Some find_key_None)
qed

text \<open>
  \<open>findEdgeByName\<close> finds the first edge with the identifier, in node order and then edge order, and
  throws a \<open>std::runtime_error\<close> exactly when no node has such an edge; but the reference it returns
  is dangling.
\<close>

theorem findEdgeByName_dangling:
  "(findEdgeIn (m_nodes p) i = Some e \<longleftrightarrow>
      (\<exists>before after. concat (map downstream (m_nodes p)) = before @ e # after \<and>
         edge_id e = i \<and> i \<notin> edge_id ` set before)) \<and>
   (findEdgeByName p i = Inr r \<longleftrightarrow>
      r = Dangling \<and> i \<in> edge_id ` set (concat (map downstream (m_nodes p)))) \<and>
   (findEdgeByName p i = Inl x \<longleftrightarrow> i \<notin> edge_id ` set (concat (map downstream (m_nodes p))) \<and>
      x = Runtime_error (''Edge with ID '' @ quote @ i @ quote @ '' not found''))"
proof -
  let ?found = "find (\<lambda>e. edge_id e = i) (concat (map downstream (m_nodes p)))"
  have "findEdgeByName p i = Inr r \<longleftrightarrow> r = Dangling \<and> ?found \<noteq> None"
    and "findEdgeByName p i = Inl x \<longleftrightarrow>
      ?found = None \<and> x = Runtime_error (''Edge with ID '' @ quote @ i @ quote @ '' not found'')"
    by (auto simp: findEdgeByName_def findEdgeIn_concat split: option.split)
  then show ?thesis unfolding findEdgeIn_concat find_key_None find_key_Some by simp
qed

lemma upstreamEdgesIn_nodes:
  "map fst (upstreamEdgesIn ns t) = filter (\<lambda>n. t \<in> target ` set (downstream n)) ns"
  by (induction ns) (auto simp: find_key_None find_key_Some split: option.split)

lemma upstreamEdgesIn_iff:
  "(n, e) \<in> set (upstreamEdgesIn ns t) \<longleftrightarrow>
     n \<in> set ns \<and> find (\<lambda>e. target e = t) (downstream n) = Some e"
  by (induction ns) (auto split: option.split)

lemmas upstream_simps =
  findUpstreamEdges_def findUpstreamEdgesOfTask_def upstreamEdgesIn_nodes upstreamEdgesIn_iff

text \<open>
  What \<open>findUpstreamEdges\<close> returns. It lists, in node order and once per node, exactly
  the nodes with an edge to the given node's task, each with the \<^emph>\<open>first\<close> such edge.
\<close>

theorem findUpstreamEdges_exact:
  "map fst (findUpstreamEdges p nd) =
     filter (\<lambda>n. task nd \<in> target ` set (downstream n)) (m_nodes p) \<and>
   ((n, e) \<in> set (findUpstreamEdges p nd) \<longleftrightarrow>
     n \<in> set (m_nodes p) \<and>
     (\<exists>before after. downstream n = before @ e # after \<and> target e = task nd \<and>
        task nd \<notin> target ` set before))"
  by (simp add: upstream_simps find_key_Some)

text \<open>
  The query is complete exactly on DAGs without parallel edges. An edge of a node to the
  task is returned if and only if no earlier edge of that node has the same target, so the
  second of two parallel edges is dropped and its consumer never learns of it.
\<close>

theorem findUpstreamEdges_parallel:
  assumes "n \<in> set (m_nodes p)" and "downstream n = before @ e # after"
    and "target e = task nd" and "e \<notin> set before"
  shows "(n, e) \<in> set (findUpstreamEdges p nd) \<longleftrightarrow> task nd \<notin> target ` set before"
proof -
  have "find (\<lambda>e. target e = task nd) (downstream n) = Some e
      \<longleftrightarrow> find (\<lambda>e. target e = task nd) before = None"
    using assms(2-4)
    by (auto simp: find_append dest: find_in_set split: option.split)
  with assms(1) show ?thesis
    by (simp add: upstream_simps find_key_None)
qed

definition parallel_node :: "jval Node" where
  "parallel_node = example_node\<lparr>downstream :=
     [\<lparr>edge_id = ''a'', target = ''2'', maxPartitions = 1, edge_applicationConfiguration = []\<rparr>,
      \<lparr>edge_id = ''b'', target = ''2'', maxPartitions = 1, edge_applicationConfiguration = []\<rparr>]\<rparr>"

theorem findUpstreamEdges_parallel_witness:
  "(parallel_node, downstream parallel_node ! 1) \<notin>
     set (findUpstreamEdges \<lparr>m_applicationName = ''p'', m_nodes = [parallel_node], m_json = None\<rparr>
       (example_node\<lparr>task := ''2''\<rparr>))"
  by (subst findUpstreamEdges_parallel [where before = "[downstream parallel_node ! 0]" and after = "[]"])
    (simp_all add: parallel_node_def example_node_def)

end
