(* ===== verification/Ice_Flow.thy ===== *)
theory Ice_Flow
  imports Producer Dag_Parser
begin

text \<open>
  The \<open>IceFlow\<close> node: \<open>include/iceflow/iceflow.hpp\<close> and \<open>src/iceflow.cpp\<close>. One record
  holds the members; the pub/sub instance is owned here, so every weak pointer of a consumer or
  producer stored in the node locks successfully. Application code is a parameter.
\<close>

section \<open>State\<close>

text \<open>
  What \<open>registerConsumerCallback\<close> and \<open>registerProsumerCallback\<close> install: the application's
  function itself, or the wrapper that hands it a producer callback.
\<close>

datatype 'u ConsumerCallback = Plain 'u | Prosumer 'u

record ('ps, 'j, 'u) IceFlow =
  m_running :: bool
  m_svsPubSub :: 'ps
  m_nodePrefix :: string
  m_syncPrefix :: string
  m_iceflowProducers :: "(string \<times> IceflowProducer) list"
  m_iceflowConsumers :: "(string \<times> 'u ConsumerCallback IceflowConsumer) list"
  m_congestionReporter :: "nat option"
  m_node :: "'j Node"
  m_downstreamEdges :: "'j Edge list"
  m_upstreamEdges :: "'j Edge list"

text \<open>The instance after an operation that was given a valid lock.\<close>

definition unlocked :: "'ps \<Rightarrow> 'ps option \<Rightarrow> 'ps" where
  "unlocked ps lock = (case lock of None \<Rightarrow> ps | Some ps' \<Rightarrow> ps')"

lemma unlocked_simps [simp]: "unlocked ps None = ps" "unlocked ps (Some ps') = ps'"
  by (simp_all add: unlocked_def)

section \<open>Construction\<close>

definition generateNodePrefix :: "string \<Rightarrow> string \<Rightarrow> string" where
  "generateNodePrefix uuid applicationName = ''/node-'' @ applicationName @ ''/'' @ uuid"

text \<open>
  The two loops of the constructor. \<open>time\<close> and \<open>now\<close> are the clock readings while the
  producer or consumer of an edge is built; the temporary consumer of each iteration is destroyed
  after it was copied into the map. So is the local string the edge name was copied to: the
  reference to it in the stored object dangles from then on.
\<close>

fun constructProducers ::
    "('ps, 'n) ndn_ops \<Rightarrow> (string \<Rightarrow> int) \<Rightarrow> 'j Edge list \<Rightarrow> ('ps, 'j, 'u) IceFlow
       \<Rightarrow> exn + ('ps, 'j, 'u) IceFlow" where
  "constructProducers S time [] f = Inr f"
| "constructProducers S time (e # es) f =
     (case newProducer S (m_nodePrefix f) (m_syncPrefix f) (edge_id e) (maxPartitions e)
             (m_congestionReporter f) (time (edge_id e)) (Some (m_svsPubSub f)) of
        (Inl x, _) \<Rightarrow> Inl x
      | (Inr p, lock) \<Rightarrow>
          constructProducers S time es
            (f\<lparr>m_svsPubSub := unlocked (m_svsPubSub f) lock,
               m_iceflowProducers := 
                 emplace (edge_id e) (p\<lparr>m_downstreamEdgeName := Dangling\<rparr>) (m_iceflowProducers f)\<rparr>))"

fun constructConsumers ::
    "('ps, 'n) ndn_ops \<Rightarrow> (string \<Rightarrow> time_point) \<Rightarrow> 'j Edge list \<Rightarrow> ('ps, 'j, 'u) IceFlow
       \<Rightarrow> ('ps, 'j, 'u) IceFlow" where
  "constructConsumers S now [] f = f"
| "constructConsumers S now (e # es) f =
     (let c = newConsumer (m_syncPrefix f) (edge_id e) (m_congestionReporter f) (now (edge_id e));
          lock = destroyConsumer S c (Some (m_svsPubSub f))
      in constructConsumers S now es
           (f\<lparr>m_svsPubSub := unlocked (m_svsPubSub f) lock,
              m_iceflowConsumers := 
                emplace (edge_id e) (c\<lparr>m_upstreamEdgeName := Dangling\<rparr>) (m_iceflowConsumers f)\<rparr>))"

definition newIceFlow ::
    "('ps, 'n) ndn_ops \<Rightarrow> string \<Rightarrow> (string \<Rightarrow> int) \<Rightarrow> (string \<Rightarrow> time_point)
       \<Rightarrow> 'j DAGParser \<Rightarrow> string \<Rightarrow> nat option \<Rightarrow> exn + ('ps, 'j, 'u) IceFlow" where
  "newIceFlow S uuid time now dagParser nodeName reporter =
     (let nodePrefix = generateNodePrefix uuid (m_applicationName dagParser);
          syncPrefix = m_applicationName dagParser
      in bindE (findNodeByName dagParser nodeName) (\<lambda>node.
         let upstreamEdges = map snd (findUpstreamEdges dagParser node)
         in bindE
              (constructProducers S time (downstream node)
                 \<lparr>m_running = False,
                  m_svsPubSub = svs_new S (name_of S syncPrefix) (name_of S nodePrefix),
                  m_nodePrefix = nodePrefix, m_syncPrefix = syncPrefix,
                  m_iceflowProducers = [], m_iceflowConsumers = [],
                  m_congestionReporter = reporter, m_node = node,
                  m_downstreamEdges = downstream node, m_upstreamEdges = upstreamEdges\<rparr>)
              (\<lambda>f. Inr (constructConsumers S now upstreamEdges f))))"

definition newIceFlowFromFile ::
    "('ps, 'n) ndn_ops \<Rightarrow> 'j json_ops \<Rightarrow> (string \<Rightarrow> byte list option)
       \<Rightarrow> string \<Rightarrow> (string \<Rightarrow> int) \<Rightarrow> (string \<Rightarrow> time_point)
       \<Rightarrow> string \<Rightarrow> string \<Rightarrow> nat option \<Rightarrow> exn + ('ps, 'j, 'u) IceFlow" where
  "newIceFlowFromFile S J files uuid time now dagFileName nodeName reporter =
     bindE (parseFromFile J files dagFileName)
       (\<lambda>dagParser. newIceFlow S uuid time now dagParser nodeName reporter)"

section \<open>Operations on one edge\<close>

definition no_consumer :: "string \<Rightarrow> exn" where
  "no_consumer edge =
     Runtime_error (''Consumer for upstream edge '' @ edge @ '' does not exist!'')"

definition no_producer :: "string \<Rightarrow> exn" where
  "no_producer edge =
     Runtime_error (''Producer for downstream edge '' @ edge @ '' does not exist!'')"

definition repartitionConsumer ::
    "('ps, 'n) ndn_ops \<Rightarrow> u32 list \<Rightarrow> string \<Rightarrow> ('ps, 'j, 'u) IceFlow
       \<Rightarrow> (exn + unit) \<times> ('ps, 'j, 'u) IceFlow" where
  "repartitionConsumer S partitions upstreamEdgeName f =
     (case map_of (m_iceflowConsumers f) upstreamEdgeName of
        None \<Rightarrow> (Inl (no_consumer upstreamEdgeName), f)
      | Some c \<Rightarrow>
          (let (r, c', lock) = repartition S upstreamEdgeName partitions c (Some (m_svsPubSub f));
               f' = f\<lparr>m_svsPubSub := unlocked (m_svsPubSub f) lock,
                      m_iceflowConsumers := adjust upstreamEdgeName (\<lambda>_. c') (m_iceflowConsumers f)\<rparr>
           in (case r of Inl e \<Rightarrow> Inl e | Inr _ \<Rightarrow> Inr (), f')))"

definition repartitionProducer ::
    "u64 \<Rightarrow> string \<Rightarrow> ('ps, 'j, 'u) IceFlow \<Rightarrow> (exn + unit) \<times> ('ps, 'j, 'u) IceFlow" where
  "repartitionProducer numberOfPartitions downstreamEdgeName f =
     (case map_of (m_iceflowProducers f) downstreamEdgeName of
        None \<Rightarrow> (Inl (no_producer downstreamEdgeName), f)
      | Some p \<Rightarrow>
          (case setTopicPartitions numberOfPartitions p of
             Inl e \<Rightarrow> (Inl e, f)
           | Inr p' \<Rightarrow>
               (Inr (), f\<lparr>m_iceflowProducers :=
                            adjust downstreamEdgeName (\<lambda>_. p') (m_iceflowProducers f)\<rparr>)))"

definition pushData ::
    "('ps, 'n) ndn_ops \<Rightarrow> byte list \<Rightarrow> string \<Rightarrow> ('ps, 'j, 'u) IceFlow
       \<Rightarrow> (exn + unit) \<times> ('ps, 'j, 'u) IceFlow" where
  "pushData S payload downstreamEdgeName f =
     (case map_of (m_iceflowProducers f) downstreamEdgeName of
        None \<Rightarrow> (Inl (no_producer downstreamEdgeName), f)
      | Some p \<Rightarrow>
          (let (p', lock) = producer_pushData S payload p (Some (m_svsPubSub f))
           in (Inr (), f\<lparr>m_svsPubSub := unlocked (m_svsPubSub f) lock,
                         m_iceflowProducers :=
                           adjust downstreamEdgeName (\<lambda>_. p') (m_iceflowProducers f)\<rparr>)))"

definition registerConsumerCallback ::
    "'u ConsumerCallback \<Rightarrow> string \<Rightarrow> ('ps, 'j, 'u) IceFlow
       \<Rightarrow> (exn + unit) \<times> ('ps, 'j, 'u) IceFlow" where
  "registerConsumerCallback consumerCallback upstreamEdgeName f =
     (case map_of (m_iceflowConsumers f) upstreamEdgeName of
        None \<Rightarrow> (Inl (no_consumer upstreamEdgeName), f)
      | Some c \<Rightarrow>
          (Inr (), f\<lparr>m_iceflowConsumers :=
             adjust upstreamEdgeName (setConsumerCallback consumerCallback) (m_iceflowConsumers f)\<rparr>))"

definition registerProsumerCallback ::
    "'u \<Rightarrow> string \<Rightarrow> ('ps, 'j, 'u) IceFlow \<Rightarrow> (exn + unit) \<times> ('ps, 'j, 'u) IceFlow" where
  "registerProsumerCallback prosumerCallback upstreamEdgeName f =
     registerConsumerCallback (Prosumer prosumerCallback) upstreamEdgeName f"

section \<open>Queries\<close>

text \<open>
  \<open>for (auto consumer : m_iceflowConsumers)\<close> copies each map entry, handles included, and the
  copy is destroyed at the end of the iteration.
\<close>

fun consumerStatsLoop ::
    "('ps, 'n) ndn_ops \<Rightarrow> (string \<Rightarrow> time_point) \<Rightarrow> (string \<times> 'cb IceflowConsumer) list
       \<Rightarrow> (string \<times> EdgeConsumptionStats) list \<Rightarrow> 'ps
       \<Rightarrow> (string \<times> EdgeConsumptionStats) list \<times> 'ps" where
  "consumerStatsLoop S now [] result ps = (result, ps)"
| "consumerStatsLoop S now ((edge, consumer) # rest) result ps =
     (let (stats, consumer') = getConsumptionStats (now edge) consumer;
          lock = destroyConsumer S consumer' (Some ps)
      in consumerStatsLoop S now rest (emplace edge stats result) (unlocked ps lock))"

definition getConsumerStats ::
    "('ps, 'n) ndn_ops \<Rightarrow> (string \<Rightarrow> time_point) \<Rightarrow> ('ps, 'j, 'u) IceFlow
       \<Rightarrow> (string \<times> EdgeConsumptionStats) list \<times> ('ps, 'j, 'u) IceFlow" where
  "getConsumerStats S now f =
     (let (result, ps) = consumerStatsLoop S now (m_iceflowConsumers f) [] (m_svsPubSub f)
      in (result, f\<lparr>m_svsPubSub := ps\<rparr>))"

fun producerStatsLoop ::
    "(string \<Rightarrow> time_point) \<Rightarrow> (string \<times> IceflowProducer) list
       \<Rightarrow> (string \<times> EdgeProductionStats) list \<Rightarrow> (string \<times> EdgeProductionStats) list" where
  "producerStatsLoop now [] result = result"
| "producerStatsLoop now ((edge, producer) # rest) result =
     producerStatsLoop now rest (emplace edge (fst (getProductionStats (now edge) producer)) result)"

definition getProducerStats ::
    "(string \<Rightarrow> time_point) \<Rightarrow> ('ps, 'j, 'u) IceFlow \<Rightarrow> (string \<times> EdgeProductionStats) list" where
  "getProducerStats now f = producerStatsLoop now (m_iceflowProducers f) []"

text \<open>
  \<open>index + 1\<close> is computed in 32 bits before the comparison with the size; \<open>at\<close> is bounds
  checked and throws.
\<close>

definition edgeAt :: "'j Edge list \<Rightarrow> u32 \<Rightarrow> exn + 'j Edge option" where
  "edgeAt edges index =
     (if unat (index + 1) \<le> length edges
      then (if unat index < length edges then Inr (Some (edges ! unat index))
            else Inl (Out_of_range ''vector::_M_range_check''))
      else Inr None)"

definition getDownstreamEdge :: "u32 \<Rightarrow> ('ps, 'j, 'u) IceFlow \<Rightarrow> exn + 'j Edge option" where
  "getDownstreamEdge index f = edgeAt (m_downstreamEdges f) index"

definition getUpstreamEdge :: "u32 \<Rightarrow> ('ps, 'j, 'u) IceFlow \<Rightarrow> exn + 'j Edge option" where
  "getUpstreamEdge index f = edgeAt (m_upstreamEdges f) index"

text \<open>\<open>conv\<close> is the conversion \<open>get<T>\<close>; every exception it throws is swallowed.\<close>

definition getApplicationParameter ::
    "('j \<Rightarrow> exn + 't) \<Rightarrow> string \<Rightarrow> ('ps, 'j, 'u) IceFlow \<Rightarrow> 't option" where
  "getApplicationParameter conv key f =
     (case map_of (node_applicationConfiguration (m_node f)) key of
        None \<Rightarrow> None
      | Some v \<Rightarrow> (case conv v of Inl e \<Rightarrow> None | Inr x \<Rightarrow> Some x))"

text \<open>
  The call made on the congestion reporter, or only a warning (\<open>None\<close>); the caller's string is alive
  during the call.
\<close>

definition reportCongestion ::
    "string \<Rightarrow> CongestionReason \<Rightarrow> ('ps, 'j, 'u) IceFlow \<Rightarrow> report_call option" where
  "reportCongestion edgeName congestionReason f =
     (case m_congestionReporter f of
        None \<Rightarrow> None
      | Some r \<Rightarrow> Some (r, congestionReason, Refers edgeName))"

section \<open>The interface of the operations on one edge\<close>

text \<open>
  What the operations that take an edge name share: an unknown name is rejected with a
  \<open>std::runtime_error\<close> and changes nothing, and no operation adds or removes an edge.
\<close>

locale edge_registry =
  fixes edges :: "'f \<Rightarrow> string list"
    and op :: "string \<Rightarrow> 'f \<Rightarrow> (exn + unit) \<times> 'f"
  assumes unknown: "e \<notin> set (edges f) \<Longrightarrow> \<exists>msg. op e f = (Inl (Runtime_error msg), f)"
    and edges_op: "edges (snd (op e f)) = edges f"
begin

lemma unknown_rejected:
  assumes "e \<notin> set (edges f)"
  shows "\<exists>x. op e f = (Inl x, f) \<and> is_runtime_error x"
  using unknown [OF assms] by (metis is_runtime_error.simps(1))

lemma edges_ops: "edges (foldl (\<lambda>f e. snd (op e f)) f es) = edges f"
  by (induction es arbitrary: f) (simp_all add: edges_op)

lemma effect_known: "snd (op e f) \<noteq> f \<Longrightarrow> e \<in> set (edges f)"
  by (rule ccontr) (use unknown [of e f] in force)

end

abbreviation producer_edges :: "('ps, 'j, 'u) IceFlow \<Rightarrow> string list" where
  "producer_edges f \<equiv> map fst (m_iceflowProducers f)"

abbreviation consumer_edges :: "('ps, 'j, 'u) IceFlow \<Rightarrow> string list" where
  "consumer_edges f \<equiv> map fst (m_iceflowConsumers f)"

lemma map_of_unknown: "k \<notin> set (map fst m) \<Longrightarrow> map_of m k = None"
  by (simp add: map_of_eq_None_iff)

interpretation push: edge_registry producer_edges "pushData S payload" for S payload
  by unfold_locales
    (auto simp: pushData_def no_producer_def map_of_unknown split_beta Let_def split: option.split)

interpretation reprod: edge_registry producer_edges "repartitionProducer n" for n
  by unfold_locales
    (auto simp: repartitionProducer_def no_producer_def map_of_unknown
      split: option.split sum.split)

interpretation recons: edge_registry consumer_edges "repartitionConsumer S partitions" for S partitions
  by unfold_locales
    (auto simp: repartitionConsumer_def no_consumer_def map_of_unknown split_beta Let_def
      split: option.split)

interpretation regcb: edge_registry consumer_edges "registerConsumerCallback cb" for cb
  by unfold_locales
    (auto simp: registerConsumerCallback_def no_consumer_def map_of_unknown split: option.split)

section \<open>Properties of the operations\<close>

text \<open>
  Unknown edges are rejected. Pushing to, repartitioning or registering a callback for an
  edge the node does not have throws a \<open>std::runtime_error\<close> and leaves the whole node
  unchanged.
\<close>

theorem unknown_edge_rejected:
  "(e \<notin> set (producer_edges f) \<longrightarrow>
      (\<exists>x. pushData S payload e f = (Inl x, f) \<and> is_runtime_error x) \<and>
      (\<exists>x. repartitionProducer n e f = (Inl x, f) \<and> is_runtime_error x)) \<and>
   (e \<notin> set (consumer_edges f) \<longrightarrow>
      (\<exists>x. repartitionConsumer S partitions e f = (Inl x, f) \<and> is_runtime_error x) \<and>
      (\<exists>x. registerConsumerCallback cb e f = (Inl x, f) \<and> is_runtime_error x) \<and>
      (\<exists>x. registerProsumerCallback u e f = (Inl x, f) \<and> is_runtime_error x))"
  using push.unknown_rejected reprod.unknown_rejected recons.unknown_rejected
    regcb.unknown_rejected
  by (auto simp: registerProsumerCallback_def)

definition example_dag :: "jval DAGParser" where
  "example_dag = \<lparr>m_applicationName = ''/app'',
     m_nodes = [example_node,
       example_node\<lparr>task := ''2'', node_name := ''lines2words'',
         downstream := [\<lparr>edge_id = ''l2w'', target = ''3'', maxPartitions = 1,
           edge_applicationConfiguration = []\<rparr>]\<rparr>],
     m_json = None\<rparr>"

text \<open>A node with one consumer (edge \<open>t2l\<close>) and one producer (edge \<open>l2w\<close>).\<close>

definition example_iceflow :: "(ref_svs, jval, nat) IceFlow" where
  "example_iceflow =
     (case newIceFlow ref_ndn ''u'' (\<lambda>_. 7) (\<lambda>_. 0) example_dag ''lines2words'' None of
        Inr f \<Rightarrow> f
      | Inl _ \<Rightarrow> undefined)"

lemma example_iceflow_new:
  "newIceFlow ref_ndn ''u'' (\<lambda>_. 7) (\<lambda>_. 0) example_dag ''lines2words'' None = Inr example_iceflow"
  by (simp add: example_iceflow_def newIceFlow_def example_dag_def findNodeByName_def
      example_node_def findUpstreamEdges_def findUpstreamEdgesOfTask_def newProducer_def
      setTopicPartitions_eq setupBackchannel_def Let_def)

lemma example_iceflow_edges:
  "producer_edges example_iceflow = [''l2w'']" "consumer_edges example_iceflow = [''t2l'']"
  by (simp_all add: example_iceflow_def newIceFlow_def example_dag_def findNodeByName_def
      example_node_def findUpstreamEdges_def findUpstreamEdgesOfTask_def newProducer_def
      setTopicPartitions_eq setupBackchannel_def Let_def)

theorem unknown_edge_rejected_witness:
  "\<exists>x. pushData ref_ndn [1] ''t2l'' example_iceflow = (Inl x, example_iceflow) \<and> is_runtime_error x"
  using unknown_edge_rejected [of "''t2l''" example_iceflow ref_ndn "[1]"]
  by (simp add: example_iceflow_edges)

section \<open>Properties of the constructor\<close>

lemma newProducer_cases:
  "newProducer S np sp e n r time (Some ps) =
     (if n = 0
      then (Inl (Invalid_argument ''At least one topic partition has to be defined!''), Some ps)
      else
        (let p = \<lparr>m_pubTopic = sp @ ''/'' @ e, producer_nodePrefix = np, producer_syncPrefix = sp,
                  m_numberOfPartitions = n, m_topicPartitions = {q. unat q < unat n},
                  m_randomNumberGenerator = mt19937_seed (word_of_int time),
                  producer_congestionReporter = r, m_productionTimestamps = [],
                  m_maxProductionTimestampAge = second, m_downstreamEdgeName = Refers e,
                  producer_idleSince = 0\<rparr>
         in (Inr p,
             Some (snd (svs_subscribe S ps (backchannelName S (m_pubTopic p))
                          (Backchannel_handler np sp))))))"
proof -
  have "(ucast n :: u64) = 0 \<longleftrightarrow> n = 0"
    by (metis unat_widen unsigned_0 unsigned_word_eqI)
  then show ?thesis
    by (simp add: newProducer_def setTopicPartitions_eq setupBackchannel_def Let_def)
qed

lemma constructProducers_fails:
  "(\<exists>x. constructProducers S time es f = Inl x) \<longleftrightarrow> (\<exists>e \<in> set es. maxPartitions e = 0)"
proof (induction es arbitrary: f)
  case Nil
  then show ?case by simp
next
  case (Cons e es)
  show ?case
  proof (cases "maxPartitions e = 0")
    case True
    then show ?thesis by (simp add: newProducer_cases)
  next
    case False
    with Cons.IH show ?thesis by (auto simp: newProducer_cases Let_def)
  qed
qed

text \<open>A producer of the node is the one its edge asks for.\<close>

definition producer_for ::
    "('ps, 'n) ndn_ops \<Rightarrow> string \<Rightarrow> string \<Rightarrow> 'j Edge list \<Rightarrow> string \<times> IceflowProducer \<Rightarrow> bool" where
  "producer_for S nodePrefix syncPrefix es = (\<lambda>(k, p). producer_reach S p \<and>
     m_pubTopic p = syncPrefix @ ''/'' @ k \<and> producer_syncPrefix p = syncPrefix \<and>
     producer_nodePrefix p = nodePrefix \<and>
     (\<exists>e \<in> set es. edge_id e = k \<and> maxPartitions e = m_numberOfPartitions p))"

lemma set_emplace: "set (emplace k v m) \<subseteq> insert (k, v) (set m)"
  by (induction k v m rule: emplace.induct) auto

lemma newProducer_for:
  assumes "newProducer S np sp (edge_id e) (maxPartitions e) r t (Some ps) = (Inr p, lock)"
    and "e \<in> set es"
  shows "producer_for S np sp es (edge_id e, p\<lparr>m_downstreamEdgeName := Dangling\<rparr>)"
  using assms producer_reach.name_destroyed [OF producer_reach.created [OF assms(1)]]
  by (auto simp: newProducer_cases producer_for_def Let_def split: if_splits)

lemma same_but_producers: "\<exists>ps m. f = f\<lparr>m_svsPubSub := ps, m_iceflowProducers := m\<rparr>"
  by (intro exI [of _ "m_svsPubSub f"] exI [of _ "m_iceflowProducers f"]) simp

lemma same_but_consumers: "\<exists>m. f = f\<lparr>m_iceflowConsumers := m\<rparr>"
  by (intro exI [of _ "m_iceflowConsumers f"]) simp

lemma constructProducers_ok:
  assumes "constructProducers S time es f = Inr f'" and "set es \<subseteq> set all"
    and "\<forall>kp \<in> set (m_iceflowProducers f). producer_for S (m_nodePrefix f) (m_syncPrefix f) all kp"
    and "distinct (producer_edges f)"
  shows "set (producer_edges f') = set (producer_edges f) \<union> edge_id ` set es \<and>
    distinct (producer_edges f') \<and>
    (\<forall>kp \<in> set (m_iceflowProducers f'). producer_for S (m_nodePrefix f) (m_syncPrefix f) all kp) \<and>
    (\<exists>ps m. f' = f\<lparr>m_svsPubSub := ps, m_iceflowProducers := m\<rparr>)"
  using assms
proof (induction es arbitrary: f)
  case Nil
  then show ?case using same_but_producers [of f] by simp
next
  case (Cons e es)
  obtain p lock where new: "newProducer S (m_nodePrefix f) (m_syncPrefix f) (edge_id e)
      (maxPartitions e) (m_congestionReporter f) (time (edge_id e)) (Some (m_svsPubSub f)) = (Inr p, lock)"
    using Cons.prems(1) by (auto split: prod.splits sum.splits)
  let ?p = "p\<lparr>m_downstreamEdgeName := Dangling\<rparr>"
  let ?f = "f\<lparr>m_svsPubSub := unlocked (m_svsPubSub f) lock,
              m_iceflowProducers := emplace (edge_id e) ?p (m_iceflowProducers f)\<rparr>"
  have "producer_for S (m_nodePrefix f) (m_syncPrefix f) all (edge_id e, ?p)"
    using newProducer_for [OF new] Cons.prems(2) by simp
  then have "\<forall>kp \<in> set (m_iceflowProducers ?f). producer_for S (m_nodePrefix ?f) (m_syncPrefix ?f) all kp"
    using set_emplace [of "edge_id e" ?p "m_iceflowProducers f"] Cons.prems(3) by auto
  moreover have "distinct (producer_edges ?f)" using Cons.prems(4) by auto
  moreover have "constructProducers S time es ?f = Inr f'" using Cons.prems(1) new by simp
  ultimately show ?case
    using Cons.IH [of ?f] Cons.prems(2) by (auto simp: keys_emplace)
qed

lemma destroy_new: "destroyConsumer S (newConsumer sp e r t) lock = lock"
  by (simp add: destroyConsumer_def unsubscribeFromAllPartitions_def newConsumer_def
      option.map_ident)

text \<open>A consumer of the node is a fresh one for its edge, whose string is gone.\<close>

abbreviation storedConsumer :: "string \<Rightarrow> string \<Rightarrow> nat option \<Rightarrow> time_point \<Rightarrow> 'cb IceflowConsumer" where
  "storedConsumer syncPrefix e r now \<equiv> (newConsumer syncPrefix e r now)\<lparr>m_upstreamEdgeName := Dangling\<rparr>"

definition consumer_for ::
    "string \<Rightarrow> nat option \<Rightarrow> (string \<Rightarrow> time_point) \<Rightarrow> string \<times> 'cb IceflowConsumer \<Rightarrow> bool" where
  "consumer_for syncPrefix r now = (\<lambda>(k, c). c = storedConsumer syncPrefix k r (now k))"

lemma constructConsumers_ok:
  assumes "\<forall>kc \<in> set (m_iceflowConsumers f). consumer_for (m_syncPrefix f) (m_congestionReporter f) now kc"
    and "distinct (consumer_edges f)"
  shows "set (consumer_edges (constructConsumers S now es f)) = set (consumer_edges f) \<union> edge_id ` set es \<and>
    distinct (consumer_edges (constructConsumers S now es f)) \<and>
    (\<forall>kc \<in> set (m_iceflowConsumers (constructConsumers S now es f)).
       consumer_for (m_syncPrefix f) (m_congestionReporter f) now kc) \<and>
    (\<exists>m. constructConsumers S now es f = f\<lparr>m_iceflowConsumers := m\<rparr>)"
  using assms
proof (induction es arbitrary: f)
  case Nil
  then show ?case using same_but_consumers [of f] by simp
next
  case (Cons e es)
  let ?c = "storedConsumer (m_syncPrefix f) (edge_id e) (m_congestionReporter f) (now (edge_id e))"
  let ?f = "f\<lparr>m_iceflowConsumers := emplace (edge_id e) ?c (m_iceflowConsumers f)\<rparr>"
  have "\<forall>kc \<in> set (m_iceflowConsumers ?f). consumer_for (m_syncPrefix ?f) (m_congestionReporter ?f) now kc"
    using set_emplace [of "edge_id e" ?c "m_iceflowConsumers f"] Cons.prems(1)
    by (auto simp: consumer_for_def)
  moreover have "distinct (consumer_edges ?f)" using Cons.prems(2) by auto
  ultimately show ?case
    using Cons.IH [of ?f] by (auto simp: destroy_new keys_emplace Let_def)
qed

lemma newIceFlow_state:
  assumes "newIceFlow S uuid time now d nodeName r = Inr f"
  shows "\<exists>node. findNodeByName d nodeName = Inr node \<and> \<not> m_running f \<and> m_node f = node \<and>
    m_syncPrefix f = m_applicationName d \<and>
    m_nodePrefix f = ''/node-'' @ m_applicationName d @ ''/'' @ uuid \<and>
    m_downstreamEdges f = downstream node \<and>
    m_upstreamEdges f = map snd (findUpstreamEdges d node) \<and>
    set (producer_edges f) = edge_id ` set (downstream node) \<and> distinct (producer_edges f) \<and>
    set (consumer_edges f) = edge_id ` set (m_upstreamEdges f) \<and> distinct (consumer_edges f) \<and>
    (\<forall>kp \<in> set (m_iceflowProducers f). producer_for S (m_nodePrefix f) (m_syncPrefix f) (downstream node) kp) \<and>
    (\<forall>(k, c) \<in> set (m_iceflowConsumers f). c = storedConsumer (m_syncPrefix f) k r (now k))"
proof -
  obtain node where node: "findNodeByName d nodeName = Inr node"
    using assms by (auto simp: newIceFlow_def bindE_Inr_iff Let_def)
  let ?np = "generateNodePrefix uuid (m_applicationName d)"
  let ?f0 = "\<lparr>m_running = False,
      m_svsPubSub = svs_new S (name_of S (m_applicationName d)) (name_of S ?np),
      m_nodePrefix = ?np, m_syncPrefix = m_applicationName d,
      m_iceflowProducers = [], m_iceflowConsumers = [], m_congestionReporter = r, m_node = node,
      m_downstreamEdges = downstream node, m_upstreamEdges = map snd (findUpstreamEdges d node)\<rparr>"
  obtain f1 where f1: "constructProducers S time (downstream node) ?f0 = Inr f1"
    and f: "f = constructConsumers S now (map snd (findUpstreamEdges d node)) f1"
    using assms node by (auto simp: newIceFlow_def bindE_Inr_iff Let_def)
  have P: "set (producer_edges f1) = edge_id ` set (downstream node) \<and> distinct (producer_edges f1) \<and>
      (\<forall>kp \<in> set (m_iceflowProducers f1). producer_for S ?np (m_applicationName d) (downstream node) kp) \<and>
      (\<exists>ps m. f1 = ?f0\<lparr>m_svsPubSub := ps, m_iceflowProducers := m\<rparr>)"
    using constructProducers_ok [OF f1 subset_refl] by simp
  then obtain ps m where f1': "f1 = ?f0\<lparr>m_svsPubSub := ps, m_iceflowProducers := m\<rparr>" by blast
  have f1_sels: "m_iceflowConsumers f1 = []" "m_syncPrefix f1 = m_applicationName d"
      "m_congestionReporter f1 = r"
    by (simp_all add: f1')
  have C: "set (consumer_edges f) = edge_id ` set (map snd (findUpstreamEdges d node)) \<and>
      distinct (consumer_edges f) \<and>
      (\<forall>kc \<in> set (m_iceflowConsumers f). consumer_for (m_applicationName d) r now kc) \<and>
      (\<exists>m. f = f1\<lparr>m_iceflowConsumers := m\<rparr>)"
    using constructConsumers_ok [of f1 now S "map snd (findUpstreamEdges d node)"] f f1_sels
    by simp
  then obtain m' where "f = f1\<lparr>m_iceflowConsumers := m'\<rparr>" by blast
  with P C show ?thesis
    by (auto simp: node f1' generateNodePrefix_def consumer_for_def)
qed

text \<open>
  What a constructed node is. It is not running; it has one producer per distinct downstream
  edge name of the named node and one consumer per distinct name among the upstream edges found;
  every producer publishes on \<open>application/edge\<close> with the edge's partition count, and every
  consumer is fresh, on \<open>application/edge\<close>, without subscriptions and without a callback.
\<close>

theorem newIceFlow_edges:
  assumes "newIceFlow S uuid time now d nodeName r = Inr f"
  shows "\<exists>node. findNodeByName d nodeName = Inr node \<and> \<not> m_running f \<and> m_node f = node \<and>
    m_syncPrefix f = m_applicationName d \<and>
    m_nodePrefix f = ''/node-'' @ m_applicationName d @ ''/'' @ uuid \<and>
    m_downstreamEdges f = downstream node \<and>
    m_upstreamEdges f = map snd (findUpstreamEdges d node) \<and>
    set (producer_edges f) = edge_id ` set (downstream node) \<and> distinct (producer_edges f) \<and>
    set (consumer_edges f) = edge_id ` set (m_upstreamEdges f) \<and> distinct (consumer_edges f) \<and>
    (\<forall>kp \<in> set (m_iceflowProducers f). producer_for S (m_nodePrefix f) (m_syncPrefix f) (downstream node) kp) \<and>
    (\<forall>(k, c) \<in> set (m_iceflowConsumers f). c = storedConsumer (m_syncPrefix f) k r (now k))"
  using newIceFlow_state [OF assms] by blast

theorem newIceFlow_edges_witness:
  "set (producer_edges example_iceflow) = {''l2w''} \<and> set (consumer_edges example_iceflow) = {''t2l''} \<and>
   \<not> m_running example_iceflow"
  using newIceFlow_edges [OF example_iceflow_new] by (auto simp: example_iceflow_edges)

text \<open>
  When construction fails. The constructor throws exactly when the DAG has no node of that
  name or some downstream edge of the node allows zero partitions.
\<close>

theorem newIceFlow_throws_iff:
  "(\<exists>x. newIceFlow S uuid time now d nodeName r = Inl x) \<longleftrightarrow>
     (case findNodeByName d nodeName of
        Inl x \<Rightarrow> True
      | Inr node \<Rightarrow> \<exists>e \<in> set (downstream node). maxPartitions e = 0)"
proof (cases "findNodeByName d nodeName")
  case (Inl x)
  then show ?thesis by (simp add: newIceFlow_def Let_def)
next
  case (Inr node)
  then show ?thesis
    using constructProducers_fails [of S time "downstream node"]
    by (auto simp: newIceFlow_def Let_def bindE_Inl_iff)
qed

section \<open>Live subscriptions\<close>

lemma partition_sub_inject:
  assumes "svs S invar used subs pubs store"
  shows "partition_sub S e c p = partition_sub S e c q \<longleftrightarrow> p = q"
  using svs.number_inject [OF assms] by (auto simp: partition_sub_def consumer_prepareDataName_def)
    (metis ucast_u32_u64)

text \<open>
  The link between the node and the pub/sub instance: every handle a consumer holds is a live
  subscription of one of its partitions, served by that consumer.
\<close>

definition node_live ::
    "('ps, 'n) ndn_ops \<Rightarrow> ('ps \<Rightarrow> u32 \<rightharpoonup> 'n \<times> callback) \<Rightarrow> ('ps, 'j, 'u) IceFlow \<Rightarrow> bool" where
  "node_live S subs f \<longleftrightarrow>
     (\<forall>e c. map_of (m_iceflowConsumers f) e = Some c \<longrightarrow>
        distinct (m_subscriptionHandles c) \<and>
        (\<forall>h \<in> set (m_subscriptionHandles c).
           \<exists>p. subs (m_svsPubSub f) h = Some (partition_sub S e c p)))"

lemma node_live_fresh:
  assumes "\<forall>(k, c) \<in> set (m_iceflowConsumers f). m_subscriptionHandles c = []"
  shows "node_live S subs f"
  using assms by (auto simp: node_live_def dest!: map_of_SomeD)

lemma repartitionConsumer_keeps_live:
  assumes "svs S invar used subs pubs store" and "invar (m_svsPubSub f)"
    and "used (m_svsPubSub f) + length partitions < 2 ^ 32"
    and "node_live S subs f" and "map_of (m_iceflowConsumers f) e = Some c"
  shows "\<exists>f' c'. repartitionConsumer S partitions e f = (Inr (), f') \<and>
    map_of (m_iceflowConsumers f') = (map_of (m_iceflowConsumers f))(e \<mapsto> c') \<and>
    map (subs (m_svsPubSub f')) (m_subscriptionHandles c') =
      map (\<lambda>p. Some (partition_sub S e c p)) partitions \<and>
    node_live S subs f' \<and> c' = c\<lparr>m_subscriptionHandles := m_subscriptionHandles c'\<rparr>"
proof -
  obtain hs ps' where r: "repartition S e partitions c (Some (m_svsPubSub f)) =
      (Inr True, c\<lparr>m_subscriptionHandles := hs\<rparr>, Some ps')"
    and hs: "length hs = length partitions" "distinct hs"
      "map (subs ps') hs = map (\<lambda>p. Some (partition_sub S e c p)) partitions"
    and frame: "\<And>h. h \<notin> set hs \<Longrightarrow>
       subs ps' h = (if h \<in> set (m_subscriptionHandles c) then None else subs (m_svsPubSub f) h)"
    and fresh: "set hs \<inter> dom (subs (m_svsPubSub f) |` (- set (m_subscriptionHandles c))) = {}"
    using repartition_fresh [OF assms(1-3), of e c] by auto
  let ?c = "c\<lparr>m_subscriptionHandles := hs\<rparr>"
  let ?f = "f\<lparr>m_svsPubSub := ps', m_iceflowConsumers := adjust e (\<lambda>_. ?c) (m_iceflowConsumers f)\<rparr>"
  have "repartitionConsumer S partitions e f = (Inr (), ?f)"
    by (simp add: repartitionConsumer_def assms(5) r)
  moreover have "map_of (m_iceflowConsumers ?f) = (map_of (m_iceflowConsumers f))(e \<mapsto> ?c)"
    by (simp add: map_of_adjust assms(5))
  moreover have "node_live S subs ?f"
    unfolding node_live_def
  proof (intro allI impI)
    fix e' c'
    assume c': "map_of (m_iceflowConsumers ?f) e' = Some c'"
    show "distinct (m_subscriptionHandles c') \<and> (\<forall>h \<in> set (m_subscriptionHandles c').
        \<exists>p. subs (m_svsPubSub ?f) h = Some (partition_sub S e' c' p))"
    proof (cases "e' = e")
      case True
      with c' assms(5) have "c' = ?c" by (simp add: map_of_adjust)
      moreover have "\<exists>p. subs ps' h = Some (partition_sub S e c p)" if "h \<in> set hs" for h
      proof -
        have "subs ps' h \<in> set (map (subs ps') hs)" using that by simp
        then show ?thesis unfolding hs(3) by auto
      qed
      ultimately show ?thesis using hs(2) True by simp
    next
      case False
      with c' have old: "map_of (m_iceflowConsumers f) e' = Some c'" by (simp add: map_of_adjust)
      have "\<exists>p. subs ps' h = Some (partition_sub S e' c' p)"
        if h: "h \<in> set (m_subscriptionHandles c')" for h
      proof -
        obtain p where p: "subs (m_svsPubSub f) h = Some (partition_sub S e' c' p)"
          using assms(4) old h unfolding node_live_def by blast
        have "h \<notin> set (m_subscriptionHandles c)"
          using assms(4,5) p False by (force simp: node_live_def partition_sub_def)
        moreover from this p fresh have "h \<notin> set hs"
          by (auto simp: restrict_map_def dom_def)
        ultimately show ?thesis using frame [of h] p by auto
      qed
      with assms(4) old show ?thesis by (simp add: node_live_def)
    qed
  qed
  moreover have "map (subs (m_svsPubSub ?f)) (m_subscriptionHandles ?c) =
      map (\<lambda>p. Some (partition_sub S e c p)) partitions"
    using hs(3) by simp
  ultimately show ?thesis by (intro exI [of _ ?f] exI [of _ ?c] conjI) simp_all
qed

text \<open>
  Repartitioning one consumer of a node. On a node whose handles are all live, with room in
  the handle counter, \<open>repartitionConsumer\<close> on an existing edge succeeds; afterwards the
  consumer's handles are subscribed to exactly the requested partitions, in order, the other
  consumers are unchanged and still live, and so the whole node is live again.
\<close>

theorem repartitionConsumer_live:
  assumes "svs S invar used subs pubs store" and "invar (m_svsPubSub f)"
    and "used (m_svsPubSub f) + length partitions < 2 ^ 32"
    and "node_live S subs f" and "map_of (m_iceflowConsumers f) e = Some c"
  shows "\<exists>f' c'. repartitionConsumer S partitions e f = (Inr (), f') \<and>
    map_of (m_iceflowConsumers f') = (map_of (m_iceflowConsumers f))(e \<mapsto> c') \<and>
    map (subs (m_svsPubSub f')) (m_subscriptionHandles c') =
      map (\<lambda>p. Some (partition_sub S e c p)) partitions \<and>
    node_live S subs f'"
  using repartitionConsumer_keeps_live [OF assms] by blast

lemma example_iceflow_sels:
  "m_svsPubSub example_iceflow =
     \<lparr>rs_group = [Text ''app''], rs_node = [Text ''node-'', Text ''app'', Text ''u''], rs_count = 1,
      rs_subs = [(1, backchannelName ref_ndn ''/app/l2w'', Backchannel_handler ''/node-/app/u'' ''/app'')],
      rs_pubs = [], rs_store = {}\<rparr>"
  "m_iceflowConsumers example_iceflow = [(''t2l'', storedConsumer ''/app'' ''t2l'' None 0)]"
  "m_running example_iceflow = False"
  "m_downstreamEdges example_iceflow = downstream (m_nodes example_dag ! 1)"
  by (simp_all add: example_iceflow_def newIceFlow_def example_dag_def findNodeByName_def
      example_node_def findUpstreamEdges_def findUpstreamEdgesOfTask_def newProducer_def
      setTopicPartitions_eq setupBackchannel_def Let_def destroy_new ref_subscribe_def
      generateNodePrefix_def ref_name_of_def)

lemma example_iceflow_svs:
  "ref_inv (m_svsPubSub example_iceflow)" "rs_count (m_svsPubSub example_iceflow) = 1"
  "node_live ref_ndn ref_subs example_iceflow"
  "map_of (m_iceflowConsumers example_iceflow) ''t2l'' = Some (storedConsumer ''/app'' ''t2l'' None 0)"
  by (simp_all add: example_iceflow_sels ref_inv_def node_live_def newConsumer_def)

theorem repartitionConsumer_live_witness:
  "\<exists>f'. repartitionConsumer ref_ndn [1, 3] ''t2l'' example_iceflow = (Inr (), f') \<and>
    node_live ref_ndn ref_subs f'"
proof -
  have "rs_count (m_svsPubSub example_iceflow) + length [1, 3 :: u32] < 2 ^ 32"
    by (simp add: example_iceflow_svs)
  from repartitionConsumer_live [OF ref_svs.svs_axioms example_iceflow_svs(1) this
      example_iceflow_svs(3,4)] show ?thesis by blast
qed

section \<open>Queries\<close>

lemma consumerStatsLoop_svs:
  assumes "svs S invar used subs pubs store" and "invar ps"
  shows "invar (snd (consumerStatsLoop S now m acc ps)) \<and>
    pubs (snd (consumerStatsLoop S now m acc ps)) = pubs ps \<and>
    subs (snd (consumerStatsLoop S now m acc ps)) =
      subs ps |` (- \<Union> (set ` m_subscriptionHandles ` snd ` set m))"
  using assms(2)
proof (induction m arbitrary: acc ps)
  case Nil
  then show ?case by simp
next
  case (Cons kc m)
  obtain k c where kc: "kc = (k, c)" by (cases kc)
  let ?ps = "foldl (svs_unsubscribe S) ps (m_subscriptionHandles c)"
  note un = svs.unsubscribe_all [OF assms(1) Cons.prems, where hs = "m_subscriptionHandles c"]
  have "snd (consumerStatsLoop S now (kc # m) acc ps) =
      snd (consumerStatsLoop S now m (emplace k (fst (getConsumptionStats (now k) c)) acc) ?ps)"
    by (simp add: kc split_beta Let_def destroyConsumer_def unsubscribeFromAllPartitions_def
        getConsumptionStats_def)
  with Cons.IH [OF un(1)] un show ?case
    by (auto simp: kc restrict_map_def fun_eq_iff)
qed

lemma consumerStatsLoop_result:
  "distinct (map fst acc @ map fst m) \<Longrightarrow>
     fst (consumerStatsLoop S now m acc ps) =
       acc @ map (\<lambda>(k, c). (k, fst (getConsumptionStats (now k) c))) m"
proof (induction m arbitrary: acc ps)
  case Nil
  then show ?case by simp
next
  case (Cons kc m)
  obtain k c where kc: "kc = (k, c)" by (cases kc)
  have "emplace k v acc = acc @ [(k, v)]" for v
    using Cons.prems by (intro emplace_absent) (simp add: kc dom_map_of_conv_image_fst)
  with Cons.IH Cons.prems show ?case by (simp add: kc split_beta Let_def)
qed

lemma producerStatsLoop_result:
  "distinct (map fst acc @ map fst m) \<Longrightarrow>
     producerStatsLoop now m acc = acc @ map (\<lambda>(k, p). (k, fst (getProductionStats (now k) p))) m"
proof (induction m arbitrary: acc)
  case Nil
  then show ?case by simp
next
  case (Cons kp m)
  obtain k p where kp: "kp = (k, p)" by (cases kp)
  have "emplace k v acc = acc @ [(k, v)]" for v
    using Cons.prems by (intro emplace_absent) (simp add: kp dom_map_of_conv_image_fst)
  with Cons.IH Cons.prems show ?case by (simp add: kp)
qed

text \<open>
  C34: asking for consumer statistics unsubscribes the node. \<open>getConsumerStats\<close> copies each
  consumer while iterating, and the copy's destructor unsubscribes the handles it shares with the
  original: afterwards no handle of any consumer is subscribed any more, every other subscription
  is untouched, and the consumers still list their dead handles, so the node no longer receives
  data until it is repartitioned.
\<close>

theorem getConsumerStats_unsubscribes:
  assumes "svs S invar used subs pubs store" and "invar (m_svsPubSub f)"
    and "getConsumerStats S now f = (stats, f')"
  shows "m_iceflowConsumers f' = m_iceflowConsumers f \<and>
    (\<forall>(e, c) \<in> set (m_iceflowConsumers f').
       \<forall>h \<in> set (m_subscriptionHandles c). subs (m_svsPubSub f') h = None) \<and>
    (\<forall>h. (\<forall>(e, c) \<in> set (m_iceflowConsumers f). h \<notin> set (m_subscriptionHandles c)) \<longrightarrow>
       subs (m_svsPubSub f') h = subs (m_svsPubSub f) h)"
proof -
  have f': "f' = f\<lparr>m_svsPubSub :=
      snd (consumerStatsLoop S now (m_iceflowConsumers f) [] (m_svsPubSub f))\<rparr>"
    using assms(3) by (auto simp: getConsumerStats_def split_beta)
  show ?thesis
    using consumerStatsLoop_svs [OF assms(1,2), of now "m_iceflowConsumers f" "[]"]
    by (force simp: f' restrict_map_def)
qed

definition example_subscribed :: "(ref_svs, jval, nat) IceFlow" where
  "example_subscribed = snd (repartitionConsumer ref_ndn [1, 3] ''t2l'' example_iceflow)"

lemma example_subscribed_sels:
  "m_svsPubSub example_subscribed =
     \<lparr>rs_group = [Text ''app''], rs_node = [Text ''node-'', Text ''app'', Text ''u''], rs_count = 3,
      rs_subs = [(3, [Text ''app'', Text ''t2l'', Number 3], Consumer_callback ''t2l''),
                 (2, [Text ''app'', Text ''t2l'', Number 1], Consumer_callback ''t2l''),
                 (1, backchannelName ref_ndn ''/app/l2w'', Backchannel_handler ''/node-/app/u'' ''/app'')],
      rs_pubs = [], rs_store = {}\<rparr>"
  "m_iceflowConsumers example_subscribed =
     [(''t2l'', (storedConsumer ''/app'' ''t2l'' None 0)\<lparr>m_subscriptionHandles := [2, 3]\<rparr>)]"
  by (simp_all add: example_subscribed_def repartitionConsumer_def repartition_def Let_def
      unsubscribeFromAllPartitions_def subscribeToTopicPartition_def example_iceflow_sels
      newConsumer_def ref_subscribe_def consumer_prepareDataName_def ref_name_of_def)

theorem getConsumerStats_unsubscribes_witness:
  "ref_subs (m_svsPubSub example_subscribed) 2 \<noteq> None \<and>
   ref_subs (m_svsPubSub (snd (getConsumerStats ref_ndn (\<lambda>_. 5) example_subscribed))) 2 = None \<and>
   m_iceflowConsumers (snd (getConsumerStats ref_ndn (\<lambda>_. 5) example_subscribed)) =
     [(''t2l'', (storedConsumer ''/app'' ''t2l'' None 0)\<lparr>m_subscriptionHandles := [2, 3]\<rparr>)]"
proof -
  have "ref_inv (m_svsPubSub example_subscribed)"
    by (simp add: example_subscribed_sels ref_inv_def)
  note res = getConsumerStats_unsubscribes [OF ref_svs.svs_axioms this prod.collapse [symmetric],
      where now = "\<lambda>_. 5"]
  show ?thesis
    using res by (simp add: res [THEN conjunct1] example_subscribed_sels ref_subs_def)
qed

text \<open>
  Indexed edge access. For every index but \<open>2 ^ 32 - 1\<close>, \<open>getDownstreamEdge\<close> and
  \<open>getUpstreamEdge\<close> return the edge at the index or nothing when there is none; for
  \<open>2 ^ 32 - 1\<close> the 32-bit \<open>index + 1\<close> wraps to zero, the guard passes, and on any edge list
  that fits in memory the call throws \<open>std::out_of_range\<close> instead of returning nothing.
\<close>

theorem edge_access:
  assumes "length (m_downstreamEdges f) < 2 ^ 32 - 1"
  shows "getDownstreamEdge i f =
    (if i = 0xFFFFFFFF then Inl (Out_of_range ''vector::_M_range_check'')
     else Inr (if unat i < length (m_downstreamEdges f)
               then Some (m_downstreamEdges f ! unat i) else None))"
proof (cases "i = 0xFFFFFFFF")
  case True
  with assms show ?thesis by (simp add: getDownstreamEdge_def edgeAt_def)
next
  case False
  then have "unat i \<noteq> unat (0xFFFFFFFF :: u32)" by (simp only: word_unat_eq_iff not_False_eq_True)
  then have "i < 0xFFFFFFFF" using unat_u32_bound [of i] by (simp add: word_less_nat_alt)
  then have "unat (i + 1) = Suc (unat i)" by (rule unat_increment)
  with False show ?thesis by (simp add: getDownstreamEdge_def edgeAt_def Suc_le_eq)
qed

theorem edge_access_witness:
  "getDownstreamEdge 0xFFFFFFFF example_iceflow = Inl (Out_of_range ''vector::_M_range_check'')"
proof -
  have "length (m_downstreamEdges example_iceflow) < 2 ^ 32 - 1"
    by (simp add: example_iceflow_sels example_dag_def)
  then show ?thesis by (subst edge_access) simp_all
qed

end
