(* ===== verification/Event_Loop.thy ===== *)
theory Event_Loop
  imports Ice_Flow
begin

text \<open>
  \<open>IceFlow::run\<close>, \<open>IceFlow::shutdown\<close> and the callbacks that \<open>processEvents\<close> drives.
  The NDN face is outside the repository: what one call of \<open>processEvents\<close> does is given as a
  batch of events (data for a subscription, a shutdown by another thread, an exception of the
  face), and a run is given by the batches of its successive calls. Application code is given by
  its effect on an application state \<open>'a\<close> and by what it pushes; callbacks that call other operations
  of the node are the subject of \<open>Application_Calls\<close>.
\<close>

section \<open>Application code\<close>

text \<open>
  A plain consumer callback maps payload and state to an outcome. A prosumer callback is given
  the producer callback: it is described by the pushes it makes, in order, each with the
  application state at that moment, and by the outcome after the last one.
\<close>

type_synonym 'a script = "(string \<times> byte list \<times> 'a) list \<times> (exn + unit) \<times> 'a"

record ('u, 'a) application =
  run_plain :: "'u \<Rightarrow> byte list \<Rightarrow> 'a \<Rightarrow> (exn + unit) \<times> 'a"
  run_prosumer :: "'u \<Rightarrow> byte list \<Rightarrow> 'a \<Rightarrow> 'a script"

text \<open>An exception of a push leaves the prosumer callback, the remaining pushes do not happen.\<close>

fun runScript ::
    "('ps, 'n) ndn_ops \<Rightarrow> (string \<times> byte list \<times> 'a) list \<Rightarrow> (exn + unit) \<Rightarrow> 'a
       \<Rightarrow> ('ps, 'j, 'u) IceFlow \<Rightarrow> (exn + unit) \<times> ('ps, 'j, 'u) IceFlow \<times> 'a" where
  "runScript S [] outcome a f = (outcome, f, a)"
| "runScript S ((edge, data, a1) # pushes) outcome a f =
     (case pushData S data edge f of
        (Inl e, f') \<Rightarrow> (Inl e, f', a1)
      | (Inr _, f') \<Rightarrow> runScript S pushes outcome a f')"

fun invokeCallback ::
    "('ps, 'n) ndn_ops \<Rightarrow> ('u, 'a) application \<Rightarrow> 'u ConsumerCallback \<Rightarrow> byte list
       \<Rightarrow> ('ps, 'j, 'u) IceFlow \<times> 'a \<Rightarrow> (exn + unit) \<times> ('ps, 'j, 'u) IceFlow \<times> 'a" where
  "invokeCallback S app (Plain u) data (f, a) =
     (let (r, a') = run_plain app u data a in (r, f, a'))"
| "invokeCallback S app (Prosumer u) data (f, a) =
     (let (pushes, outcome, a') = run_prosumer app u data a
      in runScript S pushes outcome a' f)"

section \<open>Events\<close>

datatype 'n face_event =
    Arrived callback "'n SubscriptionData" time_point
  | Shutdown
  | Face_error exn

text \<open>Data for a consumer: \<open>subscribeCallBack\<close> of the object stored under the edge.\<close>

definition onConsumerData ::
    "('ps, 'n) ndn_ops \<Rightarrow> 'j json_ops \<Rightarrow> ('u, 'a) application \<Rightarrow> string \<Rightarrow> 'n SubscriptionData
       \<Rightarrow> time_point \<Rightarrow> ('ps, 'j, 'u) IceFlow \<times> 'a
       \<Rightarrow> (exn + unit) \<times> ('ps, 'j, 'u) IceFlow \<times> 'a" where
  "onConsumerData S J app edge d now fa =
     (case map_of (m_iceflowConsumers (fst fa)) edge of
        None \<Rightarrow> (Inr (), fa)
      | Some c \<Rightarrow>
          (let (r, c', fa') =
             subscribeCallBack S J (invokeCallback S app)
               (\<lambda>fa. Some (m_svsPubSub (fst fa)))
               (\<lambda>ps fa. ((fst fa)\<lparr>m_svsPubSub := ps\<rparr>, snd fa))
               now d c fa
           in (r, (fst fa')\<lparr>m_iceflowConsumers :=
                     adjust edge (\<lambda>_. c') (m_iceflowConsumers (fst fa'))\<rparr>, snd fa')))"

definition shutdown :: "('ps, 'j, 'u) IceFlow \<Rightarrow> ('ps, 'j, 'u) IceFlow" where
  "shutdown f = f\<lparr>m_running := False\<rparr>"

fun handleEvent ::
    "('ps, 'n) ndn_ops \<Rightarrow> 'j json_ops \<Rightarrow> ('u, 'a) application \<Rightarrow> 'n face_event
       \<Rightarrow> ('ps, 'j, 'u) IceFlow \<times> 'a \<Rightarrow> (exn + unit) \<times> ('ps, 'j, 'u) IceFlow \<times> 'a" where
  "handleEvent S J app (Arrived (Consumer_callback edge) d now) fa =
     onConsumerData S J app edge d now fa"
| "handleEvent S J app (Arrived (Backchannel_handler np sp) d now) (f, a) =
     (let (r, ps) = handleBackchannel S J np sp d (m_svsPubSub f)
      in (r, f\<lparr>m_svsPubSub := ps\<rparr>, a))"
| "handleEvent S J app Shutdown (f, a) = (Inr (), shutdown f, a)"
| "handleEvent S J app (Face_error e) fa = (Inl e, fa)"

text \<open>One call of \<open>processEvents\<close>: an exception ends it.\<close>

fun processEvents ::
    "('ps, 'n) ndn_ops \<Rightarrow> 'j json_ops \<Rightarrow> ('u, 'a) application \<Rightarrow> 'n face_event list
       \<Rightarrow> ('ps, 'j, 'u) IceFlow \<times> 'a \<Rightarrow> (exn + unit) \<times> ('ps, 'j, 'u) IceFlow \<times> 'a" where
  "processEvents S J app [] fa = (Inr (), fa)"
| "processEvents S J app (e # es) fa =
     (case handleEvent S J app e fa of
        (Inl x, fa') \<Rightarrow> (Inl x, fa')
      | (Inr _, fa') \<Rightarrow> processEvents S J app es fa')"

section \<open>The loop\<close>

text \<open>
  What has become of the loop after the given batches: it left because \<open>m_running\<close> is false,
  it would go on, or an exception that is not a \<open>std::exception\<close> left the thread function
  (which terminates the process).
\<close>

datatype loop_outcome = Stopped | Running | Crashed exn

fun eventLoop ::
    "('ps, 'n) ndn_ops \<Rightarrow> 'j json_ops \<Rightarrow> ('u, 'a) application \<Rightarrow> 'n face_event list list
       \<Rightarrow> ('ps, 'j, 'u) IceFlow \<times> 'a \<Rightarrow> loop_outcome \<times> ('ps, 'j, 'u) IceFlow \<times> 'a" where
  "eventLoop S J app [] fa = (if m_running (fst fa) then Running else Stopped, fa)"
| "eventLoop S J app (batch # batches) fa =
     (if \<not> m_running (fst fa) then (Stopped, fa)
      else case processEvents S J app batch fa of
             (Inl x, fa') \<Rightarrow>
               (if is_std_exception x then eventLoop S J app batches fa' else (Crashed x, fa'))
           | (Inr _, fa') \<Rightarrow> eventLoop S J app batches fa')"

definition run ::
    "('ps, 'n) ndn_ops \<Rightarrow> 'j json_ops \<Rightarrow> ('u, 'a) application \<Rightarrow> 'n face_event list list
       \<Rightarrow> ('ps, 'j, 'u) IceFlow \<times> 'a
       \<Rightarrow> exn + loop_outcome \<times> ('ps, 'j, 'u) IceFlow \<times> 'a" where
  "run S J app batches fa =
     (if m_running (fst fa) then Inl (Runtime_error ''Iceflow instance is already running!'')
      else Inr (eventLoop S J app batches ((fst fa)\<lparr>m_running := True\<rparr>, snd fa)))"

section \<open>What a node keeps while it runs\<close>

text \<open>
  The relation between a node before and after any number of events: the same edges, the same
  subscriptions held by the same consumers, only more publications.
\<close>

definition same_handles :: "(string \<times> 'cb IceflowConsumer) list \<Rightarrow> (string \<times> 'cb IceflowConsumer) list \<Rightarrow> bool" where
  "same_handles m m' \<longleftrightarrow>
     map (\<lambda>(k, c). (k, m_subTopic c, m_subscriptionHandles c)) m' =
     map (\<lambda>(k, c). (k, m_subTopic c, m_subscriptionHandles c)) m"

definition node_evolves ::
    "('ps \<Rightarrow> bool) \<Rightarrow> ('ps \<Rightarrow> u32 \<rightharpoonup> 'n \<times> callback) \<Rightarrow> ('ps \<Rightarrow> 'n publication list)
       \<Rightarrow> ('ps, 'j, 'u) IceFlow \<Rightarrow> ('ps, 'j, 'u) IceFlow \<Rightarrow> bool" where
  "node_evolves invar subs pubs f f' \<longleftrightarrow>
     producer_edges f' = producer_edges f \<and>
     same_handles (m_iceflowConsumers f) (m_iceflowConsumers f') \<and>
     invar (m_svsPubSub f') \<and> subs (m_svsPubSub f') = subs (m_svsPubSub f) \<and>
     (\<exists>new. pubs (m_svsPubSub f') = pubs (m_svsPubSub f) @ new)"

lemma same_handles_refl [simp]: "same_handles m m"
  by (simp add: same_handles_def)

lemma same_handles_keys: "same_handles m m' \<Longrightarrow> map fst m' = map fst m"
proof -
  assume "same_handles m m'"
  then have "map fst (map (\<lambda>(k, c). (k, m_subTopic c, m_subscriptionHandles c)) m') =
      map fst (map (\<lambda>(k, c). (k, m_subTopic c, m_subscriptionHandles c)) m)"
    by (simp add: same_handles_def)
  then show ?thesis by (simp add: comp_def split_beta)
qed

lemma map_of_map_value: "map_of (map (\<lambda>(k, v). (k, g v)) xs) e = map_option g (map_of xs e)"
  by (induction xs) auto

lemma same_handles_lookup:
  assumes "same_handles m m'"
  shows "map_option (\<lambda>c. (m_subTopic c, m_subscriptionHandles c)) (map_of m' e) =
    map_option (\<lambda>c. (m_subTopic c, m_subscriptionHandles c)) (map_of m e)"
  using arg_cong [OF assms [unfolded same_handles_def], of "\<lambda>m. map_of m e"]
  by (simp add: map_of_map_value)

lemma same_handles_adjust:
  assumes "map_of m e = Some c" and "m_subTopic c' = m_subTopic c"
    and "m_subscriptionHandles c' = m_subscriptionHandles c"
  shows "same_handles m (adjust e (\<lambda>_. c') m)"
  using assms by (induction m) (auto simp: same_handles_def split: if_splits)

lemma evolves_refl: "invar (m_svsPubSub f) \<Longrightarrow> node_evolves invar subs pubs f f"
  by (simp add: node_evolves_def)

lemma evolves_trans:
  "node_evolves invar subs pubs f g \<Longrightarrow> node_evolves invar subs pubs g h \<Longrightarrow>
     node_evolves invar subs pubs f h"
  by (auto simp: node_evolves_def same_handles_def)

lemma evolves_invar: "node_evolves invar subs pubs f f' \<Longrightarrow> invar (m_svsPubSub f')"
  by (simp add: node_evolves_def)

lemma evolves_live:
  assumes "node_evolves invar subs pubs f f'" and "node_live S subs f"
  shows "node_live S subs f'"
  unfolding node_live_def
proof (intro allI impI)
  fix e c'
  assume c': "map_of (m_iceflowConsumers f') e = Some c'"
  have "same_handles (m_iceflowConsumers f) (m_iceflowConsumers f')"
    and subs: "subs (m_svsPubSub f') = subs (m_svsPubSub f)"
    using assms(1) by (simp_all add: node_evolves_def)
  from same_handles_lookup [OF this(1), of e] c' obtain c where
    c: "map_of (m_iceflowConsumers f) e = Some c" "m_subTopic c' = m_subTopic c"
      "m_subscriptionHandles c' = m_subscriptionHandles c"
    by (cases "map_of (m_iceflowConsumers f) e") simp_all
  then have "partition_sub S e c' = partition_sub S e c"
    by (simp add: partition_sub_def consumer_prepareDataName_def fun_eq_iff)
  with assms(2) c subs show "distinct (m_subscriptionHandles c') \<and>
      (\<forall>h \<in> set (m_subscriptionHandles c'). \<exists>p. subs (m_svsPubSub f') h = Some (partition_sub S e c' p))"
    unfolding node_live_def by simp
qed

section \<open>Pushing\<close>

lemma pushData_frame [simp]:
  "m_iceflowConsumers (snd (pushData S d e f)) = m_iceflowConsumers f"
  "m_running (snd (pushData S d e f)) = m_running f"
  by (simp_all add: pushData_def split_beta Let_def split: option.split)

lemma runScript_frame [simp]:
  "m_iceflowConsumers (fst (snd (runScript S pushes r a f))) = m_iceflowConsumers f"
  "m_running (fst (snd (runScript S pushes r a f))) = m_running f"
proof (induction S pushes r a f rule: runScript.induct)
  case (1 S outcome a f)
  {
    case 1 show ?case by simp
  next
    case 2 show ?case by simp
  }
next
  case (2 S edge data a1 pushes outcome a f)
  note IH = 2
  show "m_iceflowConsumers (fst (snd (runScript S ((edge, data, a1) # pushes) outcome a f))) = m_iceflowConsumers f"
    and "m_running (fst (snd (runScript S ((edge, data, a1) # pushes) outcome a f))) = m_running f"
    using IH pushData_frame [of S data edge f]
    by (auto split: prod.splits sum.splits simp del: pushData_frame)
qed

text \<open>
  What one successful push adds, given the producers of the node: the payload, on a partition of
  the edge's topic that is below the number of partitions, with the node prefix.
\<close>

definition published_by ::
    "('ps, 'n) ndn_ops \<Rightarrow> (string \<rightharpoonup> IceflowProducer) \<Rightarrow> string \<times> byte list \<times> 'a
       \<Rightarrow> 'n publication \<Rightarrow> bool" where
  "published_by S producers = (\<lambda>(e, d, _) (n, d', who, _). d' = d \<and>
     (\<exists>p q. producers e = Some p \<and> n = producer_prepareDataName S p q \<and>
        (m_numberOfPartitions p = 0 \<or> q < m_numberOfPartitions p) \<and>
        who = Some (name_of S (producer_nodePrefix p))))"

lemma mod_below: "n = 0 \<or> r mod n < n" for n :: u32
proof (cases "n = 0")
  case False
  then have "0 < unat n" by (simp add: unat_gt_0)
  then show ?thesis by (simp add: word_less_nat_alt unat_mod)
qed simp

abbreviation next_rng :: "IceflowProducer \<Rightarrow> IceflowProducer" where
  "next_rng p \<equiv> p\<lparr>m_randomNumberGenerator := snd (mt19937_next (m_randomNumberGenerator p))\<rparr>"

lemma published_by_next:
  "published_by S (m(e := map_option next_rng (m e))) = published_by S m"
proof -
  have name: "producer_prepareDataName S (next_rng p) = producer_prepareDataName S p" for p
    by (simp add: producer_prepareDataName_def fun_eq_iff)
  show ?thesis
    by (force simp: published_by_def fun_eq_iff name split: if_splits)
qed

lemma pushData_known:
  assumes "svs S invar used subs pubs store" and "invar (m_svsPubSub f)"
    and "e \<in> set (producer_edges f)"
  shows "\<exists>f' x. pushData S d e f = (Inr (), f') \<and> node_evolves invar subs pubs f f' \<and>
    pubs (m_svsPubSub f') = pubs (m_svsPubSub f) @ [x] \<and>
    published_by S (map_of (m_iceflowProducers f)) (e, d, a) x \<and>
    map_of (m_iceflowProducers f') = (map_of (m_iceflowProducers f))
      (e := map_option next_rng (map_of (m_iceflowProducers f) e))"
proof -
  obtain p where p: "map_of (m_iceflowProducers f) e = Some p"
    using assms(3) by (metis domD dom_map_of_conv_image_fst list.set_map)
  let ?p = "p\<lparr>m_randomNumberGenerator := snd (mt19937_next (m_randomNumberGenerator p))\<rparr>"
  let ?q = "fst (mt19937_next (m_randomNumberGenerator p)) mod m_numberOfPartitions p"
  obtain seq ps' where pub: "svs_publish S (m_svsPubSub f) (producer_prepareDataName S p ?q) d
      (Some (name_of S (producer_nodePrefix p))) = (seq, ps')"
    by (cases "svs_publish S (m_svsPubSub f) (producer_prepareDataName S p ?q) d
      (Some (name_of S (producer_nodePrefix p)))")
  have "producer_prepareDataName S ?p = producer_prepareDataName S p"
    by (simp add: producer_prepareDataName_def fun_eq_iff)
  then have push: "producer_pushData S d p (Some (m_svsPubSub f)) = (?p, Some ps')"
    by (simp add: producer_pushData_def getNextPartitionNumber_def split_beta Let_def pub)
  let ?f = "f\<lparr>m_svsPubSub := ps', m_iceflowProducers := adjust e (\<lambda>_. ?p) (m_iceflowProducers f)\<rparr>"
  have "pushData S d e f = (Inr (), ?f)" by (simp add: pushData_def p push)
  moreover have "node_evolves invar subs pubs f ?f"
    using svs.publish [OF assms(1,2) pub] by (simp add: node_evolves_def)
  moreover have "published_by S (map_of (m_iceflowProducers f)) (e, d, a)
      (producer_prepareDataName S p ?q, d, Some (name_of S (producer_nodePrefix p)), seq)"
    using p mod_below by (auto simp: published_by_def)
  ultimately show ?thesis
    using svs.publish [OF assms(1,2) pub] p
    by (intro exI [of _ ?f] exI conjI) (auto simp: map_of_adjust fun_eq_iff)
qed

text \<open>
  A script runs up to its first push to an edge the node has no producer for. The pushes before
  it are published in order, and its exception is the outcome.
\<close>

definition has_producer :: "('ps, 'j, 'u) IceFlow \<Rightarrow> string \<times> byte list \<times> 'a \<Rightarrow> bool" where
  "has_producer f = (\<lambda>(e, _). e \<in> set (producer_edges f))"

lemma has_producer_evolves:
  "node_evolves invar subs pubs f f' \<Longrightarrow> has_producer f' = has_producer f"
  by (simp add: node_evolves_def has_producer_def fun_eq_iff)

lemma runScript_effect:
  assumes "svs S invar used subs pubs store" and "invar (m_svsPubSub f)"
  shows "\<exists>f' new. node_evolves invar subs pubs f f' \<and>
    pubs (m_svsPubSub f') = pubs (m_svsPubSub f) @ new \<and>
    list_all2 (published_by S (map_of (m_iceflowProducers f))) (takeWhile (has_producer f) pushes) new \<and>
    runScript S pushes r a f =
      (case dropWhile (has_producer f) pushes of
         [] \<Rightarrow> (r, f', a)
       | (e, _, a1) # _ \<Rightarrow> (Inl (no_producer e), f', a1))"
  using assms(2)
proof (induction pushes arbitrary: f)
  case Nil
  then show ?case using evolves_refl by (intro exI [of _ f] exI [of _ "[]"]) simp
next
  case (Cons push pushes)
  obtain e d a1 where push: "push = (e, d, a1)" by (cases push)
  show ?case
  proof (cases "e \<in> set (producer_edges f)")
    case False
    then have "pushData S d e f = (Inl (no_producer e), f)"
      by (simp add: pushData_def map_of_unknown)
    with False push evolves_refl [of invar f, OF Cons.prems] show ?thesis
      by (intro exI [of _ f] exI [of _ "[]"]) (simp add: has_producer_def)
  next
    case True
    from pushData_known [OF assms(1) Cons.prems True, of d a1] obtain f1 x where
      f1: "pushData S d e f = (Inr (), f1)" "node_evolves invar subs pubs f f1"
        "pubs (m_svsPubSub f1) = pubs (m_svsPubSub f) @ [x]"
        "published_by S (map_of (m_iceflowProducers f)) (e, d, a1) x"
        "map_of (m_iceflowProducers f1) =
           (map_of (m_iceflowProducers f))(e := map_option next_rng (map_of (m_iceflowProducers f) e))"
      by blast
    from Cons.IH [OF evolves_invar [OF f1(2)]] obtain f' new where
      f': "node_evolves invar subs pubs f1 f'" "pubs (m_svsPubSub f') = pubs (m_svsPubSub f1) @ new"
        "list_all2 (published_by S (map_of (m_iceflowProducers f))) (takeWhile (has_producer f) pushes) new"
        "runScript S pushes r a f1 =
          (case dropWhile (has_producer f) pushes of
             [] \<Rightarrow> (r, f', a) | (e, _, a1) # _ \<Rightarrow> (Inl (no_producer e), f', a1))"
      unfolding f1(5) published_by_next has_producer_evolves [OF f1(2)] by blast
    have "has_producer f push" using True push by (simp add: has_producer_def)
    with f1 f' push evolves_trans [OF f1(2) f'(1)] show ?thesis
      by (intro exI [of _ f'] exI [of _ "x # new"]) simp
  qed
qed

section \<open>Receiving data\<close>

lemma adjust_same: "map_of m k = Some v \<Longrightarrow> adjust k (\<lambda>_. v) m = m"
  by (induction m) (auto split: if_splits)

lemma onConsumerData_raised:
  assumes "map_of (m_iceflowConsumers f) e = Some c" and "m_consumerCallback c = Some cb"
    and "invokeCallback S app cb (sub_data d) (f, a) = (Inl x, f1, a1)"
    and "m_iceflowConsumers f1 = m_iceflowConsumers f"
  shows "onConsumerData S J app e d now (f, a) = (Inl x, f1, a1)"
  using assms by (simp add: onConsumerData_def subscribeCallBack_def adjust_same)

lemma onConsumerData_returned:
  assumes "map_of (m_iceflowConsumers f) e = Some c" and "m_consumerCallback c = Some cb"
    and "invokeCallback S app cb (sub_data d) (f, a) = (Inr (), f1, a1)"
  shows "onConsumerData S J app e d now (f, a) =
    (Inr (), f1\<lparr>m_svsPubSub := snd (svs_publish S (m_svsPubSub f1) (backchannelName S (m_subTopic c))
                                   (ackPayload J (sub_seqNo d)) None),
                m_iceflowConsumers := adjust e (\<lambda>_. consumer_saveTimestamp now c) (m_iceflowConsumers f1)\<rparr>,
     a1)"
  using assms by (simp add: onConsumerData_def subscribeCallBack_def Let_def)

lemma ack_published:
  assumes "svs S invar used subs pubs store" and "invar (m_svsPubSub f)"
    and "map_of (m_iceflowConsumers f) e = Some c"
  shows "\<exists>seq. node_evolves invar subs pubs f
      (f\<lparr>m_svsPubSub := snd (svs_publish S (m_svsPubSub f) n ack None),
         m_iceflowConsumers := adjust e (\<lambda>_. consumer_saveTimestamp now c) (m_iceflowConsumers f)\<rparr>) \<and>
    pubs (snd (svs_publish S (m_svsPubSub f) n ack None)) =
      pubs (m_svsPubSub f) @ [(n, ack, None, seq)]"
proof -
  obtain seq ps where "svs_publish S (m_svsPubSub f) n ack None = (seq, ps)"
    by (cases "svs_publish S (m_svsPubSub f) n ack None")
  from svs.publish [OF assms(1,2) this] this show ?thesis
    using same_handles_adjust [OF assms(3), of "consumer_saveTimestamp now c"]
    by (auto simp: node_evolves_def)
qed

lemma invokeCallback_evolves:
  assumes "svs S invar used subs pubs store" and "invar (m_svsPubSub f)"
    and "invokeCallback S app cb data (f, a) = (r, f1, a1)"
  shows "node_evolves invar subs pubs f f1" and "m_iceflowConsumers f1 = m_iceflowConsumers f"
    and "m_running f1 = m_running f"
proof -
  have "node_evolves invar subs pubs f f1 \<and> m_iceflowConsumers f1 = m_iceflowConsumers f \<and>
      m_running f1 = m_running f"
  proof (cases cb)
    case (Plain u)
    with assms(3) have "f1 = f" by (auto split: prod.splits)
    with assms(2) show ?thesis by (simp add: evolves_refl)
  next
    case (Prosumer u)
    then obtain pushes r' a' where run: "runScript S pushes r' a' f = (r, f1, a1)"
      using assms(3) by (auto split: prod.splits)
    have "node_evolves invar subs pubs f f1"
      using runScript_effect [OF assms(1,2), of pushes r' a'] run
      by (cases "dropWhile (has_producer f) pushes") auto
    with run runScript_frame [of S pushes r' a' f] show ?thesis by simp
  qed
  then show "node_evolves invar subs pubs f f1" and "m_iceflowConsumers f1 = m_iceflowConsumers f"
    and "m_running f1 = m_running f" by simp_all
qed

lemma onConsumerData_evolves:
  assumes "svs S invar used subs pubs store" and "invar (m_svsPubSub f)"
    and "onConsumerData S J app e d now (f, a) = (r, f', a')"
  shows "node_evolves invar subs pubs f f' \<and> m_running f' = m_running f"
proof (cases "map_of (m_iceflowConsumers f) e")
  case None
  with assms show ?thesis by (simp add: onConsumerData_def evolves_refl)
next
  case c: (Some c)
  show ?thesis
  proof (cases "m_consumerCallback c")
    case None
    with assms c show ?thesis
      by (auto simp: onConsumerData_def subscribeCallBack_def adjust_same evolves_refl)
  next
    case (Some cb)
    obtain r1 f1 a1 where inv1: "invokeCallback S app cb (sub_data d) (f, a) = (r1, f1, a1)"
      by (cases "invokeCallback S app cb (sub_data d) (f, a)") auto
    note step = invokeCallback_evolves [OF assms(1,2) inv1]
    show ?thesis
    proof (cases r1)
      case (Inl x)
      with onConsumerData_raised [OF c Some inv1 [unfolded Inl] step(2)]
        step assms(3)
      show ?thesis by simp
    next
      case (Inr u)
      have c1: "map_of (m_iceflowConsumers f1) e = Some c"
        using c step(2) by simp
      from Inr onConsumerData_returned [OF c Some, of S app d a f1 a1] inv1
      show ?thesis
        using ack_published [OF assms(1) evolves_invar [OF step(1)] c1] evolves_trans [OF step(1)]
          step(3) assms(3) by auto
    qed
  qed
qed

lemma handleEvent_evolves:
  assumes "svs S invar used subs pubs store" and "invar (m_svsPubSub f)"
    and "handleEvent S J app ev (f, a) = (r, f', a')"
  shows "node_evolves invar subs pubs f f' \<and> (m_running f' \<longleftrightarrow> m_running f \<and> ev \<noteq> Shutdown)"
proof (cases ev)
  case (Arrived cb d now)
  show ?thesis
  proof (cases cb)
    case (Consumer_callback e)
    with Arrived assms(3) onConsumerData_evolves [OF assms(1,2)] show ?thesis by force
  next
    case (Backchannel_handler np sp)
    obtain r1 ps where ps: "handleBackchannel S J np sp d (m_svsPubSub f) = (r1, ps)"
      by (cases "handleBackchannel S J np sp d (m_svsPubSub f)")
    have "invar ps \<and> subs ps = subs (m_svsPubSub f) \<and> pubs ps = pubs (m_svsPubSub f)"
      using ps assms(2) svs.erase_simps [OF assms(1)]
      by (auto simp: handleBackchannel_def Let_def split: sum.splits if_splits)
    with Arrived Backchannel_handler ps assms(3) show ?thesis by (auto simp: node_evolves_def)
  qed
qed (use assms evolves_refl in \<open>auto simp: shutdown_def node_evolves_def\<close>)

lemma processEvents_evolves:
  assumes "svs S invar used subs pubs store" and "invar (m_svsPubSub f)"
    and "processEvents S J app es (f, a) = (r, f', a')"
  shows "node_evolves invar subs pubs f f' \<and> (m_running f' \<longrightarrow> m_running f)"
  using assms(2,3)
proof (induction es arbitrary: f a)
  case Nil
  then show ?case by (simp add: evolves_refl)
next
  case (Cons ev es)
  obtain r1 f1 a1 where ev: "handleEvent S J app ev (f, a) = (r1, f1, a1)"
    by (cases "handleEvent S J app ev (f, a)") auto
  note step = handleEvent_evolves [OF assms(1) Cons.prems(1) ev]
  show ?case
  proof (cases r1)
    case (Inl x)
    with ev step Cons.prems(2) show ?thesis by simp
  next
    case (Inr u)
    with ev Cons.prems(2) have "processEvents S J app es (f1, a1) = (r, f', a')" by simp
    from Cons.IH [OF _ this] step show ?thesis
      using evolves_invar evolves_trans by blast
  qed
qed

lemma eventLoop_evolves:
  assumes "svs S invar used subs pubs store" and "invar (m_svsPubSub f)"
    and "eventLoop S J app batches (f, a) = (r, f', a')"
  shows "node_evolves invar subs pubs f f' \<and> (r = Stopped \<longrightarrow> \<not> m_running f') \<and>
    (r = Running \<longrightarrow> m_running f')"
  using assms(2,3)
proof (induction batches arbitrary: f a)
  case Nil
  then show ?case by (auto simp: evolves_refl split: if_splits)
next
  case (Cons batch batches)
  show ?case
  proof (cases "m_running f")
    case False
    with Cons.prems show ?thesis by (simp add: evolves_refl)
  next
    case True
    obtain r1 f1 a1 where ev: "processEvents S J app batch (f, a) = (r1, f1, a1)"
      by (cases "processEvents S J app batch (f, a)") auto
    have step: "node_evolves invar subs pubs f f1"
      using processEvents_evolves [OF assms(1) Cons.prems(1) ev] by blast
    have "eventLoop S J app batches (f1, a1) = (r, f', a') \<or> (\<exists>x. r = Crashed x \<and> f' = f1)"
      using Cons.prems(2) ev True by (auto split: sum.splits if_splits)
    then show ?thesis
      using Cons.IH [of f1 a1] step evolves_invar [OF step] evolves_trans [OF step] by blast
  qed
qed

lemma invokeCallback_prosumer:
  "run_prosumer app u data a = (pushes, r, a') \<Longrightarrow>
     invokeCallback S app (Prosumer u) data (f, a) = runScript S pushes r a' f"
  by simp

lemma has_producer_all:
  "list_all (has_producer f) xs \<longleftrightarrow> dropWhile (has_producer f) xs = []"
  "list_all (has_producer f) xs \<Longrightarrow> takeWhile (has_producer f) xs = xs"
  by (simp_all add: list_all_iff takeWhile_eq_all_conv)

lemma prosumer_unit:
  assumes "svs S invar used subs pubs store" and "invar (m_svsPubSub f)"
    and "map_of (m_iceflowConsumers f) e = Some c" and "m_consumerCallback c = Some (Prosumer u)"
    and "run_prosumer app u (sub_data d) a = (pushes, Inr (), a')"
    and "list_all (has_producer f) pushes"
  shows "\<exists>f' new seq. onConsumerData S J app e d now (f, a) = (Inr (), f', a') \<and>
    pubs (m_svsPubSub f') = pubs (m_svsPubSub f) @ new @
      [(backchannelName S (m_subTopic c), ackPayload J (sub_seqNo d), None, seq)] \<and>
    list_all2 (published_by S (map_of (m_iceflowProducers f))) pushes new \<and>
    map_of (m_iceflowConsumers f') =
      (map_of (m_iceflowConsumers f))(e \<mapsto> consumer_saveTimestamp now c)"
proof -
  obtain f1 new where f1: "runScript S pushes (Inr ()) a' f = (Inr (), f1, a')"
    "pubs (m_svsPubSub f1) = pubs (m_svsPubSub f) @ new"
    "list_all2 (published_by S (map_of (m_iceflowProducers f))) pushes new"
    using runScript_effect [OF assms(1,2), of pushes "Inr ()" a'] has_producer_all(2) [OF assms(6)]
      assms(6) [unfolded has_producer_all(1)] by auto
  note inv1 = invokeCallback_prosumer [OF assms(5), of S f, unfolded f1(1)]
  note step = invokeCallback_evolves [OF assms(1,2) inv1]
  have "map_of (m_iceflowConsumers f1) e = Some c" using step(2) assms(3) by simp
  from ack_published [OF assms(1) evolves_invar [OF step(1)] this] obtain seq where
    "pubs (snd (svs_publish S (m_svsPubSub f1) (backchannelName S (m_subTopic c))
        (ackPayload J (sub_seqNo d)) None)) =
     pubs (m_svsPubSub f1) @ [(backchannelName S (m_subTopic c), ackPayload J (sub_seqNo d), None, seq)]"
    by blast
  with onConsumerData_returned [OF assms(3,4) inv1] f1 step(2) assms(3) show ?thesis
    by (auto simp: map_of_adjust)
qed

section \<open>An example node\<close>

text \<open>
  A node that has subscribed and registered a prosumer callback; its application doubles each
  unit, and fails on an empty one after a first push.
\<close>

definition example_app :: "(nat, nat) application" where
  "example_app =
     \<lparr>run_plain = (\<lambda>u data a. (Inr (), a)),
      run_prosumer = (\<lambda>u data a.
        if data = [] then ([(''l2w'', [0], a)], Inl (Foreign_exception 0), a)
        else ([(''l2w'', data, a), (''l2w'', rev data, a + 1)], Inr (), a + 2))\<rparr>"

definition example_prosumer :: "(ref_svs, jval, nat) IceFlow" where
  "example_prosumer = snd (registerProsumerCallback 0 ''t2l'' example_subscribed)"

definition example_data :: "byte list \<Rightarrow> component list SubscriptionData" where
  "example_data d = \<lparr>sub_name = [], sub_data = d, sub_seqNo = 9\<rparr>"

lemma example_prosumer_sels:
  "m_svsPubSub example_prosumer = m_svsPubSub example_subscribed"
  "map_of (m_iceflowConsumers example_prosumer) ''t2l'' =
     Some ((storedConsumer ''/app'' ''t2l'' None 0)\<lparr>m_subscriptionHandles := [2, 3],
       m_consumerCallback := Some (Prosumer 0)\<rparr>)"
  "producer_edges example_prosumer = [''l2w'']"
  "m_running example_prosumer = False"
  by (simp_all add: example_prosumer_def registerProsumerCallback_def registerConsumerCallback_def
      example_subscribed_def repartitionConsumer_def example_subscribed_sels setConsumerCallback_def
      example_iceflow_sels example_iceflow_edges split_beta Let_def map_of_adjust
      repartition_def unsubscribeFromAllPartitions_def subscribeToTopicPartition_def newConsumer_def
      ref_subscribe_def)

lemma example_prosumer_inv: "ref_inv (m_svsPubSub example_prosumer)"
  by (simp add: example_prosumer_sels example_subscribed_sels ref_inv_def)

lemma example_prosumer_live: "node_live ref_ndn ref_subs example_prosumer"
proof -
  have "m_iceflowConsumers example_prosumer = [(''t2l'', (storedConsumer ''/app'' ''t2l'' None 0)
      \<lparr>m_subscriptionHandles := [2, 3], m_consumerCallback := Some (Prosumer 0)\<rparr>)]"
    by (simp add: example_prosumer_def registerProsumerCallback_def registerConsumerCallback_def
        example_subscribed_sels setConsumerCallback_def)
  then show ?thesis
    by (auto simp: node_live_def example_prosumer_sels example_subscribed_sels partition_sub_def
        consumer_prepareDataName_def newConsumer_def ref_subs_def ref_name_of_def
        intro: exI [of _ 1] exI [of _ 3])
qed

section \<open>Properties\<close>

text \<open>
  C17: a unit is acknowledged after all its results are out. When a prosumer callback pushes only
  to edges of the node and returns, the handler publishes one data packet per push, in the order
  of the pushes, on a partition of the right topic, then exactly one acknowledgement on the back
  channel of the topic the unit came from, carrying the unit's sequence number; the consumer has
  saved the timestamp.
\<close>

theorem prosumer_acknowledges_last:
  assumes "svs S invar used subs pubs store" and "invar (m_svsPubSub f)"
    and "map_of (m_iceflowConsumers f) e = Some c" and "m_consumerCallback c = Some (Prosumer u)"
    and "run_prosumer app u (sub_data d) a = (pushes, Inr (), a')"
    and "list_all (has_producer f) pushes"
  shows "\<exists>f' new seq. onConsumerData S J app e d now (f, a) = (Inr (), f', a') \<and>
    pubs (m_svsPubSub f') = pubs (m_svsPubSub f) @ new @
      [(backchannelName S (m_subTopic c), ackPayload J (sub_seqNo d), None, seq)] \<and>
    list_all2 (published_by S (map_of (m_iceflowProducers f))) pushes new \<and>
    map_of (m_iceflowConsumers f') =
      (map_of (m_iceflowConsumers f))(e \<mapsto> consumer_saveTimestamp now c)"
  using prosumer_unit [OF assms] .

theorem prosumer_acknowledges_last_witness:
  "\<exists>f' q r s t ack. onConsumerData ref_ndn ref_json example_app ''t2l'' (example_data [1, 2]) 50
      (example_prosumer, 0) = (Inr (), f', 2) \<and>
    map (\<lambda>(n, d, _). (n, d)) (rs_pubs (m_svsPubSub f')) =
      [(q, [1, 2]), (r, [2, 1]), ([Text ''app'', Text ''t2l'', Text ''backchannel''], ack)] \<and>
    ack = ackPayload ref_json 9"
proof -
  have "list_all (has_producer example_prosumer) [(''l2w'', [1, 2], 0), (''l2w'', [2, 1], 0 + 1)]"
    by (simp add: has_producer_def example_prosumer_sels)
  from prosumer_acknowledges_last [OF ref_svs.svs_axioms example_prosumer_inv
      example_prosumer_sels(2) _ _ this, where u = 0 and app = example_app and a = 0 and a' = 2 and
      d = "example_data [1, 2]" and J = ref_json and now = 50]
  show ?thesis
    by (auto simp: example_app_def example_data_def list_all2_Cons1 published_by_def
        example_prosumer_sels example_subscribed_sels backchannelName_def newConsumer_def ref_name_of_def)
qed

text \<open>
  C18: a failing callback is not acknowledged. When a prosumer callback throws, or pushes to an
  edge the node has no producer for, the exception leaves the handler: nothing is published but
  the results pushed before the failure, no timestamp is saved, every consumer is as before.
\<close>

theorem prosumer_failure_unacknowledged:
  assumes "svs S invar used subs pubs store" and "invar (m_svsPubSub f)"
    and "map_of (m_iceflowConsumers f) e = Some c" and "m_consumerCallback c = Some (Prosumer u)"
    and "run_prosumer app u (sub_data d) a = (pushes, r, a')"
    and "\<not> list_all (has_producer f) pushes \<or> r = Inl x"
  shows "\<exists>y f' a'' new. onConsumerData S J app e d now (f, a) = (Inl y, f', a'') \<and>
    pubs (m_svsPubSub f') = pubs (m_svsPubSub f) @ new \<and>
    list_all2 (published_by S (map_of (m_iceflowProducers f))) (takeWhile (has_producer f) pushes) new \<and>
    m_iceflowConsumers f' = m_iceflowConsumers f"
proof -
  obtain f1 new a1 y where f1: "runScript S pushes r a' f = (Inl y, f1, a1)"
    "pubs (m_svsPubSub f1) = pubs (m_svsPubSub f) @ new"
    "list_all2 (published_by S (map_of (m_iceflowProducers f))) (takeWhile (has_producer f) pushes) new"
    using runScript_effect [OF assms(1,2), of pushes r a'] assms(6)
    by (cases "dropWhile (has_producer f) pushes") (auto simp: has_producer_all(1))
  note inv1 = invokeCallback_prosumer [OF assms(5), of S f, unfolded f1(1)]
  note step = invokeCallback_evolves [OF assms(1,2) inv1]
  from onConsumerData_raised [OF assms(3,4) inv1 step(2)] f1 step(2) show ?thesis by blast
qed

theorem prosumer_failure_unacknowledged_witness:
  "\<exists>y f' a''. onConsumerData ref_ndn ref_json example_app ''t2l'' (example_data []) 50
      (example_prosumer, 0) = (Inl y, f', a'') \<and>
    map (\<lambda>(n, d, _). d) (rs_pubs (m_svsPubSub f')) = [[0]]"
proof -
  have "run_prosumer example_app 0 (sub_data (example_data [])) 0 =
      ([(''l2w'', [0], 0)], Inl (Foreign_exception 0), 0)"
    by (simp add: example_app_def example_data_def)
  from prosumer_failure_unacknowledged [OF ref_svs.svs_axioms example_prosumer_inv
      example_prosumer_sels(2) _ this, where J = ref_json and now = 50 and x = "Foreign_exception 0"]
  show ?thesis
    by (auto simp: has_producer_def example_prosumer_sels example_subscribed_sels
        list_all2_Cons1 published_by_def)
qed

text \<open>
  What a running node keeps when its callbacks use it only to push and no other thread calls it
  (\<open>Application_Calls\<close> has the other calls). Whatever data arrives and however the run ends, the node
  has the same edges, the same live subscriptions, and all its earlier publications; if the loop has
  stopped, \<open>run\<close> may be called again. On a node that is already running \<open>run\<close> throws and starts
  nothing.
\<close>

theorem run_keeps_node:
  assumes "svs S invar used subs pubs store" and "invar (m_svsPubSub f)"
    and "node_live S subs f"
  shows "case run S J app batches (f, a) of
      Inl x \<Rightarrow> m_running f \<and> is_runtime_error x
    | Inr (r, f', a') \<Rightarrow> \<not> m_running f \<and> node_live S subs f' \<and>
        producer_edges f' = producer_edges f \<and> consumer_edges f' = consumer_edges f \<and>
        subs (m_svsPubSub f') = subs (m_svsPubSub f) \<and>
        (\<exists>new. pubs (m_svsPubSub f') = pubs (m_svsPubSub f) @ new) \<and>
        (r = Stopped \<longrightarrow> \<not> m_running f')"
proof (cases "m_running f")
  case True
  then show ?thesis by (simp add: run_def)
next
  case False
  obtain r f' a' where loop: "eventLoop S J app batches (f\<lparr>m_running := True\<rparr>, a) = (r, f', a')"
    by (cases "eventLoop S J app batches (f\<lparr>m_running := True\<rparr>, a)") auto
  have "invar (m_svsPubSub (f\<lparr>m_running := True\<rparr>))" using assms(2) by simp
  note ev = eventLoop_evolves [OF assms(1) this loop]
  have "node_evolves invar subs pubs f f'" using ev by (simp add: node_evolves_def)
  with evolves_live [OF this assms(3)] ev loop False show ?thesis
    by (auto simp: run_def node_evolves_def dest: same_handles_keys)
qed

theorem run_keeps_node_witness:
  "case run ref_ndn ref_json example_app
      [[Arrived (Consumer_callback ''t2l'') (example_data [5]) 50, Shutdown]] (example_prosumer, 0) of
     Inl x \<Rightarrow> False
   | Inr (r, f', a') \<Rightarrow> node_live ref_ndn ref_subs f' \<and> consumer_edges f' = consumer_edges example_prosumer"
proof -
  from run_keeps_node [OF ref_svs.svs_axioms example_prosumer_inv example_prosumer_live, of ref_json example_app
      "[[Arrived (Consumer_callback ''t2l'') (example_data [5]) 50, Shutdown]]" 0]
  show ?thesis by (auto simp: example_prosumer_sels split: sum.splits)
qed

text \<open>
  C23: \<open>shutdown\<close> takes effect after the current \<open>processEvents\<close>. Once a shutdown was handled
  inside a batch, the rest of that batch is still processed, and then the loop is over: no
  later batch has any effect, whatever it holds (and unless the rest of the batch throws
  something that is not a \<open>std::exception\<close>, the loop has stopped normally).
\<close>

theorem shutdown_stops_loop:
  assumes "svs S invar used subs pubs store" and "invar (m_svsPubSub f)" and "m_running f"
    and "processEvents S J app before (f, a) = (Inr (), f1, a1)"
  shows "eventLoop S J app ((before @ Shutdown # after) # batches) (f, a) =
    (case processEvents S J app after (shutdown f1, a1) of
       (Inr _, fa') \<Rightarrow> (Stopped, fa')
     | (Inl x, fa') \<Rightarrow> (if is_std_exception x then Stopped else Crashed x, fa'))"
proof -
  have "processEvents S J app (xs @ ys) fa =
      (case processEvents S J app xs fa of
         (Inl x, fa') \<Rightarrow> (Inl x, fa') | (Inr _, fa') \<Rightarrow> processEvents S J app ys fa')" for xs ys fa
    by (induction S J app xs fa rule: processEvents.induct) (auto split: prod.split sum.split)
  then have batch: "processEvents S J app (before @ Shutdown # after) (f, a) =
      processEvents S J app after (shutdown f1, a1)"
    by (simp add: assms(4))
  obtain r f' a' where after: "processEvents S J app after (shutdown f1, a1) = (r, f', a')"
    by (cases "processEvents S J app after (shutdown f1, a1)") auto
  have "invar (m_svsPubSub (shutdown f1))"
    using processEvents_evolves [OF assms(1,2,4)] by (auto simp: shutdown_def dest: evolves_invar)
  from processEvents_evolves [OF assms(1) this after] have "\<not> m_running f'"
    by (simp add: shutdown_def)
  then have "eventLoop S J app bs (f', a') = (Stopped, f', a')" for bs
    by (cases bs) simp_all
  with assms(3) after show ?thesis by (auto simp: batch split: sum.split)
qed

theorem shutdown_stops_loop_witness:
  "fst (eventLoop ref_ndn ref_json example_app
     [[Face_error (Runtime_error ''x'')], [Shutdown], [Face_error (Foreign_exception 1)]]
     (example_prosumer\<lparr>m_running := True\<rparr>, 0)) = Stopped"
proof -
  have "ref_inv (m_svsPubSub (example_prosumer\<lparr>m_running := True\<rparr>))"
    using example_prosumer_inv by simp
  from shutdown_stops_loop [OF ref_svs.svs_axioms this, of ref_json example_app "[]" 0 _ 0 "[]"
      "[[Face_error (Foreign_exception 1)]]"] show ?thesis by simp
qed

end
