(* ===== verification/Measurements.thy ===== *)
theory Measurements
  imports Prelude
begin

text \<open>
  \<open>Measurement\<close>: \<open>include/iceflow/measurements.hpp\<close> and \<open>src/measurements.cpp\<close>. The file
  system and the clock are explicit. A file is opened for writing when the directory of its path
  exists; a stream that could not be opened swallows what is written to it, as
  \<open>std::ofstream\<close> does. \<open>m_fileCount\<close> is an \<open>int\<close> whose overflow would be undefined behaviour
  after \<open>2 ^ 31 - 1\<close> files; it is not bounded here.
\<close>

section \<open>The file system\<close>

record file_system =
  directories :: "string set"
  files :: "string \<rightharpoonup> string"

definition dirname :: "string \<Rightarrow> string" where
  "dirname path = rev (drop 1 (dropWhile (\<lambda>c. c \<noteq> CHR ''/'') (rev path)))"

text \<open>Opening with \<open>std::ios::out\<close> (which truncates), writing everything, closing.\<close>

definition write_file :: "string \<Rightarrow> string \<Rightarrow> file_system \<Rightarrow> file_system" where
  "write_file path contents fs =
     (if dirname path \<in> directories fs \<and> path \<notin> directories fs
      then fs\<lparr>files := (files fs)(path \<mapsto> contents)\<rparr> else fs)"

section \<open>State\<close>

record Entry =
  interest :: string
  entryname :: string
  timestamp :: u64
  entry_size :: u64

record Measurement =
  m_fileName :: string
  m_nodeName :: string
  m_measurementId :: string
  m_observedObject :: string
  m_fileCount :: int
  m_entries :: "Entry list"
  m_saveThreshold :: u64

section \<open>Operations\<close>

definition createMeasurementFolder :: "file_system \<Rightarrow> file_system" where
  "createMeasurementFolder fs =
     (if ''measurements'' \<in> directories fs \<or> ''measurements'' \<in> dom (files fs) then fs
      else fs\<lparr>directories := insert ''measurements'' (directories fs)\<rparr>)"

definition newMeasurement ::
    "string \<Rightarrow> string \<Rightarrow> u64 \<Rightarrow> string \<Rightarrow> file_system \<Rightarrow> Measurement \<times> file_system" where
  "newMeasurement measurementId nodeName saveThreshold observedObject fs =
     (\<lparr>m_fileName = [], m_nodeName = nodeName, m_measurementId = measurementId,
       m_observedObject = observedObject, m_fileCount = 0, m_entries = [],
       m_saveThreshold = saveThreshold\<rparr>,
      createMeasurementFolder fs)"

definition newline :: string where
  "newline = [CHR 0x0A]"

definition csv_header :: string where
  "csv_header = ''nodeName,observedObject,interest,entryname,timestamp,dataSize'' @ newline"

definition csv_line :: "Measurement \<Rightarrow> Entry \<Rightarrow> string" where
  "csv_line m e =
     m_nodeName m @ '','' @ m_observedObject m @ '','' @ interest e @ '','' @ entryname e @ '','' @
     to_string (unat (timestamp e)) @ '','' @ to_string (unat (entry_size e)) @ newline"

definition csv :: "Measurement \<Rightarrow> Entry list \<Rightarrow> string" where
  "csv m es = csv_header @ concat (map (csv_line m) es)"

definition partName :: "Measurement \<Rightarrow> int \<Rightarrow> string" where
  "partName m i =
     ''measurements/'' @ m_measurementId m @ ''_'' @ m_nodeName m @ ''_'' @ m_observedObject m @
     ''_part_'' @ to_string (nat i) @ ''.csv''"

definition recordToFile :: "Measurement \<Rightarrow> file_system \<Rightarrow> Measurement \<times> file_system" where
  "recordToFile m fs =
     (let count = m_fileCount m + 1;
          name = partName m count;
          fs' = write_file name (csv m (m_entries m)) fs
      in (m\<lparr>m_fileName := name, m_fileCount := count, m_entries := []\<rparr>, fs'))"

definition setField ::
    "u64 \<Rightarrow> string \<Rightarrow> string \<Rightarrow> u64 \<Rightarrow> Measurement \<Rightarrow> file_system \<Rightarrow> Measurement \<times> file_system" where
  "setField currentTimestamp interestName entryName dataSize m fs =
     (let entry = \<lparr>interest = interestName, entryname = entryName, timestamp = currentTimestamp,
                   entry_size = dataSize\<rparr>;
          m1 = m\<lparr>m_entries := m_entries m @ [entry]\<rparr>
      in if unat (m_saveThreshold m) \<le> length (m_entries m1) then recordToFile m1 fs else (m1, fs))"

text \<open>A sequence of entries, each with its time.\<close>

definition setEntry :: "Measurement \<times> file_system \<Rightarrow> Entry \<Rightarrow> Measurement \<times> file_system" where
  "setEntry mf e = setField (timestamp e) (interest e) (entryname e) (entry_size e) (fst mf) (snd mf)"

section \<open>What has been recorded\<close>

text \<open>
  The log a measurement stands for: the entries of its part files, in the order of their numbers,
  then the entries not yet written. \<open>parts\<close> are the contents of the files.
\<close>

definition same_series :: "Measurement \<Rightarrow> Measurement \<Rightarrow> bool" where
  "same_series m m' \<longleftrightarrow> m_nodeName m' = m_nodeName m \<and> m_measurementId m' = m_measurementId m \<and>
     m_observedObject m' = m_observedObject m \<and> m_saveThreshold m' = m_saveThreshold m"

definition holds_log :: "Measurement \<Rightarrow> file_system \<Rightarrow> Entry list list \<Rightarrow> Entry list \<Rightarrow> bool" where
  "holds_log m fs parts es \<longleftrightarrow>
     m_fileCount m = int (length parts) \<and>
     map (\<lambda>i. files fs (partName m (int i))) [1..<Suc (length parts)] = map (\<lambda>p. Some (csv m p)) parts \<and>
     concat parts @ m_entries m = es"

text \<open>The names the series writes to lie directly in the measurements folder.\<close>

definition flat_names :: "Measurement \<Rightarrow> bool" where
  "flat_names m \<longleftrightarrow> CHR ''/'' \<notin> set (m_measurementId m @ m_nodeName m @ m_observedObject m)"

lemma digit_not_slash: "d < 10 \<Longrightarrow> digit_char d \<noteq> CHR ''/''"
proof
  assume "d < 10" and "digit_char d = CHR ''/''"
  then have "(of_char (digit_char d) :: nat) = 47" by simp
  with \<open>d < 10\<close> show False by (simp add: digit_char_def of_char_of)
qed

lemma to_string_no_slash: "CHR ''/'' \<notin> set (to_string n)"
proof (induction n rule: to_string.induct)
  case (1 n)
  show ?case
  proof (cases "n < 10")
    case True
    then show ?thesis using digit_not_slash [of n] by (subst to_string.simps) simp
  next
    case False
    with 1 show ?thesis using digit_not_slash [of "n mod 10"] by (subst to_string.simps) simp
  qed
qed

lemma dirname_flat: "CHR ''/'' \<notin> set b \<Longrightarrow> dirname (a @ ''/'' @ b) = a"
proof -
  assume "CHR ''/'' \<notin> set b"
  then have "dropWhile (\<lambda>c. c \<noteq> CHR ''/'') (rev b @ (CHR ''/'' # rev a)) = CHR ''/'' # rev a"
    by (subst dropWhile_append2) auto
  then show ?thesis by (simp add: dirname_def)
qed

lemma partName_dirname: "flat_names m \<Longrightarrow> dirname (partName m i) = ''measurements''"
  using dirname_flat [of "m_measurementId m @ ''_'' @ m_nodeName m @ ''_'' @ m_observedObject m @
     ''_part_'' @ to_string (nat i) @ ''.csv''" "''measurements''"]
  by (simp add: partName_def flat_names_def to_string_no_slash)

lemma partName_inject: "0 \<le> i \<Longrightarrow> 0 \<le> j \<Longrightarrow> partName m i = partName m j \<longleftrightarrow> i = j"
  by (auto simp: partName_def nat_eq_iff2)

lemma same_series_names:
  assumes "same_series m m'"
  shows "partName m' = partName m" and "csv m' = csv m" and "flat_names m' = flat_names m"
proof -
  show "partName m' = partName m"
    using assms by (auto simp: same_series_def partName_def fun_eq_iff)
  have "csv_line m' = csv_line m"
    using assms by (auto simp: same_series_def csv_line_def fun_eq_iff)
  then show "csv m' = csv m" by (intro ext) (simp add: csv_def)
  show "flat_names m' = flat_names m" using assms by (simp add: same_series_def flat_names_def)
qed

lemma same_series_refl [simp]: "same_series m m"
  by (simp add: same_series_def)

lemma same_series_trans: "same_series m m' \<Longrightarrow> same_series m' m'' \<Longrightarrow> same_series m m''"
  by (simp add: same_series_def)

text \<open>Where the files of a series can be written.\<close>

definition writable :: "Measurement \<Rightarrow> file_system \<Rightarrow> bool" where
  "writable m fs \<longleftrightarrow> flat_names m \<and> ''measurements'' \<in> directories fs \<and>
     range (partName m) \<inter> directories fs = {}"

lemma recordToFile_series:
  "same_series m (fst (recordToFile m fs)) \<and> directories (snd (recordToFile m fs)) = directories fs"
  by (simp add: recordToFile_def same_series_def write_file_def Let_def)

lemma recordToFile_log:
  assumes "writable m fs" and "holds_log m fs parts es"
  shows "holds_log (fst (recordToFile m fs)) (snd (recordToFile m fs)) (parts @ [m_entries m]) es \<and>
    m_entries (fst (recordToFile m fs)) = []"
proof -
  let ?m = "fst (recordToFile m fs)" and ?fs = "snd (recordToFile m fs)"
  let ?k = "int (Suc (length parts))"
  have k: "m_fileCount m = int (length parts)" using assms(2) by (simp add: holds_log_def)
  then have m: "?m = m\<lparr>m_fileName := partName m ?k, m_fileCount := ?k, m_entries := []\<rparr>"
    by (simp add: recordToFile_def Let_def algebra_simps)
  have fs: "files ?fs = (files fs)(partName m ?k \<mapsto> csv m (m_entries m))"
    using assms(1) k
    by (auto simp: recordToFile_def write_file_def writable_def partName_dirname Let_def algebra_simps)
  have old: "files ?fs (partName m (int i)) = files fs (partName m (int i))"
    if "i \<in> set [1..<Suc (length parts)]" for i
    using that by (auto simp: fs partName_inject simp del: of_nat_Suc)
  have "map (\<lambda>i. files ?fs (partName m (int i))) [1..<Suc (length parts)] =
      map (\<lambda>i. files fs (partName m (int i))) [1..<Suc (length parts)]"
    by (rule map_cong [OF refl old])
  moreover have "map (\<lambda>i. files fs (partName m (int i))) [1..<Suc (length parts)] =
      map (\<lambda>p. Some (csv m p)) parts"
    using assms(2) by (simp add: holds_log_def)
  moreover have "files ?fs (partName m ?k) = Some (csv m (m_entries m))" by (simp add: fs)
  ultimately have "map (\<lambda>i. files ?fs (partName m (int i))) ([1..<Suc (length parts)] @ [Suc (length parts)]) =
      map (\<lambda>p. Some (csv m p)) (parts @ [m_entries m])"
    by (simp only: map_append list.map)
  moreover have "same_series m ?m" using recordToFile_series by blast
  ultimately show ?thesis
    using assms(2)
    by (simp add: holds_log_def same_series_names m del: of_nat_Suc)
qed

lemma setEntry_log:
  assumes "writable m fs" and "holds_log m fs parts es"
    and "length (m_entries m) < max 1 (unat (m_saveThreshold m))"
    and "\<forall>p \<in> set parts. length p = max 1 (unat (m_saveThreshold m))"
    and "setEntry (m, fs) e = (m', fs')"
  shows "\<exists>parts'. same_series m m' \<and> writable m' fs' \<and> holds_log m' fs' parts' (es @ [e]) \<and>
    length (m_entries m') < max 1 (unat (m_saveThreshold m)) \<and>
    (\<forall>p \<in> set parts'. length p = max 1 (unat (m_saveThreshold m)))"
proof -
  let ?m1 = "m\<lparr>m_entries := m_entries m @ [e]\<rparr>"
  have same1: "same_series m ?m1" by (simp add: same_series_def)
  have log1: "holds_log ?m1 fs parts (es @ [e])"
    using assms(2) same_series_names [OF same1] by (auto simp: holds_log_def)
  have w1: "writable ?m1 fs"
    using assms(1) same_series_names [OF same1] by (simp add: writable_def)
  have step: "(m', fs') =
      (if unat (m_saveThreshold m) \<le> Suc (length (m_entries m)) then recordToFile ?m1 fs else (?m1, fs))"
    using assms(5) by (cases e) (auto simp: setEntry_def setField_def Let_def split: if_splits)
  show ?thesis
  proof (cases "unat (m_saveThreshold m) \<le> Suc (length (m_entries m))")
    case False
    with step same1 log1 w1 assms(4) show ?thesis by (intro exI [of _ parts]) auto
  next
    case True
    then have m': "m' = fst (recordToFile ?m1 fs)" "fs' = snd (recordToFile ?m1 fs)"
      using step by (simp_all add: prod_eq_iff)
    have len: "length (m_entries ?m1) = max 1 (unat (m_saveThreshold m))"
      using True assms(3) by simp
    have "same_series ?m1 m'" and "directories fs' = directories fs"
      using recordToFile_series [of ?m1 fs] by (simp_all add: m')
    moreover from this w1 have "writable m' fs'"
      by (simp add: writable_def same_series_names)
    ultimately show ?thesis
      using recordToFile_log [OF w1 log1] same_series_trans [OF same1, of m'] len assms(4)
      by (intro exI [of _ "parts @ [m_entries ?m1]"]) (auto simp: m')
  qed
qed

lemma setEntries_log:
  assumes "writable m fs" and "holds_log m fs parts es"
    and "length (m_entries m) < max 1 (unat (m_saveThreshold m))"
    and "\<forall>p \<in> set parts. length p = max 1 (unat (m_saveThreshold m))"
    and "foldl setEntry (m, fs) new = (m', fs')"
  shows "\<exists>parts'. same_series m m' \<and> writable m' fs' \<and> holds_log m' fs' parts' (es @ new) \<and>
    length (m_entries m') < max 1 (unat (m_saveThreshold m)) \<and>
    (\<forall>p \<in> set parts'. length p = max 1 (unat (m_saveThreshold m)))"
  using assms
proof (induction new arbitrary: m fs parts es)
  case Nil
  then show ?case by (intro exI [of _ parts]) simp
next
  case (Cons e new)
  obtain m1 fs1 where m1: "setEntry (m, fs) e = (m1, fs1)" by (cases "setEntry (m, fs) e")
  from setEntry_log [OF Cons.prems(1-4) m1] obtain parts1 where
    step: "same_series m m1" "writable m1 fs1" "holds_log m1 fs1 parts1 (es @ [e])"
      "length (m_entries m1) < max 1 (unat (m_saveThreshold m))"
      "\<forall>p \<in> set parts1. length p = max 1 (unat (m_saveThreshold m))"
    by blast
  have thr: "m_saveThreshold m1 = m_saveThreshold m" using step(1) by (simp add: same_series_def)
  have "foldl setEntry (m1, fs1) new = (m', fs')" using Cons.prems(5) m1 by simp
  from Cons.IH [OF step(2,3) _ _ this] step(4,5) thr show ?case
    using same_series_trans [OF step(1)] by auto
qed

lemma newMeasurement_log:
  "holds_log (fst (newMeasurement i n t ob fs)) (snd (newMeasurement i n t ob fs)) [] []"
  by (simp add: newMeasurement_def holds_log_def)

section \<open>Properties\<close>

text \<open>
  C29: no measurement is lost. When the identifier, the node name and the object name contain no
  slash and nothing blocks the measurements folder, then after any sequence of \<open>setField\<close>
  calls the part files, in the order of their numbers, followed by the entries still in memory,
  are exactly the entries set, in order; every part file holds exactly \<open>saveThreshold\<close> entries
  (one when the threshold is zero), and fewer than that are in memory.
\<close>

theorem measurements_complete:
  assumes "CHR ''/'' \<notin> set (i @ n @ ob)"
    and "''measurements'' \<notin> dom (files fs)"
    and "range (partName (fst (newMeasurement i n t ob fs))) \<inter> directories fs = {}"
    and "foldl setEntry (newMeasurement i n t ob fs) es = (m, fs')"
  shows "\<exists>parts. m_fileCount m = int (length parts) \<and>
    map (\<lambda>k. files fs' (partName m (int k))) [1..<Suc (length parts)] = map (\<lambda>p. Some (csv m p)) parts \<and>
    concat parts @ m_entries m = es \<and>
    (\<forall>p \<in> set parts. length p = max 1 (unat t)) \<and> length (m_entries m) < max 1 (unat t)"
proof -
  let ?m = "fst (newMeasurement i n t ob fs)" and ?fs = "snd (newMeasurement i n t ob fs)"
  have "dirname (partName ?m k) = ''measurements''" for k
    using assms(1) by (intro partName_dirname) (simp add: flat_names_def newMeasurement_def)
  moreover have "dirname ''measurements'' = []" by (simp add: dirname_def)
  ultimately have "partName ?m k \<noteq> ''measurements''" for k by (metis list.distinct(1))
  then have "''measurements'' \<notin> range (partName ?m)" by fastforce
  moreover have "directories ?fs = insert ''measurements'' (directories fs)"
    using assms(2) by (auto simp: newMeasurement_def createMeasurementFolder_def)
  ultimately have "range (partName ?m) \<inter> directories ?fs = {}"
    and "''measurements'' \<in> directories ?fs" using assms(3) by simp_all
  moreover have "flat_names ?m" using assms(1) by (simp add: flat_names_def newMeasurement_def)
  ultimately have "writable ?m ?fs" by (simp add: writable_def)
  moreover have "m_saveThreshold ?m = t" "m_entries ?m = []" by (simp_all add: newMeasurement_def)
  moreover have "foldl setEntry (?m, ?fs) es = (m, fs')" using assms(4) by simp
  ultimately show ?thesis
    using setEntries_log [OF _ newMeasurement_log] by (fastforce simp: holds_log_def)
qed

definition empty_fs :: file_system where
  "empty_fs = \<lparr>directories = {}, files = Map.empty\<rparr>"

theorem measurements_complete_witness:
  "\<exists>m fs' parts. foldl setEntry (newMeasurement ''id'' ''n'' 2 ''A'' empty_fs)
      [\<lparr>interest = ''i'', entryname = ''a'', timestamp = 1, entry_size = 0\<rparr>,
       \<lparr>interest = ''i'', entryname = ''b'', timestamp = 2, entry_size = 0\<rparr>,
       \<lparr>interest = ''i'', entryname = ''c'', timestamp = 3, entry_size = 0\<rparr>] = (m, fs') \<and>
    map entryname (concat parts @ m_entries m) = [''a'', ''b'', ''c''] \<and> (\<forall>p \<in> set parts. length p = 2)"
proof -
  obtain m fs' where r: "foldl setEntry (newMeasurement ''id'' ''n'' 2 ''A'' empty_fs)
      [\<lparr>interest = ''i'', entryname = ''a'', timestamp = 1, entry_size = 0\<rparr>,
       \<lparr>interest = ''i'', entryname = ''b'', timestamp = 2, entry_size = 0\<rparr>,
       \<lparr>interest = ''i'', entryname = ''c'', timestamp = 3, entry_size = 0\<rparr>] = (m, fs')"
    by (rule prod.exhaust)
  have "CHR ''/'' \<notin> set (''id'' @ ''n'' @ ''A'')" and "''measurements'' \<notin> dom (files empty_fs)"
    and "range (partName (fst (newMeasurement ''id'' ''n'' 2 ''A'' empty_fs))) \<inter> directories empty_fs = {}"
    by (simp_all add: empty_fs_def)
  from measurements_complete [OF this r] obtain parts where
    "concat parts @ m_entries m =
      [\<lparr>interest = ''i'', entryname = ''a'', timestamp = 1, entry_size = 0\<rparr>,
       \<lparr>interest = ''i'', entryname = ''b'', timestamp = 2, entry_size = 0\<rparr>,
       \<lparr>interest = ''i'', entryname = ''c'', timestamp = 3, entry_size = 0\<rparr>]"
    "\<forall>p \<in> set parts. length p = max 1 (unat (2 :: u64))"
    by blast
  moreover have "max 1 (unat (2 :: u64)) = 2" by simp
  ultimately show ?thesis using r by (intro exI [of _ m] exI [of _ fs'] exI [of _ parts]) simp
qed

text \<open>No directory of the file system lies below the measurements folder.\<close>

definition no_subfolder :: "file_system \<Rightarrow> bool" where
  "no_subfolder fs \<longleftrightarrow> (\<nexists>rest. ''measurements/'' @ rest \<in> directories fs)"

lemma partName_nested:
  assumes "CHR ''/'' \<in> set (m_nodeName m)"
  shows "\<exists>rest. dirname (partName m k) = ''measurements/'' @ rest"
proof -
  let ?b = "m_measurementId m @ ''_'' @ m_nodeName m @ ''_'' @ m_observedObject m @
     ''_part_'' @ to_string (nat k) @ ''.csv''"
  have "CHR ''/'' \<in> set ?b" using assms by simp
  then obtain as bs where b: "?b = as @ CHR ''/'' # bs" "CHR ''/'' \<notin> set bs"
    by (metis split_list_last)
  have "partName m k = ''measurements/'' @ ?b" by (simp add: partName_def)
  also have "\<dots> = (''measurements/'' @ as) @ ''/'' @ bs" using b(1) by simp
  finally show ?thesis using dirname_flat [OF b(2), of "''measurements/'' @ as"] by simp
qed

lemma recordToFile_blocked:
  assumes "CHR ''/'' \<in> set (m_nodeName m)" and "no_subfolder fs"
  shows "snd (recordToFile m fs) = fs"
proof -
  have "dirname (partName m k) \<notin> directories fs" for k
    using partName_nested [OF assms(1), of k] assms(2) by (auto simp: no_subfolder_def)
  then show ?thesis by (simp add: recordToFile_def write_file_def Let_def)
qed

lemma setEntries_blocked:
  assumes "CHR ''/'' \<in> set (m_nodeName m)" and "no_subfolder fs"
  shows "snd (foldl setEntry (m, fs) es) = fs \<and>
    m_nodeName (fst (foldl setEntry (m, fs) es)) = m_nodeName m"
  using assms
proof (induction es arbitrary: m)
  case Nil
  then show ?case by simp
next
  case (Cons e es)
  have "snd (setEntry (m, fs) e) = fs" "m_nodeName (fst (setEntry (m, fs) e)) = m_nodeName m"
    using recordToFile_blocked Cons.prems
    by (simp_all add: setEntry_def setField_def Let_def) (simp add: recordToFile_def Let_def)
  with Cons.IH [of "fst (setEntry (m, fs) e)"] Cons.prems show ?case
    by (metis foldl_Cons prod.collapse)
qed

text \<open>
  Measurements of a node name with a slash are dropped silently. When the measurements folder
  has no subfolder and the node name contains a slash, no \<open>setField\<close> and no \<open>recordToFile\<close>
  ever writes a file, and every flush still discards the entries from memory. The node prefix
  that the example programs pass as node name always contains slashes.
\<close>

theorem measurements_dropped:
  assumes "CHR ''/'' \<in> set n" and "no_subfolder fs"
    and "foldl setEntry (newMeasurement i n t ob fs) es = (m, fs1)"
    and "recordToFile m fs1 = (m', fs')"
  shows "files fs' = files fs \<and> m_entries m' = []"
proof -
  have "newMeasurement i n t ob fs =
      (fst (newMeasurement i n t ob fs), createMeasurementFolder fs)"
    and "m_nodeName (fst (newMeasurement i n t ob fs)) = n"
    by (simp_all add: newMeasurement_def)
  moreover have "no_subfolder (createMeasurementFolder fs)"
    using assms(2) by (auto simp: no_subfolder_def createMeasurementFolder_def)
  ultimately have "fs1 = createMeasurementFolder fs" and "m_nodeName m = n"
    using setEntries_blocked [of "fst (newMeasurement i n t ob fs)" "createMeasurementFolder fs" es]
      assms(1,3) by auto
  with recordToFile_blocked [of m fs1] assms(1,4) \<open>no_subfolder (createMeasurementFolder fs)\<close>
  have "fs' = createMeasurementFolder fs" by simp
  moreover have "m_entries m' = []" using assms(4) by (auto simp: recordToFile_def Let_def)
  ultimately show ?thesis by (simp add: createMeasurementFolder_def)
qed

theorem measurements_dropped_witness:
  "files (snd (recordToFile (fst (setField 1 ''0'' ''CMP_START'' 0
       (fst (newMeasurement ''lines2words'' ''/node-/app/u'' 100 ''A'' empty_fs))
       (snd (newMeasurement ''lines2words'' ''/node-/app/u'' 100 ''A'' empty_fs))))
     (snd (setField 1 ''0'' ''CMP_START'' 0
       (fst (newMeasurement ''lines2words'' ''/node-/app/u'' 100 ''A'' empty_fs))
       (snd (newMeasurement ''lines2words'' ''/node-/app/u'' 100 ''A'' empty_fs)))))) = Map.empty"
proof -
  have "foldl setEntry (newMeasurement ''lines2words'' ''/node-/app/u'' 100 ''A'' empty_fs)
      [\<lparr>interest = ''0'', entryname = ''CMP_START'', timestamp = 1, entry_size = 0\<rparr>] =
    setField 1 ''0'' ''CMP_START'' 0
       (fst (newMeasurement ''lines2words'' ''/node-/app/u'' 100 ''A'' empty_fs))
       (snd (newMeasurement ''lines2words'' ''/node-/app/u'' 100 ''A'' empty_fs))"
    by (simp add: setEntry_def)
  note run = this [THEN trans, OF prod.collapse [symmetric]]
  have "no_subfolder empty_fs" by (simp add: no_subfolder_def empty_fs_def)
  from measurements_dropped [OF _ this run prod.collapse [symmetric]] show ?thesis
    by (simp add: empty_fs_def)
qed

end
