(* ===== verification/Consumer_Partitions.thy ===== *)
theory Consumer_Partitions
  imports Prelude "HOL-Library.Monad_Syntax"
begin

text \<open>
  \<open>createConsumerPartitions\<close> of \<open>examples/wordCount/lines2words/lines2words.cpp\<close>: the
  partitions one of several consumers subscribes to. The loop counts in 32 bits and may run
  forever, so it is a partial function: \<open>None\<close> is a call that never returns.
\<close>

section \<open>The loop\<close>

partial_function (option) consumerPartitionsLoop ::
    "u32 \<Rightarrow> u32 \<Rightarrow> u32 \<Rightarrow> u32 list \<Rightarrow> u32 list option" where
  "consumerPartitionsLoop i highestPartitionNumber numberOfConsumers consumerPartitions =
     (if i \<le> highestPartitionNumber
      then consumerPartitionsLoop (i + numberOfConsumers) highestPartitionNumber numberOfConsumers
             (consumerPartitions @ [i])
      else Some consumerPartitions)"

definition createConsumerPartitions :: "u32 \<Rightarrow> u32 \<Rightarrow> u32 \<Rightarrow> u32 list option" where
  "createConsumerPartitions highestPartitionNumber consumerIndex numberOfConsumers =
     consumerPartitionsLoop consumerIndex highestPartitionNumber numberOfConsumers []"

section \<open>Termination\<close>

text \<open>What the loop collects when the counter does not wrap: a list of natural numbers.\<close>

definition every_nth :: "nat \<Rightarrow> nat \<Rightarrow> nat \<Rightarrow> nat list" where
  "every_nth start highest n = filter (\<lambda>p. (p - start) mod n = 0) [start..<Suc highest]"

lemma every_nth_stop: "highest < start \<Longrightarrow> every_nth start highest n = []"
  by (simp add: every_nth_def)

lemma filter_empty_if: "(\<And>x. x \<in> set xs \<Longrightarrow> \<not> P x) \<Longrightarrow> filter P xs = []"
  by (induction xs) auto

lemma every_nth_step:
  assumes "start \<le> highest" and "0 < n"
  shows "every_nth start highest n = start # every_nth (start + n) highest n"
proof -
  have between: "(p - start) mod n \<noteq> 0" if "start < p" "p < start + n" for p
    using that by simp
  have after: "(p - start) mod n = (p - (start + n)) mod n" if le: "start + n \<le> p" for p
  proof -
    obtain k where "p = start + n + k" using le_Suc_ex [OF le] by blast
    then have "p - start = n + k" and "p - (start + n) = k" by simp_all
    then show ?thesis by (simp only: mod_add_self1)
  qed
  have upt: "[start..<Suc highest] = start # [Suc start..<Suc highest]"
    using assms(1) by (simp add: upt_conv_Cons)
  show ?thesis
  proof (cases "start + n \<le> highest")
    case False
    then have "filter (\<lambda>p. (p - start) mod n = 0) [Suc start..<Suc highest] = []"
      by (intro filter_empty_if between) auto
    with False show ?thesis by (simp add: every_nth_def upt del: upt_Suc)
  next
    case True
    then have "[Suc start..<Suc highest] = [Suc start..<start + n] @ [start + n..<Suc highest]"
      using assms(2) upt_add_eq_append [of "Suc start" "start + n" "Suc highest - (start + n)"]
      by (simp del: upt_Suc)
    moreover have "filter (\<lambda>p. (p - start) mod n = 0) [Suc start..<start + n] = []"
      by (rule filter_empty_if) (use between in auto)
    moreover have "filter (\<lambda>p. (p - start) mod n = 0) [start + n..<Suc highest] =
        filter (\<lambda>p. (p - (start + n)) mod n = 0) [start + n..<Suc highest]"
      by (rule filter_cong [OF refl], subst after) (simp_all del: upt_Suc)
    ultimately show ?thesis by (simp add: every_nth_def upt del: upt_Suc)
  qed
qed

lemma congruent_below: "(i :: nat) < n \<Longrightarrow> i \<le> p \<and> (p - i) mod n = 0 \<longleftrightarrow> i = p mod n"
proof
  assume "i < n" and "i \<le> p \<and> (p - i) mod n = 0"
  then obtain k where "p - i = n * k" and "i \<le> p" by (auto elim!: dvdE)
  then have "p = i + n * k" by simp
  with \<open>i < n\<close> show "i = p mod n" by simp
next
  assume "i = p mod n"
  then show "i \<le> p \<and> (p - i) mod n = 0" by (simp add: minus_mod_eq_mult_div)
qed

lemma consumerPartitionsLoop_ends:
  assumes "0 < unat n" and "unat h + unat n < 2 ^ 32"
  shows "consumerPartitionsLoop i h n acc =
    Some (acc @ map word_of_nat (every_nth (unat i) (unat h) (unat n)))"
proof (induction "Suc (unat h) - unat i" arbitrary: i acc rule: less_induct)
  case less
  show ?case
  proof (cases "i \<le> h")
    case False
    then show ?thesis
      by (subst consumerPartitionsLoop.simps) (simp add: every_nth_stop word_le_nat_alt)
  next
    case True
    then have le: "unat i \<le> unat h" by (simp add: word_le_nat_alt)
    then have i: "unat (i + n) = unat i + unat n"
      using assms(2) by (subst unat_plus_if') simp
    have "consumerPartitionsLoop (i + n) h n (acc @ [i]) =
        Some ((acc @ [i]) @ map word_of_nat (every_nth (unat (i + n)) (unat h) (unat n)))"
      by (rule less) (use le i assms(1) in simp)
    with True i every_nth_step [OF le assms(1)] show ?thesis
      by (subst consumerPartitionsLoop.simps) simp
  qed
qed

lemma createConsumerPartitions_result:
  assumes "0 < n" and "unat highest + unat n < 2 ^ 32"
  shows "\<exists>ps. createConsumerPartitions highest index n = Some ps \<and>
    set ps = {p. index \<le> p \<and> p \<le> highest \<and> (unat p - unat index) mod unat n = 0} \<and>
    sorted_wrt (<) ps"
proof -
  let ?ns = "every_nth (unat index) (unat highest) (unat n)"
  have "0 < unat n" using assms(1) by (simp add: word_less_nat_alt)
  then have result: "createConsumerPartitions highest index n = Some (map word_of_nat ?ns)"
    unfolding createConsumerPartitions_def using consumerPartitionsLoop_ends [OF _ assms(2)] by simp
  have small: "unat (word_of_nat k :: u32) = k" if "k \<in> set ?ns" for k
    using that assms(2) by (intro unat_u32_of_nat) (auto simp: every_nth_def)
  have member: "p \<in> set (map word_of_nat ?ns) \<longleftrightarrow>
      index \<le> p \<and> p \<le> highest \<and> (unat p - unat index) mod unat n = 0" for p
  proof
    assume "p \<in> set (map word_of_nat ?ns)"
    then obtain k where "k \<in> set ?ns" "p = word_of_nat k" by auto
    moreover from this have "unat p = k" using small by simp
    ultimately show "index \<le> p \<and> p \<le> highest \<and> (unat p - unat index) mod unat n = 0"
      by (auto simp: every_nth_def word_le_nat_alt)
  next
    assume "index \<le> p \<and> p \<le> highest \<and> (unat p - unat index) mod unat n = 0"
    then have "unat p \<in> set ?ns" by (simp add: every_nth_def word_le_nat_alt less_Suc_eq_le del: upt_Suc)
    then show "p \<in> set (map word_of_nat ?ns)" by (auto intro!: image_eqI [of _ _ "unat p"])
  qed
  have order: "sorted_wrt (<) (map (word_of_nat :: nat \<Rightarrow> u32) ?ns)"
  proof -
    have "sorted_wrt (<) ?ns"
      by (simp add: every_nth_def sorted_wrt_filter strict_sorted_iff del: upt_Suc)
    then have "sorted_wrt (\<lambda>a b. (word_of_nat a :: u32) < word_of_nat b) ?ns"
      by (rule sorted_wrt_mono_rel [rotated]) (simp add: word_less_nat_alt small)
    then show ?thesis by (simp add: sorted_wrt_map)
  qed
  have "set (map word_of_nat ?ns) =
      {p. index \<le> p \<and> p \<le> highest \<and> (unat p - unat index) mod unat n = 0}"
    by (rule set_eqI) (simp only: member mem_Collect_eq)
  with result order show ?thesis by (intro exI conjI)
qed

section \<open>Properties\<close>

text \<open>
  C33: the partitions of one consumer. When the number of consumers is positive and adding it to
  the highest partition does not wrap in 32 bits, the call returns; the result lists, in
  ascending order and without duplicates, exactly the partitions from the consumer's index up to
  and including the highest whose distance to the index is a multiple of the number of consumers.
\<close>

theorem createConsumerPartitions_exact:
  assumes "0 < n" and "unat highest + unat n < 2 ^ 32"
  shows "\<exists>ps. createConsumerPartitions highest index n = Some ps \<and>
    set ps = {p. index \<le> p \<and> p \<le> highest \<and> (unat p - unat index) mod unat n = 0} \<and>
    sorted_wrt (<) ps"
  using createConsumerPartitions_result [OF assms] .

theorem createConsumerPartitions_exact_witness:
  "\<exists>ps. createConsumerPartitions 3 1 2 = Some ps \<and> set ps = {1, 3}"
proof -
  have "(0 :: u32) < 2" and "unat (3 :: u32) + unat (2 :: u32) < 2 ^ 32" by simp_all
  from createConsumerPartitions_exact [OF this, of 1] obtain ps where
    ps: "createConsumerPartitions 3 1 2 = Some ps"
      "set ps = {p. 1 \<le> p \<and> p \<le> 3 \<and> (unat p - unat (1 :: u32)) mod unat (2 :: u32) = 0}"
    by blast
  have "(1 \<le> p \<and> p \<le> 3 \<and> (unat p - unat (1 :: u32)) mod unat (2 :: u32) = 0) \<longleftrightarrow> p = 1 \<or> p = 3" for p :: u32
  proof -
    have "unat p = 1 \<or> unat p = 2 \<or> unat p = 3" if "1 \<le> unat p" "unat p \<le> 3"
      using that by linarith
    then show ?thesis
      by (auto simp: word_le_nat_alt word_unat_eq_iff)
  qed
  with ps show ?thesis by auto
qed

text \<open>
  The consumers share the partitions. With the same highest partition and the same positive
  number of consumers (small enough not to wrap), the consumers with the indices below that
  number subscribe to every partition up to the highest exactly once.
\<close>

theorem consumers_share_partitions:
  assumes "0 < n" and "unat highest + unat n < 2 ^ 32"
  shows "p \<le> highest \<longleftrightarrow>
    (\<exists>!index. index < n \<and> (\<exists>ps. createConsumerPartitions highest index n = Some ps \<and> p \<in> set ps))"
proof -
  have n: "0 < unat n" using assms(1) by (simp add: word_less_nat_alt)
  have "unat p mod unat n < 2 ^ 32"
    using mod_less_divisor [OF n, of "unat p"] unat_u32_bound [of n] by simp
  then have residue: "unat (word_of_nat (unat p mod unat n) :: u32) = unat p mod unat n"
    by (rule unat_u32_of_nat)
  have member: "(\<exists>ps. createConsumerPartitions highest index n = Some ps \<and> p \<in> set ps) \<longleftrightarrow>
      p \<le> highest \<and> index = word_of_nat (unat p mod unat n)" if "index < n" for index
  proof -
    have "unat index < unat n" using that by (simp add: word_less_nat_alt)
    note congruent_below [OF this, of "unat p"]
    moreover have "unat (word_of_nat (unat p mod unat n) :: u32) = unat p mod unat n"
      by (rule residue)
    ultimately have near: "(unat index \<le> unat p \<and> (unat p - unat index) mod unat n = 0) \<longleftrightarrow>
        index = word_of_nat (unat p mod unat n)"
      by (simp only: word_unat_eq_iff)
    obtain ps where ps: "createConsumerPartitions highest index n = Some ps"
      "set ps = {p. index \<le> p \<and> p \<le> highest \<and> (unat p - unat index) mod unat n = 0}"
      using createConsumerPartitions_result [OF assms, of index] by blast
    then have "p \<in> set ps \<longleftrightarrow> p \<le> highest \<and> index = word_of_nat (unat p mod unat n)"
      unfolding ps(2) mem_Collect_eq near [symmetric] word_le_nat_alt by blast
    with ps(1) show ?thesis by simp
  qed
  have "word_of_nat (unat p mod unat n) < n"
    using n by (simp add: word_less_nat_alt residue)
  with member have "index < n \<and> (\<exists>ps. createConsumerPartitions highest index n = Some ps \<and> p \<in> set ps) \<longleftrightarrow>
      p \<le> highest \<and> index = word_of_nat (unat p mod unat n)" for index
    by blast
  then show ?thesis by (cases "p \<le> highest") (simp, blast)
qed

theorem consumers_share_partitions_witness:
  "\<exists>!index. index < 2 \<and> (\<exists>ps. createConsumerPartitions 3 index 2 = Some ps \<and> 3 \<in> set ps)"
proof -
  have "(0 :: u32) < 2" and "unat (3 :: u32) + unat (2 :: u32) < 2 ^ 32" by simp_all
  from consumers_share_partitions [OF this, of 3] show ?thesis by simp
qed

lemma consumerPartitionsLoop_Some:
  assumes "consumerPartitionsLoop i h n acc = Some ps"
  shows "h \<noteq> 0xFFFFFFFF \<and> (n = 0 \<longrightarrow> h < i)"
proof (rule consumerPartitionsLoop.raw_induct [OF _ assms])
  fix loop i h n acc ps
  assume IH: "\<And>i h n acc ps. loop i h n acc = Some ps \<Longrightarrow> h \<noteq> 0xFFFFFFFF \<and> (n = 0 \<longrightarrow> h < i)"
    and step: "(if i \<le> h then loop (i + n) h n (acc @ [i]) else Some acc) = Some (ps :: u32 list)"
  show "h \<noteq> 0xFFFFFFFF \<and> (n = 0 \<longrightarrow> h < i)"
  proof (cases "i \<le> h")
    case True
    with step have "loop (i + n) h n (acc @ [i]) = Some ps" by simp
    from IH [OF this] show ?thesis by auto
  next
    case False
    moreover have "i \<le> 0xFFFFFFFF" using unat_u32_bound [of i] by (simp add: word_le_nat_alt)
    ultimately show ?thesis by auto
  qed
qed

text \<open>
  Calls that never return. With zero consumers and an index not above the highest partition,
  and whenever the highest partition is \<open>2 ^ 32 - 1\<close>, the loop runs forever.
\<close>

theorem createConsumerPartitions_diverges:
  assumes "highest = 0xFFFFFFFF \<or> n = 0 \<and> index \<le> highest"
  shows "createConsumerPartitions highest index n = None"
proof (rule ccontr)
  assume "createConsumerPartitions highest index n \<noteq> None"
  then obtain ps where "consumerPartitionsLoop index highest n [] = Some ps"
    by (auto simp: createConsumerPartitions_def)
  from consumerPartitionsLoop_Some [OF this] assms show False by auto
qed

theorem createConsumerPartitions_diverges_witness:
  "createConsumerPartitions 3 1 0 = None"
  by (rule createConsumerPartitions_diverges) simp

end
