(* ===== verification/Word_Count.thy ===== *)
theory Word_Count
  imports Event_Loop Measurements Consumer_Partitions "HOL-Library.Multiset"
begin

text \<open>
  The example application \<open>examples/wordCount\<close>: a node that splits a text into lines, nodes
  that split lines into words, and a node that counts the words. The callbacks are functions on
  a state that holds the members of the application class and its measurement handler; reading
  the clock a further time gives the next value of \<open>clock\<close>. Output on the terminal is left out.
\<close>

section \<open>Characters, words and lines\<close>

text \<open>\<open>isspace\<close> and \<open>tolower\<close> in the C locale, and what \<open>operator>>\<close> and \<open>getline\<close> read.\<close>

definition is_space :: "char \<Rightarrow> bool" where
  "is_space c \<longleftrightarrow> (let n = (of_char c :: nat) in n = 32 \<or> 9 \<le> n \<and> n \<le> 13)"

definition tolower :: "char \<Rightarrow> char" where
  "tolower c = (let n = (of_char c :: nat) in if 65 \<le> n \<and> n \<le> 90 then char_of (n + 32) else c)"

fun words_from :: "string \<Rightarrow> string \<Rightarrow> string list" where
  "words_from acc [] = (if acc = [] then [] else [rev acc])"
| "words_from acc (c # cs) =
     (if is_space c then (if acc = [] then [] else [rev acc]) @ words_from [] cs
      else words_from (c # acc) cs)"

definition words :: "string \<Rightarrow> string list" where
  "words s = words_from [] s"

fun lines_from :: "string \<Rightarrow> string \<Rightarrow> string list" where
  "lines_from acc [] = (if acc = [] then [] else [rev acc])"
| "lines_from acc (c # cs) =
     (if c = CHR 0x0A then rev acc # lines_from [] cs else lines_from (c # acc) cs)"

definition getlines :: "string \<Rightarrow> string list" where
  "getlines s = lines_from [] s"

section \<open>State\<close>

record example_state =
  m_computeCounter :: int
  measurementHandler :: Measurement
  disk :: file_system
  readings :: nat

record wordcount_state = example_state +
  wordCountMap :: "(string \<times> int) list"

definition field :: "(nat \<Rightarrow> u64) \<Rightarrow> string \<Rightarrow> 's example_state_scheme \<Rightarrow> 's example_state_scheme" where
  "field clock entryName s =
     (let (m, fs) = setField (clock (readings s)) (to_string (nat (m_computeCounter s))) entryName 0
                      (measurementHandler s) (disk s)
      in s\<lparr>measurementHandler := m, disk := fs, readings := readings s + 1\<rparr>)"

definition count_up :: "'s example_state_scheme \<Rightarrow> 's example_state_scheme" where
  "count_up s = s\<lparr>m_computeCounter := m_computeCounter s + 1\<rparr>"

section \<open>\<open>LineSplitter\<close>, \<open>WordSplitter\<close>, \<open>WordCounter\<close>\<close>

text \<open>
  The first two are given a push function: what they do is a script of pushes to the downstream
  edge, each with the state at that moment. A source file that cannot be opened pushes nothing.
\<close>

fun splitLines ::
    "(nat \<Rightarrow> u64) \<Rightarrow> string \<Rightarrow> string list \<Rightarrow> example_state
       \<Rightarrow> (string \<times> byte list \<times> example_state) list \<times> example_state" where
  "splitLines clock edge [] s = ([], s)"
| "splitLines clock edge (line # lines) s =
     (let s1 = field clock ''CMP_START'' s;
          s2 = field clock ''text->lines1'' s1;
          s3 = field clock ''text->lines2'' s2;
          s4 = count_up (field clock ''CMP_FINISH'' s3);
          (pushes, s') = splitLines clock edge lines s4
      in ((edge, bytes_of_string line, s1) # pushes, s'))"

definition text2lines ::
    "(nat \<Rightarrow> u64) \<Rightarrow> string \<Rightarrow> string option \<Rightarrow> example_state \<Rightarrow> example_state script" where
  "text2lines clock edge file s =
     (case file of
        None \<Rightarrow> ([], Inr (), s)
      | Some contents \<Rightarrow>
          (let (pushes, s') = splitLines clock edge (getlines contents) (s\<lparr>m_computeCounter := 0\<rparr>)
           in (pushes, Inr (), field clock ''CMP_FINISH'' s')))"

fun splitWords ::
    "(nat \<Rightarrow> u64) \<Rightarrow> string \<Rightarrow> string list \<Rightarrow> example_state
       \<Rightarrow> (string \<times> byte list \<times> example_state) list \<times> example_state" where
  "splitWords clock edge [] s = ([], s)"
| "splitWords clock edge (word # ws) s =
     (let s1 = field clock ''lines1->words'' s;
          s2 = count_up (field clock ''CMP_FINISH'' s1);
          (pushes, s') = splitWords clock edge ws s2
      in ((edge, bytes_of_string word, s) # pushes, s'))"

definition lines2words ::
    "(nat \<Rightarrow> u64) \<Rightarrow> string \<Rightarrow> string \<Rightarrow> example_state \<Rightarrow> example_state script" where
  "lines2words clock edge line s =
     (let (pushes, s') = splitWords clock edge (words line) (field clock ''CMP_START'' s)
      in (pushes, Inr (), s'))"

text \<open>\<open>wordCountMap[word]++\<close>: a missing entry starts at zero.\<close>

definition increment :: "string \<Rightarrow> (string \<times> int) list \<Rightarrow> (string \<times> int) list" where
  "increment word m = put word ((case map_of m word of None \<Rightarrow> 0 | Some n \<Rightarrow> n) + 1) m"

fun countWords :: "(nat \<Rightarrow> u64) \<Rightarrow> string list \<Rightarrow> wordcount_state \<Rightarrow> wordcount_state" where
  "countWords clock [] s = s"
| "countWords clock (w # ws) s =
     (let word = map tolower w;
          s1 = s\<lparr>wordCountMap := increment word (wordCountMap s)\<rparr>;
          s2 = field clock ''lines2->wordcount'' s1;
          s3 = count_up (field clock ''CMP_FINISH'' s2)
      in countWords clock ws s3)"

definition countWord :: "(nat \<Rightarrow> u64) \<Rightarrow> byte list \<Rightarrow> wordcount_state \<Rightarrow> wordcount_state" where
  "countWord clock data s =
     countWords clock (words (string_of_bytes data))
       (field clock ''text->wordcount'' (field clock ''CMP_START'' s))"

section \<open>The programs\<close>

text \<open>
  The callbacks the programs register: \<open>lines2words\<close> has one prosumer callback, which captures
  the name of the downstream edge, \<open>wordcount\<close> one plain callback.
\<close>

definition lines2words_app :: "(nat \<Rightarrow> u64) \<Rightarrow> string \<Rightarrow> (unit, example_state) application" where
  "lines2words_app clock downstreamEdgeName =
     \<lparr>run_plain = (\<lambda>u data s. (Inr (), s)),
      run_prosumer = (\<lambda>u data s. lines2words clock downstreamEdgeName (string_of_bytes data) s)\<rparr>"

definition wordcount_app :: "(nat \<Rightarrow> u64) \<Rightarrow> (unit, wordcount_state) application" where
  "wordcount_app clock =
     \<lparr>run_plain = (\<lambda>u data s. (Inr (), countWord clock data s)),
      run_prosumer = (\<lambda>u data s. ([], Inr (), s))\<rparr>"

text \<open>\<open>std::optional::value\<close>.\<close>

definition valueE :: "'a option \<Rightarrow> exn + 'a" where
  "valueE x = (case x of None \<Rightarrow> Inl Bad_optional_access | Some v \<Rightarrow> Inr v)"

text \<open>
  The start-up of \<open>lines2words\<close> (the function \<open>run\<close> up to \<open>iceflow->run()\<close>), on the node
  already constructed. The number of consumers given on the command line is not used; \<open>None\<close>
  is a start-up that never gets past \<open>createConsumerPartitions\<close>.
\<close>

definition lines2words_start ::
    "('ps, 'n) ndn_ops \<Rightarrow> 'j json_ops \<Rightarrow> string \<Rightarrow> u32 \<Rightarrow> u32 \<Rightarrow> ('ps, 'j, unit) IceFlow \<Rightarrow> file_system
       \<Rightarrow> (exn + ('ps, 'j, unit) IceFlow \<times> example_state) option" where
  "lines2words_start S J nodeName consumerIndex numberOfConsumers f fs =
     (case bindE (getUpstreamEdge 0 f) valueE of
        Inl e \<Rightarrow> Some (Inl e)
      | Inr upstreamEdge \<Rightarrow>
        (case bindE (getDownstreamEdge 0 f) valueE of
           Inl e \<Rightarrow> Some (Inl e)
         | Inr downstreamEdge \<Rightarrow>
           Option.bind (createConsumerPartitions (maxPartitions upstreamEdge) consumerIndex 2)
             (\<lambda>consumerPartitions. Some
               (bindE (valueE (getApplicationParameter (j_get_u64 J) ''measurementsSaveThreshold'' f))
                  (\<lambda>saveThreshold.
                    let (handler, fs') = newMeasurement nodeName (m_nodePrefix f) saveThreshold ''A'' fs;
                        (r1, f1) = registerProsumerCallback () (edge_id upstreamEdge) f
                    in bindE r1 (\<lambda>_.
                       let (r2, f2) = repartitionConsumer S consumerPartitions (edge_id upstreamEdge) f1
                       in bindE r2 (\<lambda>_. Inr (f2,
                            \<lparr>m_computeCounter = 0, measurementHandler = handler, disk = fs',
                             readings = 0\<rparr>))))))))"

text \<open>The start-up of \<open>wordcount\<close>, which consumes partition 0 only.\<close>

definition wordcount_start ::
    "('ps, 'n) ndn_ops \<Rightarrow> 'j json_ops \<Rightarrow> string \<Rightarrow> ('ps, 'j, unit) IceFlow \<Rightarrow> file_system
       \<Rightarrow> exn + ('ps, 'j, unit) IceFlow \<times> wordcount_state" where
  "wordcount_start S J nodeName f fs =
     bindE (bindE (getUpstreamEdge 0 f) valueE) (\<lambda>upstreamEdge.
     bindE (valueE (getApplicationParameter (j_get_u64 J) ''measurementsSaveThreshold'' f))
       (\<lambda>saveThreshold.
         let (handler, fs') = newMeasurement nodeName (m_nodePrefix f) saveThreshold ''A'' fs;
             (r1, f1) = registerConsumerCallback (Plain ()) (edge_id upstreamEdge) f
         in bindE r1 (\<lambda>_.
            let (r2, f2) = repartitionConsumer S [0] (edge_id upstreamEdge) f1
            in bindE r2 (\<lambda>_. Inr (f2,
                 \<lparr>m_computeCounter = 0, measurementHandler = handler, disk = fs', readings = 0,
                  wordCountMap = []\<rparr>)))))"

text \<open>
  The start-up of \<open>text2lines\<close>: the state its pushing thread begins with, and the name of the
  source file.
\<close>

definition text2lines_start ::
    "'j json_ops \<Rightarrow> string \<Rightarrow> ('ps, 'j, unit) IceFlow \<Rightarrow> file_system
       \<Rightarrow> exn + string \<times> string \<times> example_state" where
  "text2lines_start J nodeName f fs =
     bindE (bindE (getDownstreamEdge 0 f) valueE) (\<lambda>downstreamEdge.
     bindE (valueE (getApplicationParameter (j_get_u64 J) ''measurementsSaveThreshold'' f))
       (\<lambda>saveThreshold.
     bindE (valueE (getApplicationParameter (j_get_string J) ''sourceTextFileName'' f))
       (\<lambda>sourceTextFileName.
         let (handler, fs') = newMeasurement nodeName (m_nodePrefix f) saveThreshold ''A'' fs
         in Inr (edge_id downstreamEdge, sourceTextFileName,
              \<lparr>m_computeCounter = 0, measurementHandler = handler, disk = fs', readings = 0\<rparr>))))"

section \<open>Words and lines\<close>

lemma words_from_concat:
  "concat (words_from acc s) = rev acc @ filter (\<lambda>c. \<not> is_space c) s"
  by (induction acc s rule: words_from.induct) simp_all

lemma words_from_clean:
  assumes "list_all (\<lambda>c. \<not> is_space c) acc"
  shows "list_all (\<lambda>w. w \<noteq> [] \<and> list_all (\<lambda>c. \<not> is_space c) w) (words_from acc s)"
  using assms by (induction acc s rule: words_from.induct) simp_all

lemma words_from_break:
  "is_space c \<Longrightarrow> words_from acc (s @ c # t) = words_from acc s @ words_from [] t"
  by (induction acc s rule: words_from.induct) auto

lemma words_from_single:
  "\<forall>c \<in> set s. \<not> is_space c \<Longrightarrow> words_from acc s = (if acc = [] \<and> s = [] then [] else [rev acc @ s])"
  by (induction acc s rule: words_from.induct) auto

lemma words_single [simp]: "w \<noteq> [] \<Longrightarrow> \<forall>c \<in> set w. \<not> is_space c \<Longrightarrow> words w = [w]"
  by (simp add: words_def words_from_single)

lemma words_of_word: "w \<in> set (words s) \<Longrightarrow> words w = [w]"
  using words_from_clean [of "[]" s] by (simp add: words_def words_from_single list_all_iff)

lemma newline_space: "is_space (CHR 0x0A)"
  by (simp add: is_space_def)

lemma words_lines_from: "concat (map words (lines_from acc s)) = words (rev acc @ s)"
proof (induction acc s rule: lines_from.induct)
  case (1 acc)
  then show ?case by (simp add: words_def)
next
  case (2 acc c cs)
  show ?case
  proof (cases "c = CHR 0x0A")
    case True
    with 2 show ?thesis
      using words_from_break [OF newline_space, of "[]" "rev acc" cs] by (simp add: words_def)
  next
    case False
    with 2 show ?thesis by simp
  qed
qed

lemma words_getlines: "concat (map words (getlines s)) = words s"
  using words_lines_from [of "[]" s] by (simp add: getlines_def)

section \<open>Scripts\<close>

lemma field_frame [simp]:
  "m_computeCounter (field clock n s) = m_computeCounter s"
  by (simp add: field_def split_beta)

lemma field_map [simp]: "wordCountMap (field clock n s) = wordCountMap s"
  by (simp add: field_def split_beta)

lemma count_up_sels [simp]:
  "m_computeCounter (count_up s) = m_computeCounter s + 1"
  "wordCountMap (count_up t) = wordCountMap t"
  by (simp_all add: count_up_def)

definition push_data :: "'a script \<Rightarrow> (string \<times> byte list) list" where
  "push_data p = map (\<lambda>(e, d, _). (e, d)) (fst p)"

lemma splitWords_pushes:
  "map (\<lambda>(e, d, _). (e, d)) (fst (splitWords clock edge ws s)) = map (\<lambda>w. (edge, bytes_of_string w)) ws"
  "m_computeCounter (snd (splitWords clock edge ws s)) = m_computeCounter s + int (length ws)"
  by (induction clock edge ws s rule: splitWords.induct) (simp_all add: Let_def split_beta)

lemma splitLines_pushes:
  "map (\<lambda>(e, d, _). (e, d)) (fst (splitLines clock edge ls s)) = map (\<lambda>l. (edge, bytes_of_string l)) ls"
  by (induction clock edge ls s rule: splitLines.induct) (simp_all add: Let_def split_beta)

lemma lines2words_pushes:
  "push_data (lines2words clock edge line s) = map (\<lambda>w. (edge, bytes_of_string w)) (words line)"
  by (simp add: lines2words_def push_data_def split_beta splitWords_pushes)

lemma text2lines_pushes:
  "push_data (text2lines clock edge (Some text) s) = map (\<lambda>l. (edge, bytes_of_string l)) (getlines text)"
  by (simp add: text2lines_def push_data_def split_beta Let_def splitLines_pushes)

definition count_of :: "(string \<times> int) list \<Rightarrow> string \<Rightarrow> int" where
  "count_of m w = (case map_of m w of None \<Rightarrow> 0 | Some n \<Rightarrow> n)"

lemma count_of_increment: "count_of (increment v m) w = count_of m w + (if w = v then 1 else 0)"
  by (simp add: count_of_def increment_def map_of_put)

lemma countWords_counts:
  "count_of (wordCountMap (countWords clock ws s)) w =
     count_of (wordCountMap s) w + int (count (mset (map (map tolower) ws)) w)"
  by (induction clock ws s rule: countWords.induct) (simp_all add: Let_def count_of_increment)

lemma countWord_counts:
  "count_of (wordCountMap (countWord clock data s)) w =
     count_of (wordCountMap s) w + int (count (mset (map (map tolower) (words (string_of_bytes data)))) w)"
  by (simp add: countWord_def countWords_counts)

lemma countAll_counts:
  "count_of (wordCountMap (foldl (\<lambda>s d. countWord clock d s) s ds)) w =
     count_of (wordCountMap s) w +
     int (count (mset (map (map tolower) (concat (map (words \<circ> string_of_bytes) ds)))) w)"
  by (induction ds arbitrary: s) (simp_all add: countWord_counts)

lemma mset_concat_map:
  assumes "mset xs = mset ys"
  shows "mset (concat (map h xs)) = mset (concat (map h ys))"
proof -
  have "mset (concat (map h zs)) = sum_mset (image_mset (mset \<circ> h) (mset zs))" for zs
    by (induction zs) simp_all
  with assms show ?thesis by simp
qed

section \<open>Properties\<close>

text \<open>
  What a \<open>lines2words\<close> callback pushes. It always returns normally; it pushes the words of
  the line in order, each as its bytes, to the downstream edge. The words are the maximal runs
  without white space: none is empty, none contains white space, and together they are the line
  without its white space. The compute counter grows by their number.
\<close>

theorem lines2words_exact:
  "\<exists>ws s'. lines2words clock edge line s = (map (\<lambda>(w, t). (edge, bytes_of_string w, t)) ws, Inr (), s') \<and>
     concat (map fst ws) = filter (\<lambda>c. \<not> is_space c) line \<and>
     list_all (\<lambda>w. w \<noteq> [] \<and> list_all (\<lambda>c. \<not> is_space c) w) (map fst ws) \<and>
     map fst ws = words line \<and>
     m_computeCounter s' = m_computeCounter s + int (length ws)"
proof -
  let ?s = "field clock ''CMP_START'' s"
  obtain pushes s' where split: "splitWords clock edge (words line) ?s = (pushes, s')"
    by (cases "splitWords clock edge (words line) ?s")
  let ?ws = "zip (words line) (map (snd \<circ> snd) pushes)"
  have pushes: "map (\<lambda>(e, d, _). (e, d)) pushes = map (\<lambda>w. (edge, bytes_of_string w)) (words line)"
    using splitWords_pushes(1) [of clock edge "words line" ?s] split by simp
  then have len: "length pushes = length (words line)" using map_eq_imp_length_eq by blast
  have "pushes = map (\<lambda>(w, t). (edge, bytes_of_string w, t)) ?ws"
  proof (rule nth_equalityI)
    fix i assume i: "i < length pushes"
    then have "(\<lambda>(e, d, _). (e, d)) (pushes ! i) = (edge, bytes_of_string (words line ! i))"
      using arg_cong [OF pushes, of "\<lambda>xs. xs ! i"] len by simp
    with i len show "pushes ! i = map (\<lambda>(w, t). (edge, bytes_of_string w, t)) ?ws ! i"
      by (cases "pushes ! i") simp
  qed (simp add: len)
  moreover have "m_computeCounter s' = m_computeCounter s + int (length ?ws)"
    using splitWords_pushes(2) [of clock edge "words line" ?s] split len by simp
  moreover have "map fst ?ws = words line" using len by simp
  moreover have "concat (words line) = filter (\<lambda>c. \<not> is_space c) line"
    using words_from_concat [of "[]" line] by (simp add: words_def)
  moreover have "list_all (\<lambda>w. w \<noteq> [] \<and> list_all (\<lambda>c. \<not> is_space c) w) (words line)"
    using words_from_clean [of "[]" line] by (simp add: words_def)
  ultimately show ?thesis
    by (intro exI [of _ ?ws] exI [of _ s'] conjI) (simp_all add: lines2words_def split)
qed

text \<open>
  The pipeline counts the words of the text. When the lines \<open>text2lines\<close> pushes reach the
  \<open>lines2words\<close> callbacks, and the words these push reach the \<open>wordcount\<close> callback, each once
  but in any order, every entry of the map grows by the number of occurrences of that word in the
  text, taken without regard to case.
\<close>

theorem word_count_pipeline:
  assumes "mset received_lines = mset (map snd (push_data (text2lines clock1 edge1 (Some text) s1)))"
    and "mset received_words = mset (concat (map (\<lambda>d.
           map snd (push_data (run_prosumer (lines2words_app clock2 edge2) () d (st d)))) received_lines))"
  shows "count_of (wordCountMap (foldl (\<lambda>s d. snd (run_plain (wordcount_app clock3) () d s)) s3 received_words)) w =
    count_of (wordCountMap s3) w + int (count (mset (map (map tolower) (words text))) w)"
proof -
  let ?h = "map (map tolower) \<circ> (words \<circ> string_of_bytes)"
  have flat: "map (map tolower) (concat (map (words \<circ> string_of_bytes) ds)) = concat (map ?h ds)" for ds
    by (simp add: map_concat comp_def)
  let ?out = "\<lambda>d. map bytes_of_string (words (string_of_bytes d))"
  have "mset received_lines = mset (map bytes_of_string (getlines text))"
    using assms(1) by (simp add: text2lines_pushes comp_def)
  from mset_concat_map [OF this, of ?out]
  have "mset received_words = mset (concat (map ?out (map bytes_of_string (getlines text))))"
    using assms(2) by (simp add: lines2words_app_def lines2words_pushes comp_def)
  also have "concat (map ?out (map bytes_of_string (getlines text))) =
      map bytes_of_string (concat (map words (getlines text)))"
    by (simp add: comp_def map_concat)
  also have "concat (map words (getlines text)) = words text" by (rule words_getlines)
  finally have "mset (concat (map ?h received_words)) = mset (concat (map ?h (map bytes_of_string (words text))))"
    by (rule mset_concat_map)
  moreover have "concat (map ?h (map bytes_of_string ws)) = map (map tolower) ws"
    if "\<forall>w \<in> set ws. words w = [w]" for ws
    using that by (induction ws) simp_all
  ultimately have "mset (concat (map ?h received_words)) = mset (map (map tolower) (words text))"
    using words_of_word by metis
  then show ?thesis
    by (simp add: wordcount_app_def countAll_counts flat del: mset_map)
qed

theorem word_count_pipeline_witness:
  "count_of (wordCountMap (foldl (\<lambda>s d. snd (run_plain (wordcount_app (\<lambda>_. 0)) () d s))
      \<lparr>m_computeCounter = 0, measurementHandler = fst (newMeasurement ''w'' ''n'' 100 ''A'' empty_fs),
       disk = empty_fs, readings = 0, wordCountMap = []\<rparr>
      (map bytes_of_string [''The'', ''a'', ''the'']))) ''the'' = 2"
proof -
  let ?s = "\<lparr>m_computeCounter = 0, measurementHandler = fst (newMeasurement ''t'' ''n'' 100 ''A'' empty_fs),
       disk = empty_fs, readings = 0\<rparr>"
  let ?text = "''a The'' @ newline @ ''the''"
  have lines: "getlines ?text = [''a The'', ''the'']" by (simp add: getlines_def newline_def)
  have words: "words ''a The'' = [''a'', ''The'']" "words ''the'' = [''the'']"
    "words ?text = [''a'', ''The'', ''the'']"
    by (simp_all add: words_def is_space_def newline_def)
  have lower: "tolower (CHR ''T'') = CHR ''t''" "tolower (CHR ''t'') = CHR ''t''"
    "tolower (CHR ''h'') = CHR ''h''" "tolower (CHR ''e'') = CHR ''e''" "tolower (CHR ''a'') = CHR ''a''"
    by (simp_all add: tolower_def char_of_def bit_0)
  have 1: "mset [bytes_of_string ''a The'', bytes_of_string ''the''] =
      mset (map snd (push_data (text2lines (\<lambda>_. 0) ''t2l'' (Some ?text) ?s)))"
    unfolding text2lines_pushes lines by simp
  have 2: "mset (map bytes_of_string [''The'', ''a'', ''the'']) = mset (concat (map (\<lambda>d.
      map snd (push_data (run_prosumer (lines2words_app (\<lambda>_. 0) ''l2w'') () d ?s)))
      [bytes_of_string ''a The'', bytes_of_string ''the'']))"
    by (simp add: lines2words_app_def lines2words_pushes words)
  from word_count_pipeline [OF 1 2, where w = "''the''"] show ?thesis
    unfolding words by (simp add: count_of_def lower)
qed

section \<open>Names and callbacks\<close>

lemma setConsumerCallback_frame [simp]:
  "partition_sub S k (setConsumerCallback cb c) = partition_sub S k c"
  "m_subscriptionHandles (setConsumerCallback cb c) = m_subscriptionHandles c"
  "m_consumerCallback (setConsumerCallback cb c) = Some cb"
  by (simp_all add: partition_sub_def consumer_prepareDataName_def setConsumerCallback_def fun_eq_iff)

lemma node_live_callback:
  "node_live S subs f \<Longrightarrow>
     node_live S subs (f\<lparr>m_iceflowConsumers := adjust e (setConsumerCallback cb) (m_iceflowConsumers f)\<rparr>)"
  by (auto simp: node_live_def map_of_adjust)

lemma strict_words_length:
  fixes ps :: "u32 list"
  assumes "sorted_wrt (<) ps" and "set ps \<subseteq> {..m}"
  shows "length ps \<le> unat m + 1"
proof -
  have "distinct ps" using assms(1) by (simp add: strict_sorted_iff)
  then have "length ps = card (unat ` set ps)"
    by (metis card_image distinct_card inj_on_def unsigned_word_eqI)
  also have "\<dots> \<le> card {..unat m}"
    by (rule card_mono) (use assms(2) in \<open>auto simp: word_le_nat_alt\<close>)
  finally show ?thesis by simp
qed

end
