(* ===== verification/Instance_Service.thy ===== *)
theory Instance_Service
  imports Event_Loop
begin

text \<open>
  The gRPC service of a node: the messages of \<open>proto/node-instance.proto\<close> and
  \<open>src/services/node-instance-service.cpp\<close>. A status is a value; a handler returns the status,
  the response object as it was filled, and the node.
\<close>

section \<open>Messages\<close>

record RepartitionRequest =
  req_edge_name :: string
  req_lower_partition_bound :: u32
  req_upper_partition_bound :: u32

record RepartitionResponse =
  resp_edge_name :: string
  resp_success :: bool
  resp_lower_partition_bound :: u32
  resp_upper_partition_bound :: u32

record ProductionStats =
  ps_edge_name :: string
  ps_units_produced :: u32
  ps_idle_time :: u64

record ConsumptionStats =
  cs_edge_name :: string
  cs_units_consumed :: u32
  cs_idle_time :: u64

record StatsResponse =
  production_stats :: "ProductionStats list"
  consumption_stats :: "ConsumptionStats list"

datatype StatusCode = INVALID_ARGUMENT | INTERNAL | UNAVAILABLE

datatype Status = Status_OK | Status_error StatusCode string

text \<open>A message whose fields have not been set holds the proto3 defaults.\<close>

definition empty_RepartitionResponse :: RepartitionResponse where
  "empty_RepartitionResponse =
     \<lparr>resp_edge_name = [], resp_success = False, resp_lower_partition_bound = 0,
      resp_upper_partition_bound = 0\<rparr>"

definition empty_StatsResponse :: StatsResponse where
  "empty_StatsResponse = \<lparr>production_stats = [], consumption_stats = []\<rparr>"

section \<open>Handlers\<close>

text \<open>
  \<open>std::vector<uint32_t>(upper - lower)\<close> filled by \<open>std::iota\<close> from \<open>lower\<close>: the
  difference and the increments are 32-bit.
\<close>

definition iota :: "u32 \<Rightarrow> nat \<Rightarrow> u32 list" where
  "iota start n = map (\<lambda>i. start + word_of_nat i) [0..<n]"

definition requestedPartitions :: "u32 \<Rightarrow> u32 \<Rightarrow> u32 list" where
  "requestedPartitions lower upper = iota lower (unat (upper - lower))"

definition service_Repartition ::
    "('ps, 'n) ndn_ops \<Rightarrow> RepartitionRequest \<Rightarrow> ('ps, 'j, 'u) IceFlow
       \<Rightarrow> Status \<times> RepartitionResponse \<times> ('ps, 'j, 'u) IceFlow" where
  "service_Repartition S request f =
     (let edgeName = req_edge_name request;
          lower = req_lower_partition_bound request;
          upper = req_upper_partition_bound request;
          partitions = requestedPartitions lower upper;
          response = empty_RepartitionResponse
            \<lparr>resp_lower_partition_bound := lower, resp_upper_partition_bound := upper\<rparr>
      in case repartitionConsumer S partitions edgeName f of
           (Inl _, f') \<Rightarrow>
             (Status_error INVALID_ARGUMENT ''Consumer repartitioning has failed.'', response, f')
         | (Inr _, f') \<Rightarrow> (Status_OK, response\<lparr>resp_success := True\<rparr>, f'))"

text \<open>The counters are truncated to the 32 bits of the message fields.\<close>

definition consumption_message :: "string \<times> EdgeConsumptionStats \<Rightarrow> ConsumptionStats" where
  "consumption_message s =
     \<lparr>cs_edge_name = fst s, cs_units_consumed = ucast (unitsConsumed (snd s)),
      cs_idle_time = consumption_idleTime (snd s)\<rparr>"

definition production_message :: "string \<times> EdgeProductionStats \<Rightarrow> ProductionStats" where
  "production_message s =
     \<lparr>ps_edge_name = fst s, ps_units_produced = ucast (unitsProduced (snd s)),
      ps_idle_time = production_idleTime (snd s)\<rparr>"

definition service_QueryStats ::
    "('ps, 'n) ndn_ops \<Rightarrow> (string \<Rightarrow> time_point) \<Rightarrow> ('ps, 'j, 'u) IceFlow
       \<Rightarrow> Status \<times> StatsResponse \<times> ('ps, 'j, 'u) IceFlow" where
  "service_QueryStats S now f =
     (let (consumerStats, f1) = getConsumerStats S now f;
          producerStats = getProducerStats now f1
      in (Status_OK,
          empty_StatsResponse\<lparr>consumption_stats := map consumption_message consumerStats,
                              production_stats := map production_message producerStats\<rparr>,
          f1))"

section \<open>The requested partitions\<close>

lemma iota_length [simp]: "length (iota start n) = n"
  by (simp add: iota_def)

lemma iota_distinct: "n \<le> 2 ^ 32 \<Longrightarrow> distinct (iota start n)"
proof -
  assume n: "n \<le> 2 ^ 32"
  have "i = j" if "i < n" "j < n" "(word_of_nat i :: u32) = word_of_nat j" for i j
  proof -
    have "unat (word_of_nat i :: u32) = i" and "unat (word_of_nat j :: u32) = j"
      by (rule unat_u32_of_nat, use that n in linarith)+
    with that(3) show ?thesis by metis
  qed
  then show ?thesis by (auto simp: iota_def distinct_map inj_on_def)
qed

lemma iota_set: "n \<le> 2 ^ 32 \<Longrightarrow> set (iota start n) = {p. unat (p - start) < n}"
proof (intro set_eqI iffI)
  fix p
  assume n: "n \<le> 2 ^ 32" and "p \<in> set (iota start n)"
  then obtain i where "i < n" and "p = start + word_of_nat i" by (auto simp: iota_def)
  with n show "p \<in> {p. unat (p - start) < n}" by (simp add: unat_u32_of_nat)
next
  fix p
  assume "p \<in> {p. unat (p - start) < n}"
  then show "p \<in> set (iota start n)"
    by (auto simp: iota_def intro!: image_eqI [of _ _ "unat (p - start)"])
qed

lemma unat_u32_le: "unat (w :: u32) \<le> 2 ^ 32"
  using unat_u32_bound [of w] by simp

lemma below_shifted:
  "unat (p - l) < unat (u - l) \<longleftrightarrow> (if l \<le> u then l \<le> p \<and> p < u else p < u \<or> l \<le> p)"
  for p l u :: u32
  using unat_u32_bound [of p] unat_u32_bound [of l] unat_u32_bound [of u]
  by (auto simp: unat_sub_if' word_le_nat_alt word_less_nat_alt)

lemma requestedPartitions_set:
  "set (requestedPartitions l u) = (if l \<le> u then {p. l \<le> p \<and> p < u} else {p. p < u \<or> l \<le> p})"
  unfolding requestedPartitions_def iota_set [OF unat_u32_le] below_shifted by simp

text \<open>
  The partitions of a repartition request. The list built from the two bounds has no
  duplicates; when the lower bound is not above the upper one it is the half-open range between
  them (so the upper bound itself is not included); when it is above, the 32-bit difference wraps
  and the list is every partition number \<^emph>\<open>outside\<close> the interval, \<open>2 ^ 32 - (lower - upper)\<close>
  of them.
\<close>

theorem requestedPartitions_exact:
  "distinct (requestedPartitions l u) \<and>
   set (requestedPartitions l u) = (if l \<le> u then {p. l \<le> p \<and> p < u} else {p. p < u \<or> l \<le> p}) \<and>
   length (requestedPartitions l u) =
     (if l \<le> u then unat u - unat l else 2 ^ 32 - (unat l - unat u))"
proof (intro conjI)
  show "distinct (requestedPartitions l u)"
    unfolding requestedPartitions_def by (rule iota_distinct [OF unat_u32_le])
  show "length (requestedPartitions l u) =
      (if l \<le> u then unat u - unat l else 2 ^ 32 - (unat l - unat u))"
    using unat_u32_bound [of l]
    by (auto simp: requestedPartitions_def unat_sub_if' word_le_nat_alt)
qed (rule requestedPartitions_set)

section \<open>Repartitioning over the service\<close>

text \<open>
  C25: the \<open>Repartition\<close> call. On a live node with room in the handle counter, the status is OK
  and \<open>success\<close> is set exactly when the node consumes the edge; then the edge's consumer is
  subscribed to exactly the requested partitions, in order. For an unknown edge the status is
  \<open>INVALID_ARGUMENT\<close> and the node is unchanged. In both cases the node stays live and the
  response echoes the bounds, but its \<open>edge_name\<close> is never set.
\<close>

theorem service_Repartition_outcome:
  assumes "svs S invar used subs pubs store" and "invar (m_svsPubSub f)" and "node_live S subs f"
    and "used (m_svsPubSub f) + unat (upper - lower) < 2 ^ 32"
    and "service_Repartition S \<lparr>req_edge_name = e, req_lower_partition_bound = lower,
           req_upper_partition_bound = upper\<rparr> f = (status, response, f')"
  shows "response = \<lparr>resp_edge_name = [], resp_success = (status = Status_OK),
      resp_lower_partition_bound = lower, resp_upper_partition_bound = upper\<rparr> \<and>
    node_live S subs f' \<and>
    (case map_of (m_iceflowConsumers f) e of
       None \<Rightarrow> f' = f \<and>
         status = Status_error INVALID_ARGUMENT ''Consumer repartitioning has failed.''
     | Some c \<Rightarrow> status = Status_OK \<and>
         (\<exists>c'. map_of (m_iceflowConsumers f') = (map_of (m_iceflowConsumers f))(e \<mapsto> c') \<and>
            map (subs (m_svsPubSub f')) (m_subscriptionHandles c') =
              map (\<lambda>p. Some (partition_sub S e c p)) (requestedPartitions lower upper)))"
proof (cases "map_of (m_iceflowConsumers f) e")
  case None
  then have "repartitionConsumer S (requestedPartitions lower upper) e f = (Inl (no_consumer e), f)"
    by (simp add: repartitionConsumer_def)
  with assms(3,5) None show ?thesis
    by (auto simp: service_Repartition_def empty_RepartitionResponse_def)
next
  case (Some c)
  have "used (m_svsPubSub f) + length (requestedPartitions lower upper) < 2 ^ 32"
    using assms(4) by (simp add: requestedPartitions_def)
  from repartitionConsumer_keeps_live [OF assms(1,2) this assms(3) Some] obtain f1 c' where
    "repartitionConsumer S (requestedPartitions lower upper) e f = (Inr (), f1)"
    "map_of (m_iceflowConsumers f1) = (map_of (m_iceflowConsumers f))(e \<mapsto> c')"
    "map (subs (m_svsPubSub f1)) (m_subscriptionHandles c') =
       map (\<lambda>p. Some (partition_sub S e c p)) (requestedPartitions lower upper)"
    "node_live S subs f1"
    by blast
  with assms(5) Some show ?thesis
    by (auto simp: service_Repartition_def empty_RepartitionResponse_def)
qed

theorem service_Repartition_outcome_witness:
  "\<exists>response f'. service_Repartition ref_ndn \<lparr>req_edge_name = ''t2l'',
       req_lower_partition_bound = 1, req_upper_partition_bound = 3\<rparr> example_iceflow =
     (Status_OK, response, f') \<and> resp_success response \<and> node_live ref_ndn ref_subs f'"
proof -
  obtain status response f' where call: "service_Repartition ref_ndn \<lparr>req_edge_name = ''t2l'',
       req_lower_partition_bound = 1, req_upper_partition_bound = 3\<rparr> example_iceflow =
     (status, response, f')"
    by (rule prod_cases3)
  have "rs_count (m_svsPubSub example_iceflow) + unat (3 - 1 :: u32) < 2 ^ 32"
    by (simp add: example_iceflow_svs)
  from service_Repartition_outcome [OF ref_svs.svs_axioms example_iceflow_svs(1,3) this call]
  show ?thesis using call by (auto simp: example_iceflow_svs(4))
qed

section \<open>Statistics over the service\<close>

text \<open>
  The \<open>QueryStats\<close> call. It always succeeds and reports every consumer and every producer
  of the node once, in the order of the maps, with the counters truncated to 32 bits. But
  asking has a side effect: afterwards none of the subscriptions of the node's consumers is left.
\<close>

theorem service_QueryStats_outcome:
  assumes "svs S invar used subs pubs store" and "invar (m_svsPubSub f)"
    and "distinct (consumer_edges f)" and "distinct (producer_edges f)"
    and "service_QueryStats S now f = (status, response, f')"
  shows "status = Status_OK \<and>
    consumption_stats response =
      map (\<lambda>(e, c). \<lparr>cs_edge_name = e,
          cs_units_consumed = ucast (unitsConsumed (fst (getConsumptionStats (now e) c))),
          cs_idle_time = consumption_idleTime (fst (getConsumptionStats (now e) c))\<rparr>)
        (m_iceflowConsumers f) \<and>
    production_stats response =
      map (\<lambda>(e, p). \<lparr>ps_edge_name = e,
          ps_units_produced = ucast (unitsProduced (fst (getProductionStats (now e) p))),
          ps_idle_time = production_idleTime (fst (getProductionStats (now e) p))\<rparr>)
        (m_iceflowProducers f) \<and>
    m_iceflowConsumers f' = m_iceflowConsumers f \<and>
    \<Union> (set ` m_subscriptionHandles ` snd ` set (m_iceflowConsumers f')) \<inter>
      dom (subs (m_svsPubSub f')) = {}"
proof -
  have f': "f' = f\<lparr>m_svsPubSub :=
      snd (consumerStatsLoop S now (m_iceflowConsumers f) [] (m_svsPubSub f))\<rparr>"
    using assms(5) by (auto simp: service_QueryStats_def getConsumerStats_def split_beta Let_def)
  have "subs (m_svsPubSub f') = subs (m_svsPubSub f) |`
      (- \<Union> (set ` m_subscriptionHandles ` snd ` set (m_iceflowConsumers f)))"
    using consumerStatsLoop_svs [OF assms(1,2), of now "m_iceflowConsumers f" "[]"]
    by (simp add: f')
  moreover have "status = Status_OK" using assms(5) by (auto simp: service_QueryStats_def split_beta Let_def)
  moreover have "response = \<lparr>
      production_stats = map production_message (producerStatsLoop now (m_iceflowProducers f) []),
      consumption_stats = map consumption_message
        (fst (consumerStatsLoop S now (m_iceflowConsumers f) [] (m_svsPubSub f)))\<rparr>"
    using assms(5)
    by (auto simp: service_QueryStats_def getConsumerStats_def getProducerStats_def split_beta Let_def
        empty_StatsResponse_def)
  ultimately show ?thesis
    using assms(3,4)
    by (auto simp: f' consumerStatsLoop_result producerStatsLoop_result split_beta
        production_message_def consumption_message_def)
qed

theorem service_QueryStats_outcome_witness:
  "\<exists>response f'. service_QueryStats ref_ndn (\<lambda>_. 5000000) example_subscribed =
      (Status_OK, response, f') \<and>
    consumption_stats response = [\<lparr>cs_edge_name = ''t2l'', cs_units_consumed = 0, cs_idle_time = 5\<rparr>] \<and>
    ref_subs (m_svsPubSub f') 2 = None"
proof -
  obtain status response f' where call:
    "service_QueryStats ref_ndn (\<lambda>_. 5000000) example_subscribed = (status, response, f')"
    by (rule prod_cases3)
  have "ref_inv (m_svsPubSub example_subscribed)" "distinct (consumer_edges example_subscribed)"
    "distinct (producer_edges example_subscribed)"
    using example_iceflow_edges recons.edges_op
    by (simp_all add: example_subscribed_sels ref_inv_def)
       (simp add: example_subscribed_def repartitionConsumer_def split_beta Let_def split: option.split)
  from service_QueryStats_outcome [OF ref_svs.svs_axioms this call] call show ?thesis
    by (auto simp: example_subscribed_sels getConsumptionStats_def consumer_determineIdleTime_def
        consumer_cleanUpTimestamps_def newConsumer_def to_milliseconds_nonneg Let_def disjoint_iff domIff)
      (metis option.exhaust surj_pair)
qed

end
