(* ===== verification/Grpc_Api.thy ===== *)
theory Grpc_Api
  imports Prelude
begin

text \<open>
  Servers of gRPC, which is not part of the repository: a record of the two calls the code makes,
  with their documented behaviour as a locale and a reference instance. A server keeps the plain
  address of the service object that was registered, so the objects live in an explicit memory.
\<close>

section \<open>Objects with an address\<close>

record 's memory =
  objects :: "nat \<rightharpoonup> 's"
  next_address :: nat

definition make_object :: "'s \<Rightarrow> 's memory \<Rightarrow> nat \<times> 's memory" where
  "make_object s m =
     (next_address m, m\<lparr>objects := (objects m)(next_address m \<mapsto> s), next_address := Suc (next_address m)\<rparr>)"

definition delete_object :: "nat \<Rightarrow> 's memory \<Rightarrow> 's memory" where
  "delete_object a m = m\<lparr>objects := (objects m)(a := None)\<rparr>"

definition memory_ok :: "'s memory \<Rightarrow> bool" where
  "memory_ok m \<longleftrightarrow> (\<forall>a \<in> dom (objects m). a < next_address m)"

lemma make_object_ok:
  "memory_ok m \<Longrightarrow> make_object s m = (a, m') \<Longrightarrow>
     a \<notin> dom (objects m) \<and> objects m' = (objects m)(a \<mapsto> s) \<and> memory_ok m'"
  by (auto simp: make_object_def memory_ok_def less_Suc_eq)

lemma delete_object_ok: "memory_ok m \<Longrightarrow> memory_ok (delete_object a m)"
  by (auto simp: delete_object_def memory_ok_def split: if_splits)

section \<open>The calls\<close>

text \<open>
  \<open>grpc_serve\<close> is a \<open>ServerBuilder\<close> with one listening port and one service, up to
  \<open>BuildAndStart\<close>, which returns a null pointer when the server cannot be started.
\<close>

record 'g grpc_ops =
  grpc_serve :: "string \<Rightarrow> nat \<Rightarrow> 'g \<Rightarrow> nat option \<times> 'g"
  grpc_shutdown :: "nat \<Rightarrow> 'g \<Rightarrow> 'g"

text \<open>Every running server has a service object to call.\<close>

definition services_alive :: "('g \<Rightarrow> nat \<rightharpoonup> string \<times> nat) \<Rightarrow> 's memory \<Rightarrow> 'g \<Rightarrow> bool" where
  "services_alive serving m g \<longleftrightarrow> snd ` ran (serving g) \<subseteq> dom (objects m)"

locale grpc_server =
  fixes G :: "'g grpc_ops" and serving :: "'g \<Rightarrow> nat \<rightharpoonup> string \<times> nat"
  assumes started: "grpc_serve G address s g = (Some h, g') \<Longrightarrow>
      h \<notin> dom (serving g) \<and> serving g' = (serving g)(h \<mapsto> (address, s))"
    and not_started: "grpc_serve G address s g = (None, g') \<Longrightarrow> serving g' = serving g"
    and shut_down: "serving (grpc_shutdown G h g) = (serving g)(h := None)"
begin

lemma serve_new_object:
  assumes "memory_ok m" and "services_alive serving m g" and "make_object s m = (a, m')"
    and "grpc_serve G address a g = (r, g')"
  shows "services_alive serving m' g'" and "\<And>h. r = Some h \<Longrightarrow> serving g' h = Some (address, a)"
    and "(\<lambda>h. if r = Some h then None else serving g' h) = serving g"
proof -
  note new = make_object_ok [OF assms(1,3)]
  have "services_alive serving m' g' \<and> (\<forall>h. r = Some h \<longrightarrow> serving g' h = Some (address, a)) \<and>
      (\<lambda>h. if r = Some h then None else serving g' h) = serving g"
  proof (cases r)
    case None
    with not_started assms(4) have "serving g' = serving g" by blast
    with None new assms(2) show ?thesis by (auto simp: services_alive_def)
  next
    case (Some h)
    with started assms(4) have g': "serving g h = None" "serving g' = (serving g)(h \<mapsto> (address, a))" by blast+
    then have "ran (serving g') = insert (address, a) (ran (serving g))" by (simp only: ran_map_upd)
    with Some g' new assms(2) show ?thesis by (auto simp: services_alive_def fun_eq_iff)
  qed
  then show "services_alive serving m' g'" and "\<And>h. r = Some h \<Longrightarrow> serving g' h = Some (address, a)"
    and "(\<lambda>h. if r = Some h then None else serving g' h) = serving g" by blast+
qed

end

section \<open>A reference instance\<close>

text \<open>The running servers, numbered in the order of their start; an address serves once.\<close>

record ref_grpc =
  rg_count :: nat
  rg_serving :: "(nat \<times> string \<times> nat) list"

definition ref_grpc_serving :: "ref_grpc \<Rightarrow> nat \<rightharpoonup> string \<times> nat" where
  "ref_grpc_serving g = map_of (filter (\<lambda>s. fst s < rg_count g) (rg_serving g))"

definition ref_grpc_ops :: "ref_grpc grpc_ops" where
  "ref_grpc_ops =
     \<lparr>grpc_serve = (\<lambda>address s g.
        let running = filter (\<lambda>s. fst s < rg_count g) (rg_serving g)
        in if address \<in> (\<lambda>(_, a, _). a) ` set running then (None, g)
           else (Some (rg_count g),
                 g\<lparr>rg_count := Suc (rg_count g), rg_serving := (rg_count g, address, s) # running\<rparr>)),
      grpc_shutdown = (\<lambda>h g. g\<lparr>rg_serving := filter (\<lambda>s. fst s \<noteq> h) (rg_serving g)\<rparr>)\<rparr>"

lemma filter_map_of:
  "map_of (filter (\<lambda>s. P (fst s)) m) = (\<lambda>k. if P k then map_of m k else None)"
  by (induction m) (auto simp: fun_eq_iff)

interpretation ref_grpc: grpc_server ref_grpc_ops ref_grpc_serving
proof (unfold_locales, goal_cases)
  case (1 address s g h g')
  have "filter (\<lambda>s. fst s < Suc n) (filter (\<lambda>s. fst s < n) m) = filter (\<lambda>s. fst s < n) m" for n :: nat and m :: "(nat \<times> string \<times> nat) list"
    by (induction m) auto
  moreover have "map_of (filter (\<lambda>s. fst s < n) m) n = None" for n :: nat and m :: "(nat \<times> string \<times> nat) list"
    using filter_map_of [of "\<lambda>k. k < n" m] by simp
  ultimately show ?case
    using 1 by (auto simp: ref_grpc_ops_def ref_grpc_serving_def Let_def split: if_splits)
next
  case (2 address s g g')
  then show ?case by (auto simp: ref_grpc_ops_def Let_def split: if_splits)
next
  case (3 h g)
  have "filter (\<lambda>s. fst s < n) (filter (\<lambda>s. fst s \<noteq> h) m) = filter (\<lambda>s. fst s < n \<and> fst s \<noteq> h) m"
    for n :: nat and m :: "(nat \<times> string \<times> nat) list"
    by (induction m) auto
  then show ?case
    using filter_map_of [of "\<lambda>k. k < rg_count g \<and> k \<noteq> h" "rg_serving g"]
      filter_map_of [of "\<lambda>k. k < rg_count g" "rg_serving g"]
    by (auto simp: ref_grpc_ops_def ref_grpc_serving_def fun_eq_iff)
qed

end
