(* ===== verification/Executor.thy ===== *)
theory Executor
  imports Instance_Service Grpc_Api
begin

text \<open>
  The executor side and the scaler: \<open>executor.hpp\<close>/\<open>executor.cpp\<close>, \<open>scaler.hpp\<close>/\<open>scaler.cpp\<close>,
  \<open>node-executor.proto\<close> and \<open>services/node-executor-service.cpp\<close>. gRPC itself is outside
  the repository: a stub is a parameter, the function that maps a request and the state of the
  world \<open>'w\<close> behind the channel to a status, a response and the new state. A null stub is
  \<open>None\<close>; calling it is undefined behaviour in C++ and the outcome \<open>Undefined\<close> here.
\<close>

section \<open>Messages and state\<close>

record CongestionReportRequest =
  crr_edge_name :: string
  crr_congestion_reason :: CongestionReason

datatype 'a outcome = Returned 'a | Thrown exn | Undefined

record 'w instance_stub =
  stub_Repartition :: "RepartitionRequest \<Rightarrow> 'w \<Rightarrow> Status \<times> RepartitionResponse \<times> 'w"
  stub_QueryStats :: "'w \<Rightarrow> Status \<times> StatsResponse \<times> 'w"

text \<open>
  The executor: its addresses, its server if there is one, the stub of the node instance, and the
  calls its congestion callback has received. A service object holds a weak pointer to the executor
  or a shared one to the node, here the number of that object.
\<close>

datatype service = NodeExecutorService nat | NodeInstanceService nat

record 'w IceflowExecutor =
  executor_serverAddress :: string
  executor_clientAddress :: string
  executor_server :: "nat option"
  m_nodeInstanceService :: "'w instance_stub option"
  congestionReports :: "(CongestionReason \<times> string) list"

definition newExecutor :: "string \<Rightarrow> string \<Rightarrow> 'w IceflowExecutor" where
  "newExecutor serverAddress clientAddress =
     \<lparr>executor_serverAddress = serverAddress, executor_clientAddress = clientAddress,
      executor_server = None, m_nodeInstanceService = None, congestionReports = []\<rparr>"

text \<open>
  \<open>runGrpcServer\<close>: the service is a local variable, so its object is gone when the function
  returns. A server the executor had before is destroyed by the assignment.
\<close>

definition executor_runGrpcServer ::
    "'g grpc_ops \<Rightarrow> nat \<Rightarrow> 'w IceflowExecutor \<Rightarrow> service memory \<times> 'g \<Rightarrow> 'w IceflowExecutor \<times> service memory \<times> 'g" where
  "executor_runGrpcServer G executorPointer x mg =
     (let (service, m1) = make_object (NodeExecutorService executorPointer) (fst mg);
          (server, g1) = grpc_serve G (executor_serverAddress x) service (snd mg);
          g2 = (case executor_server x of None \<Rightarrow> g1 | Some old \<Rightarrow> grpc_shutdown G old g1)
      in (x\<lparr>executor_server := server\<rparr>, delete_object service m1, g2))"

definition destroyExecutor :: "'g grpc_ops \<Rightarrow> 'w IceflowExecutor \<Rightarrow> 'g \<Rightarrow> 'g" where
  "destroyExecutor G x g =
     (case executor_server x of None \<Rightarrow> g | Some server \<Rightarrow> grpc_shutdown G server g)"

definition executor_runGrpcClient :: "'w instance_stub \<Rightarrow> 'w IceflowExecutor \<Rightarrow> 'w IceflowExecutor" where
  "executor_runGrpcClient stub x = x\<lparr>m_nodeInstanceService := Some stub\<rparr>"

definition executor_repartition ::
    "string \<Rightarrow> u32 \<Rightarrow> u32 \<Rightarrow> 'w IceflowExecutor \<Rightarrow> 'w \<Rightarrow> Status option \<times> 'w" where
  "executor_repartition edgeName lowerPartitionBound upperPartitionBound x w =
     (case m_nodeInstanceService x of
        None \<Rightarrow> (None, w)
      | Some stub \<Rightarrow>
          (let (status, response, w') =
             stub_Repartition stub
               \<lparr>req_edge_name = edgeName, req_lower_partition_bound = lowerPartitionBound,
                req_upper_partition_bound = upperPartitionBound\<rparr> w
           in (Some status, w')))"

definition receiveCongestionReport ::
    "CongestionReason \<Rightarrow> string \<Rightarrow> 'w IceflowExecutor \<Rightarrow> 'w IceflowExecutor" where
  "receiveCongestionReport congestionReason edge_name x =
     x\<lparr>congestionReports := congestionReports x @ [(congestionReason, edge_name)]\<rparr>"

section \<open>Merging the statistics\<close>

fun addProduction :: "ProductionStats list \<Rightarrow> (string \<times> EdgeStats) list \<Rightarrow> (string \<times> EdgeStats) list" where
  "addProduction [] result = result"
| "addProduction (s # ss) result =
     addProduction ss
       (put (ps_edge_name s)
          \<lparr>productionStats = Some \<lparr>unitsProduced = ucast (ps_units_produced s),
                                   production_idleTime = ps_idle_time s\<rparr>,
           consumptionStats = None\<rparr> result)"

fun addConsumption :: "ConsumptionStats list \<Rightarrow> (string \<times> EdgeStats) list \<Rightarrow> (string \<times> EdgeStats) list" where
  "addConsumption [] result = result"
| "addConsumption (s # ss) result =
     (let edgeName = cs_edge_name s;
          internal = Some \<lparr>unitsConsumed = ucast (cs_units_consumed s),
                           consumption_idleTime = cs_idle_time s\<rparr>
      in addConsumption ss
           (if edgeName \<in> fst ` set result
            then adjust edgeName (\<lambda>e. e\<lparr>consumptionStats := internal\<rparr>) result
            else put edgeName \<lparr>productionStats = None, consumptionStats = internal\<rparr> result))"

definition queryEdgeStats ::
    "'w IceflowExecutor \<Rightarrow> 'w \<Rightarrow> (string \<times> EdgeStats) list outcome \<times> 'w" where
  "queryEdgeStats x w =
     (case m_nodeInstanceService x of
        None \<Rightarrow> (Undefined, w)
      | Some stub \<Rightarrow>
          (let (status, response, w') = stub_QueryStats stub w
           in if status \<noteq> Status_OK
              then (Thrown (Runtime_error ''Failed to query stats from NodeInstance.''), w')
              else (Returned (addConsumption (consumption_stats response)
                                (addProduction (production_stats response) [])), w')))"

section \<open>The executor's service\<close>

text \<open>The executor behind a weak pointer: \<open>None\<close> when it is gone.\<close>

definition service_ReportCongestion ::
    "CongestionReportRequest \<Rightarrow> 'w IceflowExecutor option \<Rightarrow> Status \<times> 'w IceflowExecutor option" where
  "service_ReportCongestion request lock =
     (case lock of
        Some x \<Rightarrow>
          (Status_OK,
           Some (receiveCongestionReport (crr_congestion_reason request) (crr_edge_name request) x))
      | None \<Rightarrow> (Status_error INTERNAL ''NodeExecutorService has already been shut down'', None))"

section \<open>The scaler\<close>

text \<open>
  The scaler owns its server and the service of the node; it reports congestion over its stub of
  the executor's service, which \<open>stubOf\<close> gives for an address. The two members that register
  consumers and producers are declared without a definition.
\<close>

record 'x IceflowScaler =
  scaler_serverAddress :: string
  scaler_clientAddress :: string
  scaler_iceflow :: nat
  m_instanceService :: "nat option"
  scaler_server :: "nat option"
  m_nodeExecutorService :: "(CongestionReportRequest \<Rightarrow> 'x \<Rightarrow> Status \<times> 'x) option"

definition scaler_runGrpcServer ::
    "'g grpc_ops \<Rightarrow> string \<Rightarrow> 'x IceflowScaler \<Rightarrow> service memory \<times> 'g
       \<Rightarrow> 'x IceflowScaler \<times> service memory \<times> 'g" where
  "scaler_runGrpcServer G address s mg =
     (let (service, m1) = make_object (NodeInstanceService (scaler_iceflow s)) (fst mg);
          m2 = (case m_instanceService s of None \<Rightarrow> m1 | Some old \<Rightarrow> delete_object old m1);
          (server, g1) = grpc_serve G address service (snd mg);
          g2 = (case scaler_server s of None \<Rightarrow> g1 | Some old \<Rightarrow> grpc_shutdown G old g1)
      in (s\<lparr>m_instanceService := Some service, scaler_server := server\<rparr>, m2, g2))"

definition scaler_runGrpcClient ::
    "(string \<Rightarrow> CongestionReportRequest \<Rightarrow> 'x \<Rightarrow> Status \<times> 'x) \<Rightarrow> string \<Rightarrow> 'x IceflowScaler \<Rightarrow> 'x IceflowScaler" where
  "scaler_runGrpcClient stubOf address s = s\<lparr>m_nodeExecutorService := Some (stubOf address)\<rparr>"

definition newScaler ::
    "'g grpc_ops \<Rightarrow> (string \<Rightarrow> CongestionReportRequest \<Rightarrow> 'x \<Rightarrow> Status \<times> 'x) \<Rightarrow> string \<Rightarrow> string \<Rightarrow> nat
       \<Rightarrow> service memory \<times> 'g \<Rightarrow> 'x IceflowScaler \<times> service memory \<times> 'g" where
  "newScaler G stubOf serverAddress clientAddress iceflow mg =
     (let s = \<lparr>scaler_serverAddress = serverAddress, scaler_clientAddress = clientAddress,
               scaler_iceflow = iceflow, m_instanceService = None, scaler_server = None,
               m_nodeExecutorService = None\<rparr>;
          (s1, mg1) = scaler_runGrpcServer G serverAddress s mg
      in (scaler_runGrpcClient stubOf clientAddress s1, mg1))"

text \<open>The destructor shuts the server down; then the members go, the service with them.\<close>

definition destroyScaler :: "'g grpc_ops \<Rightarrow> 'x IceflowScaler \<Rightarrow> service memory \<times> 'g \<Rightarrow> service memory \<times> 'g" where
  "destroyScaler G s mg =
     (let g1 = (case scaler_server s of None \<Rightarrow> snd mg | Some server \<Rightarrow> grpc_shutdown G server (snd mg))
      in (case m_instanceService s of None \<Rightarrow> fst mg | Some service \<Rightarrow> delete_object service (fst mg), g1))"

definition scaler_reportCongestion ::
    "CongestionReason \<Rightarrow> string \<Rightarrow> 'x IceflowScaler \<Rightarrow> 'x \<Rightarrow> Status outcome \<times> 'x" where
  "scaler_reportCongestion congestionReason edgeName s x =
     (case m_nodeExecutorService s of
        None \<Rightarrow> (Undefined, x)
      | Some stub \<Rightarrow>
          (let (status, x') =
             stub \<lparr>crr_edge_name = edgeName, crr_congestion_reason = congestionReason\<rparr> x
           in (Returned status, x')))"

section \<open>Merging, as a function of the edge\<close>

abbreviation production_of :: "ProductionStats \<Rightarrow> EdgeProductionStats" where
  "production_of s \<equiv> \<lparr>unitsProduced = ucast (ps_units_produced s), production_idleTime = ps_idle_time s\<rparr>"

abbreviation consumption_of :: "ConsumptionStats \<Rightarrow> EdgeConsumptionStats" where
  "consumption_of s \<equiv> \<lparr>unitsConsumed = ucast (cs_units_consumed s), consumption_idleTime = cs_idle_time s\<rparr>"

lemma addProduction_lookup:
  "distinct (map ps_edge_name ss) \<Longrightarrow>
     map_of (addProduction ss m) e =
       (case find (\<lambda>s. ps_edge_name s = e) ss of
          None \<Rightarrow> map_of m e
        | Some s \<Rightarrow> Some \<lparr>productionStats = Some (production_of s), consumptionStats = None\<rparr>)"
proof (induction ss arbitrary: m)
  case Nil
  then show ?case by simp
next
  case (Cons s ss)
  have other: "find (\<lambda>s. ps_edge_name s = e) ss = None" if "ps_edge_name s = e"
    using Cons.prems that by (auto simp: find_key_None)
  have IH: "map_of (addProduction ss m') e =
       (case find (\<lambda>s. ps_edge_name s = e) ss of
          None \<Rightarrow> map_of m' e
        | Some s \<Rightarrow> Some \<lparr>productionStats = Some (production_of s), consumptionStats = None\<rparr>)" for m'
    using Cons by simp
  show ?case by (cases "ps_edge_name s = e") (simp_all add: IH map_of_put other split: option.split)
qed

lemma addConsumption_lookup:
  "distinct (map cs_edge_name ss) \<Longrightarrow>
     map_of (addConsumption ss m) e =
       (case find (\<lambda>s. cs_edge_name s = e) ss of
          None \<Rightarrow> map_of m e
        | Some s \<Rightarrow> Some \<lparr>productionStats = Option.bind (map_of m e) productionStats,
                         consumptionStats = Some (consumption_of s)\<rparr>)"
proof (induction ss arbitrary: m)
  case Nil
  then show ?case by simp
next
  case (Cons s ss)
  have other: "find (\<lambda>s. cs_edge_name s = e) ss = None" if "cs_edge_name s = e"
    using Cons.prems that by (auto simp: find_key_None)
  have IH: "map_of (addConsumption ss m') e =
       (case find (\<lambda>s. cs_edge_name s = e) ss of
          None \<Rightarrow> map_of m' e
        | Some s \<Rightarrow> Some \<lparr>productionStats = Option.bind (map_of m' e) productionStats,
                         consumptionStats = Some (consumption_of s)\<rparr>)" for m'
    using Cons by simp
  show ?case
  proof (cases "cs_edge_name s \<in> fst ` set m")
    case True
    then obtain x where "map_of m (cs_edge_name s) = Some x"
      by (metis domD dom_map_of_conv_image_fst)
    with True show ?thesis
      by (cases "cs_edge_name s = e") (simp_all add: IH map_of_adjust other split: option.split)
  next
    case False
    then have "map_of m (cs_edge_name s) = None" by (simp add: map_of_eq_None_iff)
    with False show ?thesis
      by (cases "cs_edge_name s = e") (auto simp add: IH map_of_put other split: option.split)
  qed
qed

text \<open>The other end of a channel that neither fails nor loses a call: the node's own service.\<close>

definition direct_stub ::
    "('ps, 'n) ndn_ops \<Rightarrow> (string \<Rightarrow> time_point) \<Rightarrow> ('ps, 'j, 'u) IceFlow instance_stub" where
  "direct_stub S now = \<lparr>stub_Repartition = service_Repartition S, stub_QueryStats = service_QueryStats S now\<rparr>"

lemma find_map_pair:
  "find (\<lambda>s. g s = e) (map (\<lambda>x. h (fst x) (snd x)) m) =
     map_option (\<lambda>v. h e v) (map_of m e)" if "\<And>k v. g (h k v) = k"
  using that by (induction m) auto

lemma direct_query:
  assumes "distinct (producer_edges f)" and "distinct (consumer_edges f)"
  shows "\<exists>result f'. queryEdgeStats (executor_runGrpcClient (direct_stub S now) x) f = (Returned result, f') \<and>
    map_of result = (\<lambda>e.
      case map_option (\<lambda>c. consumption_of (consumption_message (e, fst (getConsumptionStats (now e) c))))
             (map_of (m_iceflowConsumers f) e) of
        None \<Rightarrow> map_option (\<lambda>p. \<lparr>productionStats =
            Some (production_of (production_message (e, fst (getProductionStats (now e) p)))),
            consumptionStats = None\<rparr>) (map_of (m_iceflowProducers f) e)
      | Some s \<Rightarrow> Some \<lparr>productionStats = map_option
            (\<lambda>p. production_of (production_message (e, fst (getProductionStats (now e) p))))
            (map_of (m_iceflowProducers f) e), consumptionStats = Some s\<rparr>)"
proof -
  have names: "map ps_edge_name (map production_message ss) = map fst ss"
    "map cs_edge_name (map consumption_message ss') = map fst ss'" for ss ss'
    by (simp_all add: production_message_def consumption_message_def)
  let ?P = "map (\<lambda>(k, p). (k, fst (getProductionStats (now k) p))) (m_iceflowProducers f)"
  let ?C = "map (\<lambda>(k, c). (k, fst (getConsumptionStats (now k) c))) (m_iceflowConsumers f)"
  obtain f' where q: "queryEdgeStats (executor_runGrpcClient (direct_stub S now) x) f =
      (Returned (addConsumption (map consumption_message ?C) (addProduction (map production_message ?P) [])), f')"
    using assms
    by (simp add: queryEdgeStats_def executor_runGrpcClient_def direct_stub_def service_QueryStats_def
        getConsumerStats_def getProducerStats_def split_beta Let_def empty_StatsResponse_def
        consumerStatsLoop_result producerStatsLoop_result)
  have P: "find (\<lambda>s. ps_edge_name s = e) (map production_message ?P) =
      map_option (\<lambda>p. production_message (e, fst (getProductionStats (now e) p))) (map_of (m_iceflowProducers f) e)"
    for e
    using find_map_pair [of ps_edge_name "\<lambda>k p. production_message (k, fst (getProductionStats (now k) p))"
        e "m_iceflowProducers f"]
    by (simp add: comp_def split_beta production_message_def)
  have C: "find (\<lambda>s. cs_edge_name s = e) (map consumption_message ?C) =
      map_option (\<lambda>c. consumption_message (e, fst (getConsumptionStats (now e) c))) (map_of (m_iceflowConsumers f) e)"
    for e
    using find_map_pair [of cs_edge_name "\<lambda>k p. consumption_message (k, fst (getConsumptionStats (now k) p))"
        e "m_iceflowConsumers f"]
    by (simp add: comp_def split_beta consumption_message_def)
  have dP: "distinct (map ps_edge_name (map production_message ?P))"
    and dC: "distinct (map cs_edge_name (map consumption_message ?C))"
    unfolding names using assms by (simp_all add: comp_def split_beta)
  show ?thesis
    by (intro exI conjI, rule q, rule ext)
      (simp add: addConsumption_lookup [OF dC] addProduction_lookup [OF dP] P C del: map_map
        split: option.split)
qed

lemma truncate_u32: "(ucast (ucast (w :: u64) :: u32) :: u64) = w mod 2 ^ 32"
  by (intro word_unat_eq_iff [THEN iffD2])
    (simp add: unsigned_ucast_eq take_bit_eq_mod unat_mod unat_widen [simplified])

section \<open>The interface of a congestion channel\<close>

text \<open>
  What a \<open>CongestionReporter\<close> is used for: each call delivers its reason and edge to the
  receiver, after the ones delivered before, and nothing else.
\<close>

locale congestion_channel =
  fixes send :: "CongestionReason \<Rightarrow> string \<Rightarrow> 'x \<Rightarrow> 'x"
    and received :: "'x \<Rightarrow> (CongestionReason \<times> string) list"
  assumes delivers: "received (send r e x) = received x @ [(r, e)]"
begin

lemma delivers_all:
  "received (foldl (\<lambda>x (r, e). send r e x) x reports) = received x @ reports"
  by (induction reports arbitrary: x) (auto simp: delivers)

end

interpretation executor_channel: congestion_channel receiveCongestionReport congestionReports
  by unfold_locales (simp add: receiveCongestionReport_def)

section \<open>Properties\<close>

text \<open>
  C26: the statistics the executor sees. Over a channel that neither fails nor loses the call,
  \<open>queryEdgeStats\<close> returns an entry for exactly the edges the node has a producer or a
  consumer for; the entry holds the production statistics if there is a producer and the
  consumption statistics if there is a consumer, as the node computes them, with the
  counters modulo \<open>2 ^ 32\<close>.
\<close>

theorem queryEdgeStats_end_to_end:
  assumes "distinct (producer_edges f)" and "distinct (consumer_edges f)"
  shows "\<exists>result f'. queryEdgeStats (executor_runGrpcClient (direct_stub S now) x) f = (Returned result, f') \<and>
    dom (map_of result) = set (producer_edges f) \<union> set (consumer_edges f) \<and>
    (\<forall>e s. map_of result e = Some s \<longrightarrow>
       s = \<lparr>productionStats = map_option (\<lambda>p. let st = fst (getProductionStats (now e) p) in
               \<lparr>unitsProduced = unitsProduced st mod 2 ^ 32, production_idleTime = production_idleTime st\<rparr>)
             (map_of (m_iceflowProducers f) e),
            consumptionStats = map_option (\<lambda>c. let st = fst (getConsumptionStats (now e) c) in
               \<lparr>unitsConsumed = unitsConsumed st mod 2 ^ 32, consumption_idleTime = consumption_idleTime st\<rparr>)
             (map_of (m_iceflowConsumers f) e)\<rparr>)"
proof -
  obtain result f' where q:
    "queryEdgeStats (executor_runGrpcClient (direct_stub S now) x) f = (Returned result, f')"
    and m: "map_of result = (\<lambda>e.
      case map_option (\<lambda>c. consumption_of (consumption_message (e, fst (getConsumptionStats (now e) c))))
             (map_of (m_iceflowConsumers f) e) of
        None \<Rightarrow> map_option (\<lambda>p. \<lparr>productionStats =
            Some (production_of (production_message (e, fst (getProductionStats (now e) p)))),
            consumptionStats = None\<rparr>) (map_of (m_iceflowProducers f) e)
      | Some s \<Rightarrow> Some \<lparr>productionStats = map_option
            (\<lambda>p. production_of (production_message (e, fst (getProductionStats (now e) p))))
            (map_of (m_iceflowProducers f) e), consumptionStats = Some s\<rparr>)"
    using direct_query [OF assms] by blast
  have "dom (map_of result) = set (producer_edges f) \<union> set (consumer_edges f)"
    by (auto simp: m dom_def dom_map_of_conv_image_fst [symmetric] split: option.splits)
  moreover have "s = \<lparr>productionStats = map_option (\<lambda>p. let st = fst (getProductionStats (now e) p) in
               \<lparr>unitsProduced = unitsProduced st mod 2 ^ 32, production_idleTime = production_idleTime st\<rparr>)
             (map_of (m_iceflowProducers f) e),
            consumptionStats = map_option (\<lambda>c. let st = fst (getConsumptionStats (now e) c) in
               \<lparr>unitsConsumed = unitsConsumed st mod 2 ^ 32, consumption_idleTime = consumption_idleTime st\<rparr>)
             (map_of (m_iceflowConsumers f) e)\<rparr>" if "map_of result e = Some s" for e s
    using that unfolding m
    by (auto simp: production_message_def consumption_message_def truncate_u32 Let_def
        split: option.splits)
  ultimately show ?thesis using q by blast
qed

theorem queryEdgeStats_end_to_end_witness:
  "\<exists>result f'. queryEdgeStats (executor_runGrpcClient (direct_stub ref_ndn (\<lambda>_. 5000000))
       (newExecutor ''a'' ''b'')) example_iceflow = (Returned result, f') \<and>
     dom (map_of result) = {''l2w'', ''t2l''}"
proof -
  have "distinct (producer_edges example_iceflow)" "distinct (consumer_edges example_iceflow)"
    by (simp_all add: example_iceflow_edges)
  from queryEdgeStats_end_to_end [OF this, of ref_ndn "\<lambda>_. 5000000" "newExecutor ''a'' ''b''"]
  show ?thesis by (auto simp: example_iceflow_edges)
qed

text \<open>A sequence of reports: the status of each call and the state behind the channel.\<close>

fun scaler_reportAll ::
    "(CongestionReason \<times> string) list \<Rightarrow> 'x IceflowScaler \<Rightarrow> 'x \<Rightarrow> Status outcome list \<times> 'x" where
  "scaler_reportAll [] s x = ([], x)"
| "scaler_reportAll ((r, e) # reports) s x =
     (let (status, x1) = scaler_reportCongestion r e s x;
          (statuses, x2) = scaler_reportAll reports s x1
      in (status # statuses, x2))"

lemma newScaler_stub:
  "newScaler G stubOf server client iceflow mg = (s, mg') \<Longrightarrow> m_nodeExecutorService s = Some (stubOf client)"
  by (auto simp: newScaler_def scaler_runGrpcClient_def split: prod.splits)

text \<open>
  Congestion reports reach the executor. A sequence of reports sent by a scaler whose client
  address leads to the executor's service calls the executor's congestion callback once per report,
  in order, with the same reason and edge, and every call returns OK; if the executor is gone,
  a report returns \<open>INTERNAL\<close> and reaches nobody.
\<close>

theorem congestion_reports_delivered:
  assumes "newScaler G stubOf server client iceflow mg = (s, mg')" and "stubOf client = service_ReportCongestion"
  shows "(\<exists>y. scaler_reportAll reports s (Some x) =
      (replicate (length reports) (Returned Status_OK), Some y) \<and>
     congestionReports y = congestionReports x @ reports) \<and>
   scaler_reportCongestion r e s None =
     (Returned (Status_error INTERNAL ''NodeExecutorService has already been shut down''), None)"
proof -
  have stub: "m_nodeExecutorService s = Some service_ReportCongestion"
    using newScaler_stub [OF assms(1)] assms(2) by simp
  then have step: "scaler_reportCongestion r e s (Some x) = (Returned Status_OK, Some (receiveCongestionReport r e x))"
    for r e x
    by (simp add: scaler_reportCongestion_def service_ReportCongestion_def)
  have "scaler_reportAll reports s (Some x) =
     (replicate (length reports) (Returned Status_OK),
      Some (foldl (\<lambda>x (r, e). receiveCongestionReport r e x) x reports))"
    by (induction reports arbitrary: x) (auto simp: step)
  with stub show ?thesis
    by (simp add: executor_channel.delivers_all scaler_reportCongestion_def service_ReportCongestion_def)
qed

definition no_objects :: "service memory \<times> ref_grpc" where
  "no_objects = (\<lparr>objects = Map.empty, next_address = 0\<rparr>, \<lparr>rg_count = 0, rg_serving = []\<rparr>)"

theorem congestion_reports_delivered_witness:
  "\<exists>y. scaler_reportAll [(CONGESTION_REASON_PROCESSING, ''t2l''), (CONGESTION_REASON_NETWORK, ''l2w'')]
       (fst (newScaler ref_grpc_ops (\<lambda>_. service_ReportCongestion) ''n'' ''e'' 0 no_objects))
       (Some (newExecutor ''e'' ''n'' :: unit IceflowExecutor)) = ([Returned Status_OK, Returned Status_OK], Some y) \<and>
     congestionReports y = [(CONGESTION_REASON_PROCESSING, ''t2l''), (CONGESTION_REASON_NETWORK, ''l2w'')]"
proof -
  let ?new = "newScaler ref_grpc_ops (\<lambda>_. service_ReportCongestion) ''n'' ''e'' 0 no_objects ::
    unit IceflowExecutor option IceflowScaler \<times> service memory \<times> ref_grpc"
  have c: "congestionReports (newExecutor ''e'' ''n'' :: unit IceflowExecutor) = []" by (simp add: newExecutor_def)
  have s: "?new = (fst ?new, snd ?new)" by simp
  have two: "replicate (length [a, b]) x = [x, x]" for a b :: 'b and x :: 'c by simp
  note r = congestion_reports_delivered [OF s refl, THEN conjunct1,
      of "[(CONGESTION_REASON_PROCESSING, ''t2l''), (CONGESTION_REASON_NETWORK, ''l2w'')]" "newExecutor ''e'' ''n''",
      unfolded two c append_Nil]
  show ?thesis by (rule r)
qed

text \<open>
  C27: the life time of the services. The server of a scaler, when it could be started, serves the
  node's own service at the given address; every running server has a live service, and again after
  the scaler was destroyed, when exactly its server is gone. The server an executor starts serves
  an object that no longer exists when \<open>runGrpcServer\<close> has returned.
\<close>

theorem server_lifetimes:
  assumes "grpc_server G serving" and "memory_ok m" and "services_alive serving m g"
    and "newScaler G stubOf server client iceflow (m, g) = (s, m1, g1)"
    and "destroyScaler G s (m1, g1) = (m2, g2)"
    and "executor_server x = None" and "executor_runGrpcServer G self x (m, g) = (x', m3, g3)"
  shows "services_alive serving m1 g1 \<and>
    (\<forall>h. scaler_server s = Some h \<longrightarrow> (\<exists>a. serving g1 h = Some (server, a) \<and>
       objects m1 a = Some (NodeInstanceService iceflow))) \<and>
    services_alive serving m2 g2 \<and> serving g2 = serving g \<and>
    (\<forall>h. executor_server x' = Some h \<longrightarrow> \<not> services_alive serving m3 g3)"
proof -
  obtain a m' where new: "make_object (NodeInstanceService iceflow) m = (a, m')" by (rule prod.exhaust)
  obtain r g' where serve: "grpc_serve G server a g = (r, g')" by (rule prod.exhaust)
  note scaler = grpc_server.serve_new_object [OF assms(1-3) new serve]
  have s: "scaler_server s = r" "m_instanceService s = Some a" "m1 = m'" "g1 = g'"
    using assms(4) by (auto simp: newScaler_def scaler_runGrpcServer_def scaler_runGrpcClient_def new serve)
  note obj = make_object_ok [OF assms(2) new]
  have "serving g2 = (\<lambda>h. if r = Some h then None else serving g' h)"
    using assms(5) grpc_server.shut_down [OF assms(1)] s
    by (auto simp: destroyScaler_def fun_eq_iff split: option.splits)
  then have g2: "serving g2 = serving g" unfolding scaler(3) .
  have "objects m2 = (objects m')(a := None)" using assms(5) s by (auto simp: destroyScaler_def delete_object_def)
  then have "objects m2 = objects m" using obj by (auto simp: fun_eq_iff)
  with g2 assms(3) have alive2: "services_alive serving m2 g2" by (simp add: services_alive_def)
  obtain b m'' where new': "make_object (NodeExecutorService self) m = (b, m'')" by (rule prod.exhaust)
  obtain q g'' where serve': "grpc_serve G (executor_serverAddress x) b g = (q, g'')" by (rule prod.exhaust)
  note ex = grpc_server.serve_new_object [OF assms(1-3) new' serve']
  have x': "executor_server x' = q" "m3 = delete_object b m''" "g3 = g''"
    using assms(6,7) by (auto simp: executor_runGrpcServer_def new' serve')
  have "\<not> services_alive serving m3 g3" if "q = Some h" for h
    using ex(2) [OF that] by (force simp: services_alive_def x' delete_object_def intro: ranI)
  with scaler(1,2) alive2 g2 s x'(1) obj show ?thesis by auto
qed

theorem server_lifetimes_witness:
  "\<exists>x m g. executor_runGrpcServer ref_grpc_ops 0 (newExecutor ''e'' ''n'' :: unit IceflowExecutor) no_objects = (x, m, g) \<and>
     executor_server x = Some 0 \<and> \<not> services_alive ref_grpc_serving m g"
proof -
  obtain m g where mg: "no_objects = (m, g)" by (rule prod.exhaust)
  have ok: "memory_ok m" "services_alive ref_grpc_serving m g"
    using mg by (auto simp: no_objects_def memory_ok_def services_alive_def ref_grpc_serving_def)
  let ?stub = "\<lambda>_ _ (x :: unit). (Status_OK, x)"
  obtain s m1 g1 where s: "newScaler ref_grpc_ops ?stub ''n'' ''e'' 0 (m, g) = (s, m1, g1)"
    by (rule prod_cases3)
  obtain m2 g2 where d: "destroyScaler ref_grpc_ops s (m1, g1) = (m2, g2)" by (rule prod.exhaust)
  let ?run = "executor_runGrpcServer ref_grpc_ops 0 (newExecutor ''e'' ''n'' :: unit IceflowExecutor) (m, g)"
  have x: "?run = (fst ?run, fst (snd ?run), snd (snd ?run))" by simp
  have none: "executor_server (newExecutor ''e'' ''n'' :: unit IceflowExecutor) = None" by (simp add: newExecutor_def)
  have zero: "executor_server (fst ?run) = Some 0"
    using mg by (auto simp: executor_runGrpcServer_def newExecutor_def no_objects_def ref_grpc_ops_def
        make_object_def Let_def)
  note r = server_lifetimes [OF ref_grpc.grpc_server_axioms ok s d none x]
  show ?thesis unfolding mg by (intro exI conjI, rule x, rule zero) (use r zero in blast)
qed

end
