(* ===== verification/Node_Life.thy ===== *)
theory Node_Life
  imports Executor
begin

text \<open>
  The life of a node: the states an \<open>IceFlow\<close> instance reaches through its public operations,
  the gRPC handlers and the events of its loop, in any order; and the invariants of all of them.
\<close>

section \<open>Reachable nodes\<close>

inductive node_reach ::
    "('ps, 'n) ndn_ops \<Rightarrow> 'j json_ops \<Rightarrow> ('u, 'a) application \<Rightarrow> ('ps, 'j, 'u) IceFlow \<Rightarrow> bool"
  for S J app where
  created: "newIceFlow S uuid time now d nodeName reporter = Inr f \<Longrightarrow> node_reach S J app f"
| pushed: "node_reach S J app f \<Longrightarrow> pushData S payload e f = (r, f') \<Longrightarrow> node_reach S J app f'"
| consumer_repartitioned:
    "node_reach S J app f \<Longrightarrow> repartitionConsumer S ps e f = (r, f') \<Longrightarrow> node_reach S J app f'"
| producer_repartitioned:
    "node_reach S J app f \<Longrightarrow> repartitionProducer n e f = (r, f') \<Longrightarrow> node_reach S J app f'"
| callback_registered:
    "node_reach S J app f \<Longrightarrow> registerConsumerCallback cb e f = (r, f') \<Longrightarrow> node_reach S J app f'"
| stats_queried:
    "node_reach S J app f \<Longrightarrow> getConsumerStats S now f = (stats, f') \<Longrightarrow> node_reach S J app f'"
| started: "node_reach S J app f \<Longrightarrow> \<not> m_running f \<Longrightarrow> node_reach S J app (f\<lparr>m_running := True\<rparr>)"
| event:
    "node_reach S J app f \<Longrightarrow> handleEvent S J app ev (f, a) = (r, f', a') \<Longrightarrow> node_reach S J app f'"

section \<open>Well-formed nodes\<close>

text \<open>
  Every producer is in a state its class can reach and publishes on \<open>application/edge\<close>; every
  consumer reads \<open>application/edge\<close>; no edge occurs twice.
\<close>

definition producer_ok ::
    "('ps, 'n) ndn_ops \<Rightarrow> string \<Rightarrow> string \<Rightarrow> string \<Rightarrow> IceflowProducer \<Rightarrow> bool" where
  "producer_ok S np sp k p \<longleftrightarrow> producer_reach S p \<and> m_pubTopic p = sp @ ''/'' @ k \<and>
     producer_syncPrefix p = sp \<and> producer_nodePrefix p = np"

definition node_wf :: "('ps, 'n) ndn_ops \<Rightarrow> ('ps, 'j, 'u) IceFlow \<Rightarrow> bool" where
  "node_wf S f \<longleftrightarrow> distinct (producer_edges f) \<and> distinct (consumer_edges f) \<and>
     (\<forall>(k, p) \<in> set (m_iceflowProducers f). producer_ok S (m_nodePrefix f) (m_syncPrefix f) k p) \<and>
     (\<forall>(k, c) \<in> set (m_iceflowConsumers f). m_subTopic c = m_syncPrefix f @ ''/'' @ k)"

lemma all_adjust:
  assumes "\<forall>(k, v) \<in> set m. P k v" and "\<And>v. map_of m k = Some v \<Longrightarrow> P k v \<Longrightarrow> P k (g v)"
  shows "\<forall>(k', v) \<in> set (adjust k g m). P k' v"
  using assms by (induction m) (auto split: if_splits)

lemma producer_ok_push:
  assumes "producer_ok S np sp k p"
  shows "producer_ok S np sp k (fst (producer_pushData S d p lock))"
proof -
  have "producer_reach S (fst (producer_pushData S d p lock))"
    using assms by (intro producer_reach.pushed [OF _ prod.collapse [symmetric]]) (simp add: producer_ok_def)
  with assms show ?thesis by (simp add: producer_ok_def pushData_producer)
qed

lemma pushData_wf:
  assumes "node_wf S f"
  shows "node_wf S (snd (pushData S d e f))"
proof (cases "map_of (m_iceflowProducers f) e")
  case None
  with assms show ?thesis by (simp add: pushData_def)
next
  case (Some p)
  let ?p = "fst (producer_pushData S d p (Some (m_svsPubSub f)))"
  have "producer_ok S (m_nodePrefix f) (m_syncPrefix f) e p"
    using assms map_of_SomeD [OF Some] by (auto simp: node_wf_def)
  then have "\<forall>(k, p) \<in> set (adjust e (\<lambda>_. ?p) (m_iceflowProducers f)). producer_ok S (m_nodePrefix f) (m_syncPrefix f) k p"
    by (intro all_adjust producer_ok_push) (use assms in \<open>simp_all add: node_wf_def\<close>)
  with assms Some show ?thesis by (simp add: pushData_def node_wf_def split_beta Let_def)
qed

lemma setTopicPartitions_ok:
  assumes "setTopicPartitions n p = Inr p'" and "producer_ok S np sp k p"
  shows "producer_ok S np sp k p'"
proof -
  have "producer_reach S p'"
    using assms(2) by (intro producer_reach.repartitioned [OF _ assms(1)]) (simp add: producer_ok_def)
  moreover have "m_pubTopic p' = m_pubTopic p" "producer_syncPrefix p' = producer_syncPrefix p"
    "producer_nodePrefix p' = producer_nodePrefix p"
    using assms(1) by (auto simp: setTopicPartitions_eq split: if_splits)
  ultimately show ?thesis using assms(2) by (simp add: producer_ok_def)
qed

lemma repartitionProducer_wf:
  assumes "node_wf S f"
  shows "node_wf S (snd (repartitionProducer n e f))"
proof (cases "map_of (m_iceflowProducers f) e")
  case None
  with assms show ?thesis by (simp add: repartitionProducer_def)
next
  case (Some p)
  show ?thesis
  proof (cases "setTopicPartitions n p")
    case (Inl x)
    with assms Some show ?thesis by (simp add: repartitionProducer_def)
  next
    case (Inr p')
    have "producer_ok S (m_nodePrefix f) (m_syncPrefix f) e p"
      using assms map_of_SomeD [OF Some] by (auto simp: node_wf_def)
    with setTopicPartitions_ok [OF Inr] have
      "\<forall>(k, p) \<in> set (adjust e (\<lambda>_. p') (m_iceflowProducers f)). producer_ok S (m_nodePrefix f) (m_syncPrefix f) k p"
      by (intro all_adjust) (use assms in \<open>simp_all add: node_wf_def\<close>)
    with assms Some Inr show ?thesis by (simp add: repartitionProducer_def node_wf_def)
  qed
qed

text \<open>What changes only consumers, and these without their topic.\<close>

lemma consumers_wf:
  assumes "node_wf S f" and "\<And>c. m_subTopic (g c) = m_subTopic c"
  shows "node_wf S (f\<lparr>m_svsPubSub := ps, m_running := b, m_iceflowConsumers := adjust e g (m_iceflowConsumers f)\<rparr>)"
proof -
  have "\<forall>(k, c) \<in> set (adjust e g (m_iceflowConsumers f)). m_subTopic c = m_syncPrefix f @ ''/'' @ k"
    by (rule all_adjust) (use assms in \<open>simp_all add: node_wf_def\<close>)
  with assms(1) show ?thesis by (simp add: node_wf_def)
qed

lemma repartition_topic [simp]:
  "m_subTopic (fst (snd (repartition S this ps c lock))) = m_subTopic c"
proof -
  have "m_subTopic (fst (snd (subscribeAll S this ps c lock))) = m_subTopic c" for c lock
    by (induction S this ps c lock rule: subscribeAll.induct)
      (auto simp: subscribeToTopicPartition_def split: prod.splits sum.splits option.splits)
  then have "m_subTopic c2 = m_subTopic c1" if "subscribeAll S this ps c1 l1 = (r, c2, l2)" for r c1 c2 l1 l2
    using that by (metis fst_conv snd_conv)
  then show ?thesis
    by (fastforce simp: repartition_def unsubscribeFromAllPartitions_def split: prod.splits sum.splits)
qed

lemma repartitionConsumer_wf:
  assumes "node_wf S f"
  shows "node_wf S (snd (repartitionConsumer S' ps e f))"
proof (cases "map_of (m_iceflowConsumers f) e")
  case None
  with assms show ?thesis by (simp add: repartitionConsumer_def)
next
  case (Some c)
  let ?c = "fst (snd (repartition S' e ps c (Some (m_svsPubSub f))))"
  have "m_subTopic c = m_syncPrefix f @ ''/'' @ e"
    using assms map_of_SomeD [OF Some] by (auto simp: node_wf_def)
  then have "\<forall>(k, c) \<in> set (adjust e (\<lambda>_. ?c) (m_iceflowConsumers f)). m_subTopic c = m_syncPrefix f @ ''/'' @ k"
    by (intro all_adjust) (use assms in \<open>simp_all add: node_wf_def\<close>)
  with assms Some show ?thesis by (simp add: repartitionConsumer_def node_wf_def split_beta Let_def)
qed

lemma registerConsumerCallback_wf:
  assumes "node_wf S f"
  shows "node_wf S (snd (registerConsumerCallback cb e f))"
  using consumers_wf [OF assms, where g = "setConsumerCallback cb" and ps = "m_svsPubSub f"
      and b = "m_running f" and e = e] assms
  by (simp add: registerConsumerCallback_def setConsumerCallback_def split: option.split)

lemma pubsub_wf [simp]:
  "node_wf S (f\<lparr>m_svsPubSub := ps\<rparr>) \<longleftrightarrow> node_wf S f"
  "node_wf S (f\<lparr>m_running := b\<rparr>) \<longleftrightarrow> node_wf S f"
  by (simp_all add: node_wf_def)

lemma getConsumerStats_wf: "node_wf S f \<Longrightarrow> node_wf S (snd (getConsumerStats S' now f))"
  by (simp add: getConsumerStats_def split_beta)

lemma runScript_wf:
  "node_wf S f \<Longrightarrow> node_wf S (fst (snd (runScript S pushes r a f)))"
proof (induction S pushes r a f rule: runScript.induct)
  case (2 S e d a1 pushes r a f)
  obtain x f1 where push: "pushData S d e f = (x, f1)" by (cases "pushData S d e f")
  with pushData_wf [OF "2.prems", of d e] have "node_wf S f1" by simp
  with 2 push show ?case by (cases x) simp_all
qed simp

lemma invokeCallback_wf:
  "node_wf S f \<Longrightarrow> node_wf S (fst (snd (invokeCallback S app cb d (f, a))))"
  using runScript_wf by (cases cb) (simp_all add: split_beta)

lemma onConsumerData_wf:
  assumes "node_wf S f"
  shows "node_wf S (fst (snd (onConsumerData S J app e d now (f, a))))"
proof (cases "map_of (m_iceflowConsumers f) e")
  case None
  with assms show ?thesis by (simp add: onConsumerData_def)
next
  case c: (Some c)
  show ?thesis
  proof (cases "m_consumerCallback c")
    case None
    with assms c show ?thesis by (simp add: onConsumerData_def subscribeCallBack_def adjust_same)
  next
    case cb: (Some cb)
    obtain r f1 a1 where inv1: "invokeCallback S app cb (sub_data d) (f, a) = (r, f1, a1)"
      by (rule prod_cases3)
    have wf1: "node_wf S f1" using invokeCallback_wf [OF assms] inv1 by (metis fst_conv snd_conv)
    have same: "m_iceflowConsumers f1 = m_iceflowConsumers f"
      using inv1 by (cases cb) (auto split: prod.splits dest: arg_cong [of _ _ "\<lambda>x. m_iceflowConsumers (fst (snd x))"])
    have topic: "m_subTopic c = m_syncPrefix f1 @ ''/'' @ e"
      using wf1 same map_of_SomeD [OF c] by (auto simp: node_wf_def)
    then have "\<forall>(k, c) \<in> set (adjust e (\<lambda>_. consumer_saveTimestamp now c) (m_iceflowConsumers f1)).
        m_subTopic c = m_syncPrefix f1 @ ''/'' @ k"
      by (intro all_adjust) (use wf1 in \<open>simp_all add: node_wf_def\<close>)
    then have ack: "node_wf S (f1\<lparr>m_svsPubSub := ps,
        m_iceflowConsumers := adjust e (\<lambda>_. consumer_saveTimestamp now c) (m_iceflowConsumers f1)\<rparr>)" for ps
      using wf1 by (simp add: node_wf_def)
    show ?thesis
    proof (cases r)
      case (Inl x)
      with onConsumerData_raised [OF c cb inv1 [unfolded Inl] same] wf1 show ?thesis by simp
    next
      case (Inr u)
      have "invokeCallback S app cb (sub_data d) (f, a) = (Inr (), f1, a1)" using inv1 Inr by simp
      from onConsumerData_returned [OF c cb this] ack show ?thesis by simp
    qed
  qed
qed

lemma handleEvent_wf:
  assumes "node_wf S f"
  shows "node_wf S (fst (snd (handleEvent S J app ev (f, a))))"
proof (cases ev)
  case (Arrived cb d now)
  with assms onConsumerData_wf show ?thesis
    by (cases cb) (simp_all add: split_beta)
next
  case Shutdown
  with assms show ?thesis by (simp add: shutdown_def)
qed (use assms in simp_all)

lemma reach_wf: "node_reach S J app f \<Longrightarrow> node_wf S f"
proof (induction rule: node_reach.induct)
  case (created uuid time now d nodeName reporter f)
  from newIceFlow_state [OF this] obtain node where "findNodeByName d nodeName = Inr node"
    and *: "distinct (producer_edges f)" "distinct (consumer_edges f)"
    "\<forall>kp \<in> set (m_iceflowProducers f). producer_for S (m_nodePrefix f) (m_syncPrefix f) (downstream node) kp"
    "\<forall>(k, c) \<in> set (m_iceflowConsumers f). c = storedConsumer (m_syncPrefix f) k reporter (now k)"
    by blast
  have "\<forall>(k, p) \<in> set (m_iceflowProducers f). producer_ok S (m_nodePrefix f) (m_syncPrefix f) k p"
    using *(3) by (auto simp: producer_for_def producer_ok_def)
  moreover have "\<forall>(k, c) \<in> set (m_iceflowConsumers f). m_subTopic c = m_syncPrefix f @ ''/'' @ k"
    using *(4) by (auto simp: newConsumer_def)
  ultimately show ?case using *(1,2) by (simp add: node_wf_def)
next
  case (pushed f payload e r f')
  then show ?case using pushData_wf by (metis snd_conv)
next
  case (consumer_repartitioned f ps e r f')
  then show ?case using repartitionConsumer_wf by (metis snd_conv)
next
  case (producer_repartitioned f n e r f')
  then show ?case using repartitionProducer_wf by (metis snd_conv)
next
  case (callback_registered f cb e r f')
  then show ?case using registerConsumerCallback_wf by (metis snd_conv)
next
  case (stats_queried f now stats f')
  then show ?case using getConsumerStats_wf by (metis snd_conv)
next
  case (event f ev a r f' a')
  then show ?case using handleEvent_wf by (metis fst_conv snd_conv)
qed simp

section \<open>The back channels of a new node\<close>

lemma constructProducers_svs:
  assumes "svs S invar used subs pubs store" and "invar (m_svsPubSub f)"
    and "used (m_svsPubSub f) + length es < 2 ^ 32" and "constructProducers S time es f = Inr f'"
  shows "invar (m_svsPubSub f') \<and> used (m_svsPubSub f') = used (m_svsPubSub f) + length es \<and>
    pubs (m_svsPubSub f') = pubs (m_svsPubSub f) \<and> subs (m_svsPubSub f) \<subseteq>\<^sub>m subs (m_svsPubSub f') \<and>
    (\<forall>e \<in> set es. (backchannelName S (m_syncPrefix f @ ''/'' @ edge_id e),
       Backchannel_handler (m_nodePrefix f) (m_syncPrefix f)) \<in> ran (subs (m_svsPubSub f'))) \<and>
    ran (subs (m_svsPubSub f')) \<subseteq> ran (subs (m_svsPubSub f)) \<union>
      (\<lambda>e. (backchannelName S (m_syncPrefix f @ ''/'' @ edge_id e),
        Backchannel_handler (m_nodePrefix f) (m_syncPrefix f))) ` set es"
  using assms(2-)
proof (induction es arbitrary: f)
  case Nil
  then show ?case by simp
next
  case (Cons e es)
  let ?bc = "backchannelName S (m_syncPrefix f @ ''/'' @ edge_id e)"
  let ?h = "Backchannel_handler (m_nodePrefix f) (m_syncPrefix f)"
  obtain h ps where sub: "svs_subscribe S (m_svsPubSub f) ?bc ?h = (h, ps)"
    by (cases "svs_subscribe S (m_svsPubSub f) ?bc ?h")
  have "used (m_svsPubSub f) < 2 ^ 32 - 1" using Cons.prems(2) by simp
  note ps = svs.subscribe [OF assms(1) Cons.prems(1) this sub]
  obtain p where p: "newProducer S (m_nodePrefix f) (m_syncPrefix f) (edge_id e) (maxPartitions e)
      (m_congestionReporter f) (time (edge_id e)) (Some (m_svsPubSub f)) = (Inr p, Some ps)"
    using Cons.prems(3) sub by (auto simp: newProducer_cases Let_def split: if_splits)
  let ?f = "f\<lparr>m_svsPubSub := ps, m_iceflowProducers := emplace (edge_id e) (p\<lparr>m_downstreamEdgeName := Dangling\<rparr>) (m_iceflowProducers f)\<rparr>"
  have "constructProducers S time es ?f = Inr f'" using Cons.prems(3) p by simp
  moreover have "invar (m_svsPubSub ?f)" "used (m_svsPubSub ?f) + length es < 2 ^ 32"
    using ps Cons.prems(2) by simp_all
  ultimately have IH: "invar (m_svsPubSub f')" "used (m_svsPubSub f') = used ps + length es"
    "pubs (m_svsPubSub f') = pubs ps" "subs ps \<subseteq>\<^sub>m subs (m_svsPubSub f')"
    "\<forall>e \<in> set es. (backchannelName S (m_syncPrefix f @ ''/'' @ edge_id e), ?h) \<in> ran (subs (m_svsPubSub f'))"
    "ran (subs (m_svsPubSub f')) \<subseteq> ran (subs ps) \<union>
      (\<lambda>e. (backchannelName S (m_syncPrefix f @ ''/'' @ edge_id e), ?h)) ` set es"
    using Cons.IH [of ?f] by simp_all
  have "subs (m_svsPubSub f) h = None" and "subs ps = (subs (m_svsPubSub f))(h \<mapsto> (?bc, ?h))"
    using ps by blast+
  then have "ran (subs ps) = insert (?bc, ?h) (ran (subs (m_svsPubSub f)))" by (simp only: ran_map_upd)
  then have new: "ran (subs (m_svsPubSub f')) \<subseteq> ran (subs (m_svsPubSub f)) \<union>
      (\<lambda>e. (backchannelName S (m_syncPrefix f @ ''/'' @ edge_id e), ?h)) ` set (e # es)"
    using IH(6) by auto
  have "subs (m_svsPubSub f') h = Some (?bc, ?h)"
    using IH(4) ps by (auto simp: map_le_def)
  moreover have "subs (m_svsPubSub f) \<subseteq>\<^sub>m subs (m_svsPubSub f')"
    using IH(4) ps by (intro map_le_trans [OF _ IH(4)]) (auto simp: map_le_def)
  ultimately show ?case using IH(1-5) ps new by (auto intro: ranI)
qed

lemma newIceFlow_producers:
  fixes f :: "('ps, 'j, 'u) IceFlow"
  assumes "findNodeByName d nodeName = Inr node" and "newIceFlow S uuid time now d nodeName r = Inr f"
  obtains f0 f1 :: "('ps, 'j, 'u) IceFlow" where "constructProducers S time (downstream node) f0 = Inr f1"
    and "m_svsPubSub f0 = svs_new S (name_of S (m_syncPrefix f)) (name_of S (m_nodePrefix f))"
    and "m_syncPrefix f0 = m_syncPrefix f" and "m_nodePrefix f0 = m_nodePrefix f"
    and "m_svsPubSub f = m_svsPubSub f1"
proof -
  let ?np = "generateNodePrefix uuid (m_applicationName d)"
  let ?f0 = "\<lparr>m_running = False,
      m_svsPubSub = svs_new S (name_of S (m_applicationName d)) (name_of S ?np),
      m_nodePrefix = ?np, m_syncPrefix = m_applicationName d,
      m_iceflowProducers = [], m_iceflowConsumers = [], m_congestionReporter = r, m_node = node,
      m_downstreamEdges = downstream node, m_upstreamEdges = map snd (findUpstreamEdges d node)\<rparr>"
  obtain f1 where f1: "constructProducers S time (downstream node) ?f0 = Inr f1"
    and f: "f = constructConsumers S now (map snd (findUpstreamEdges d node)) f1"
    using assms by (auto simp: newIceFlow_def bindE_Inr_iff Let_def)
  have "m_iceflowConsumers f1 = [] \<and> (\<exists>ps m. f1 = ?f0\<lparr>m_svsPubSub := ps, m_iceflowProducers := m\<rparr>)"
    using constructProducers_ok [OF f1 subset_refl] by auto
  moreover from this have "\<exists>m. f = f1\<lparr>m_iceflowConsumers := m\<rparr>"
    using constructConsumers_ok [of f1 now S "map snd (findUpstreamEdges d node)"] f by auto
  ultimately have "m_svsPubSub f = m_svsPubSub f1" "m_syncPrefix f = m_applicationName d" "m_nodePrefix f = ?np"
    by auto
  with f1 show thesis by (intro that [of ?f0 f1]) simp_all
qed

lemma newIceFlow_svs:
  fixes f :: "('ps, 'j, 'u) IceFlow"
  assumes "svs S invar used subs pubs store" and "findNodeByName d nodeName = Inr node"
    and "length (downstream node) < 2 ^ 32" and "newIceFlow S uuid time now d nodeName r = Inr f"
  shows "invar (m_svsPubSub f) \<and> used (m_svsPubSub f) = length (downstream node) \<and>
    pubs (m_svsPubSub f) = [] \<and>
    (\<forall>e \<in> set (downstream node). (backchannelName S (m_syncPrefix f @ ''/'' @ edge_id e),
       Backchannel_handler (m_nodePrefix f) (m_syncPrefix f)) \<in> ran (subs (m_svsPubSub f))) \<and>
    ran (subs (m_svsPubSub f)) \<subseteq> (\<lambda>e. (backchannelName S (m_syncPrefix f @ ''/'' @ edge_id e),
      Backchannel_handler (m_nodePrefix f) (m_syncPrefix f))) ` set (downstream node)"
proof (rule newIceFlow_producers [OF assms(2,4)])
  fix f0 f1 :: "('ps, 'j, 'u) IceFlow"
  assume f1: "constructProducers S time (downstream node) f0 = Inr f1"
    and f0: "m_svsPubSub f0 = svs_new S (name_of S (m_syncPrefix f)) (name_of S (m_nodePrefix f))"
    "m_syncPrefix f0 = m_syncPrefix f" "m_nodePrefix f0 = m_nodePrefix f" "m_svsPubSub f = m_svsPubSub f1"
  show ?thesis
    using constructProducers_svs [OF assms(1) _ _ f1] svs.new_simps [OF assms(1)] assms(3) by (simp add: f0)
qed

section \<open>Properties\<close>

text \<open>
  A new node is ready. When construction succeeds on a DAG node with fewer than \<open>2 ^ 32\<close>
  downstream edges, every edge's back channel is subscribed with this node's handler, nothing has
  been published, and no consumer holds a handle that is not live.
\<close>

theorem newIceFlow_ready:
  assumes "svs S invar used subs pubs store" and "findNodeByName d nodeName = Inr node"
    and "length (downstream node) < 2 ^ 32" and "newIceFlow S uuid time now d nodeName r = Inr f"
  shows "invar (m_svsPubSub f) \<and> pubs (m_svsPubSub f) = [] \<and> node_live S subs f \<and>
    (\<forall>e \<in> set (producer_edges f). (backchannelName S (m_syncPrefix f @ ''/'' @ e),
       Backchannel_handler (m_nodePrefix f) (m_syncPrefix f)) \<in> ran (subs (m_svsPubSub f)))"
proof -
  have "set (producer_edges f) = edge_id ` set (downstream node)"
    and "\<forall>(k, c) \<in> set (m_iceflowConsumers f). c = storedConsumer (m_syncPrefix f) k r (now k)"
    using newIceFlow_state [OF assms(4)] assms(2) by auto
  moreover from this(2) have "node_live S subs f"
    by (intro node_live_fresh) (auto simp: newConsumer_def)
  ultimately show ?thesis using newIceFlow_svs [OF assms] by auto
qed

theorem newIceFlow_ready_witness:
  "(backchannelName ref_ndn (m_syncPrefix example_iceflow @ ''/'' @ ''l2w''),
     Backchannel_handler (m_nodePrefix example_iceflow) (m_syncPrefix example_iceflow))
   \<in> ran (ref_subs (m_svsPubSub example_iceflow))"
proof -
  have "findNodeByName example_dag ''lines2words'' = Inr (m_nodes example_dag ! 1)"
    by (simp add: example_dag_def findNodeByName_def example_node_def)
  moreover have "length (downstream (m_nodes example_dag ! 1)) < 2 ^ 32" by (simp add: example_dag_def)
  ultimately show ?thesis
    using newIceFlow_ready [OF ref_svs.svs_axioms _ _ example_iceflow_new] by (simp add: example_iceflow_edges)
qed

text \<open>
  C20: what every reachable node satisfies. Through any sequence of public operations and events,
  no edge has two producers or two consumers, every producer publishes on
  \<open>application/edge\<close> from a state its class can reach (so with a positive number of partitions and
  a well-formed generator), and every consumer reads \<open>application/edge\<close>.
\<close>

theorem node_reach_invariant:
  assumes "node_reach S J app f"
  shows "distinct (producer_edges f) \<and> distinct (consumer_edges f) \<and>
    (\<forall>(k, p) \<in> set (m_iceflowProducers f).
       m_pubTopic p = m_syncPrefix f @ ''/'' @ k \<and> m_numberOfPartitions p \<noteq> 0 \<and>
       m_topicPartitions p \<noteq> {} \<and> mt_ok (m_randomNumberGenerator p)) \<and>
    (\<forall>(k, c) \<in> set (m_iceflowConsumers f). m_subTopic c = m_syncPrefix f @ ''/'' @ k)"
  using reach_wf [OF assms] producer_reach_invar [of S]
  by (fastforce simp: node_wf_def producer_ok_def producer_invar_def)

lemma example_reach: "node_reach ref_ndn ref_json app example_iceflow"
  by (rule node_reach.created [OF example_iceflow_new])

theorem node_reach_invariant_witness:
  "distinct (producer_edges (snd (pushData ref_ndn [1] ''l2w'' example_iceflow))) \<and>
   list_all (\<lambda>(k, p). m_numberOfPartitions p \<noteq> 0 \<and> mt_ok (m_randomNumberGenerator p))
     (m_iceflowProducers (snd (pushData ref_ndn [1] ''l2w'' example_iceflow)))"
proof -
  have "node_reach ref_ndn ref_json example_app (snd (pushData ref_ndn [1] ''l2w'' example_iceflow))"
    by (rule node_reach.pushed [OF example_reach prod.collapse [symmetric]])
  from node_reach_invariant [OF this] show ?thesis unfolding list_all_iff by blast
qed

text \<open>
  The executor never sees any production. Whatever a reachable node has pushed, the statistics
  its executor obtains over the gRPC service report zero produced units on every edge.
\<close>

theorem executor_sees_no_production:
  assumes "node_reach S J app f"
    and "queryEdgeStats (executor_runGrpcClient (direct_stub S now) x) f = (Returned result, f')"
    and "map_of result e = Some s" and "productionStats s = Some st"
  shows "unitsProduced st = 0"
proof -
  have wf: "node_wf S f" by (rule reach_wf [OF assms(1)])
  then have "distinct (producer_edges f)" "distinct (consumer_edges f)" by (simp_all add: node_wf_def)
  from direct_query [OF this, of S now x] assms(2) have result: "map_of result = (\<lambda>e.
      case map_option (\<lambda>c. consumption_of (consumption_message (e, fst (getConsumptionStats (now e) c))))
             (map_of (m_iceflowConsumers f) e) of
        None \<Rightarrow> map_option (\<lambda>p. \<lparr>productionStats =
            Some (production_of (production_message (e, fst (getProductionStats (now e) p)))),
            consumptionStats = None\<rparr>) (map_of (m_iceflowProducers f) e)
      | Some s \<Rightarrow> Some \<lparr>productionStats = map_option
            (\<lambda>p. production_of (production_message (e, fst (getProductionStats (now e) p))))
            (map_of (m_iceflowProducers f) e), consumptionStats = Some s\<rparr>)"
    by auto
  obtain p where p: "map_of (m_iceflowProducers f) e = Some p"
    and st: "st = production_of (production_message (e, fst (getProductionStats (now e) p)))"
    using assms(3,4) unfolding result by (auto split: option.splits)
  have "producer_reach S p" using wf map_of_SomeD [OF p] by (auto simp: node_wf_def producer_ok_def)
  then show ?thesis
    by (simp add: st production_message_def getProductionStats_invar [OF producer_reach_invar])
qed

theorem executor_sees_no_production_witness:
  "\<exists>result f'. queryEdgeStats (executor_runGrpcClient (direct_stub ref_ndn (\<lambda>_. 5))
       (newExecutor ''a'' ''b'')) (snd (pushData ref_ndn [1] ''l2w'' example_iceflow)) = (Returned result, f') \<and>
     (\<forall>s st. map_of result ''l2w'' = Some s \<longrightarrow> productionStats s = Some st \<longrightarrow> unitsProduced st = 0)"
proof -
  let ?f = "snd (pushData ref_ndn [1] ''l2w'' example_iceflow)"
  have reach: "node_reach ref_ndn ref_json example_app ?f"
    by (rule node_reach.pushed [OF example_reach prod.collapse [symmetric]])
  have "distinct (producer_edges ?f)" "distinct (consumer_edges ?f)"
    using reach_wf [OF reach] by (simp_all add: node_wf_def)
  from direct_query [OF this, of ref_ndn "\<lambda>_. 5" "newExecutor ''a'' ''b''"] obtain result f' where
    q: "queryEdgeStats (executor_runGrpcClient (direct_stub ref_ndn (\<lambda>_. 5)) (newExecutor ''a'' ''b'')) ?f =
      (Returned result, f')" by blast
  from executor_sees_no_production [OF reach q] q show ?thesis by blast
qed

end
