(* ===== verification/Node_Frame.thy ===== *)
theory Node_Frame
  imports Node_Life
begin

text \<open>
  What every operation of a node leaves alone (its prefixes, its consumers' edges, the edges and
  partition counts of its producers), which publications each operation adds, and which
  subscriptions it leaves: the facts a network of nodes is built on.
\<close>

section \<open>The identity of a node\<close>

definition partition_counts :: "('ps, 'j, 'u) IceFlow \<Rightarrow> (string \<times> u32) list" where
  "partition_counts f = map (\<lambda>(k, p). (k, m_numberOfPartitions p)) (m_iceflowProducers f)"

definition node_frame :: "('ps, 'j, 'u) IceFlow \<Rightarrow> ('ps, 'j, 'u) IceFlow \<Rightarrow> bool" where
  "node_frame f f' \<longleftrightarrow> m_syncPrefix f' = m_syncPrefix f \<and> m_nodePrefix f' = m_nodePrefix f \<and>
     consumer_edges f' = consumer_edges f \<and> partition_counts f' = partition_counts f"

lemma frame_refl [simp, intro]: "node_frame f f"
  by (simp add: node_frame_def)

lemma frame_trans [trans]: "node_frame f g \<Longrightarrow> node_frame g h \<Longrightarrow> node_frame f h"
  by (simp add: node_frame_def)

lemma producer_edges_counts: "producer_edges f = map fst (partition_counts f)"
  by (simp add: partition_counts_def comp_def split_beta)

lemma frame_producer_edges: "node_frame f f' \<Longrightarrow> producer_edges f' = producer_edges f"
  by (simp add: node_frame_def producer_edges_counts)

lemma partition_counts_lookup:
  "map_of (partition_counts f) e = map_option m_numberOfPartitions (map_of (m_iceflowProducers f) e)"
  by (simp add: partition_counts_def map_of_map_value)

lemma map_adjust_same:
  "(\<And>v. map_of m k = Some v \<Longrightarrow> g (h v) = g v) \<Longrightarrow>
     map (\<lambda>(k, v). (k, g v)) (adjust k h m) = map (\<lambda>(k, v). (k, g v)) m"
  by (induction k h m rule: adjust.induct) (auto split: if_splits)

lemma frame_producers:
  assumes "map_of (m_iceflowProducers f) e = Some p" and "m_numberOfPartitions p' = m_numberOfPartitions p"
  shows "node_frame f (f\<lparr>m_svsPubSub := ps,
    m_iceflowProducers := adjust e (\<lambda>_. p') (m_iceflowProducers f)\<rparr>)"
  using map_adjust_same [of "m_iceflowProducers f" e m_numberOfPartitions "\<lambda>_. p'"] assms
  by (simp add: node_frame_def partition_counts_def)

lemma frame_consumers:
  "node_frame f (f\<lparr>m_svsPubSub := ps, m_running := b,
     m_iceflowConsumers := adjust e g (m_iceflowConsumers f)\<rparr>)"
  by (simp add: node_frame_def partition_counts_def)

lemma frame_pubsub [simp]:
  "node_frame f (g\<lparr>m_svsPubSub := ps\<rparr>) \<longleftrightarrow> node_frame f g"
  "node_frame f (g\<lparr>m_running := b\<rparr>) \<longleftrightarrow> node_frame f g"
  "node_frame f (g\<lparr>m_iceflowConsumers := adjust e h (m_iceflowConsumers g)\<rparr>) \<longleftrightarrow> node_frame f g"
  by (simp_all add: node_frame_def partition_counts_def)

lemma pushData_node_frame: "node_frame f (snd (pushData S d e f))"
proof (cases "map_of (m_iceflowProducers f) e")
  case None
  then show ?thesis by (simp add: pushData_def)
next
  case (Some p)
  have "m_numberOfPartitions (fst (producer_pushData S d p (Some (m_svsPubSub f)))) = m_numberOfPartitions p"
    by (simp add: pushData_producer)
  from frame_producers [OF Some this] Some show ?thesis
    by (simp add: pushData_def split_beta Let_def)
qed

lemma repartitionProducer_frame:
  "node_frame f (snd (repartitionProducer n e f))"
  "m_svsPubSub (snd (repartitionProducer n e f)) = m_svsPubSub f"
proof -
  show "m_svsPubSub (snd (repartitionProducer n e f)) = m_svsPubSub f"
    by (simp add: repartitionProducer_def split: option.split sum.split)
  show "node_frame f (snd (repartitionProducer n e f))"
  proof (cases "map_of (m_iceflowProducers f) e")
    case None
    then show ?thesis by (simp add: repartitionProducer_def)
  next
    case (Some p)
    have "node_frame f (f\<lparr>m_iceflowProducers := adjust e (\<lambda>_. p') (m_iceflowProducers f)\<rparr>)"
      if "setTopicPartitions n p = Inr p'" for p'
      using frame_producers [OF Some, of p' "m_svsPubSub f"] that
      by (auto simp: setTopicPartitions_eq split: if_splits)
    with Some show ?thesis by (simp add: repartitionProducer_def split: sum.split)
  qed
qed

lemma registerConsumerCallback_frame:
  "node_frame f (snd (registerConsumerCallback cb e f))"
  "m_svsPubSub (snd (registerConsumerCallback cb e f)) = m_svsPubSub f"
  by (simp_all add: registerConsumerCallback_def split: option.split)

lemma getConsumerStats_frame: "node_frame f (snd (getConsumerStats S now f))"
  by (simp add: getConsumerStats_def split_beta)

lemma repartitionConsumer_frame: "node_frame f (snd (repartitionConsumer S ps e f))"
  by (simp add: repartitionConsumer_def node_frame_def partition_counts_def split_beta Let_def
      split: option.split)

lemma runScript_node_frame: "node_frame f (fst (snd (runScript S pushes r a f)))"
proof (induction S pushes r a f rule: runScript.induct)
  case (2 S e d a1 pushes r a f)
  obtain x f1 where push: "pushData S d e f = (x, f1)" by (cases "pushData S d e f")
  with pushData_node_frame [of f S d e] have "node_frame f f1" by simp
  with 2 push show ?case by (cases x) (auto intro: frame_trans)
qed simp

lemma invokeCallback_frame: "node_frame f (fst (snd (invokeCallback S app cb d (f, a))))"
  using runScript_node_frame by (cases cb) (simp_all add: split_beta)

lemma onConsumerData_frame: "node_frame f (fst (snd (onConsumerData S J app e d now (f, a))))"
proof (cases "map_of (m_iceflowConsumers f) e")
  case None
  then show ?thesis by (simp add: onConsumerData_def)
next
  case c: (Some c)
  show ?thesis
  proof (cases "m_consumerCallback c")
    case None
    with c show ?thesis by (simp add: onConsumerData_def subscribeCallBack_def adjust_same)
  next
    case (Some cb)
    have "node_frame f (fst (snd (invokeCallback S app cb (sub_data d) (f, a))))"
      by (rule invokeCallback_frame)
    with c Some show ?thesis
      by (auto simp: onConsumerData_def subscribeCallBack_def Let_def split_beta split: prod.split sum.split)
  qed
qed

lemma handleEvent_frame: "node_frame f (fst (snd (handleEvent S J app ev (f, a))))"
proof (cases ev)
  case (Arrived cb d now)
  with onConsumerData_frame [of f S J app] show ?thesis by (cases cb) (simp_all add: split_beta)
qed (simp_all add: shutdown_def)

section \<open>Publications\<close>

text \<open>
  The two kinds of publication of a node: a unit on a partition of one of its downstream edges,
  under its own prefix, and the acknowledgement of a number on the back channel of one of its
  upstream edges.
\<close>

definition topicName :: "('ps, 'n) ndn_ops \<Rightarrow> string \<Rightarrow> string \<Rightarrow> u32 \<Rightarrow> 'n" where
  "topicName S syncPrefix e q = name_append_number S (name_of S (syncPrefix @ ''/'' @ e)) (ucast q)"

definition data_publication ::
    "('ps, 'n) ndn_ops \<Rightarrow> ('ps, 'j, 'u) IceFlow \<Rightarrow> string \<Rightarrow> 'n publication \<Rightarrow> bool" where
  "data_publication S f e = (\<lambda>(n, d, who, seq). \<exists>k q. map_of (partition_counts f) e = Some k \<and> q < k \<and>
     n = topicName S (m_syncPrefix f) e q \<and> who = Some (name_of S (m_nodePrefix f)))"

definition ack_publication ::
    "('ps, 'n) ndn_ops \<Rightarrow> 'j json_ops \<Rightarrow> ('ps, 'j, 'u) IceFlow \<Rightarrow> string \<Rightarrow> u64
       \<Rightarrow> 'n publication \<Rightarrow> bool" where
  "ack_publication S J f e s = (\<lambda>(n, d, who, seq). e \<in> set (consumer_edges f) \<and>
     n = backchannelName S (m_syncPrefix f @ ''/'' @ e) \<and> d = ackPayload J s \<and> who = None)"

lemma publications_frame:
  assumes "node_frame f f'"
  shows "data_publication S f' = data_publication S f"
    and "ack_publication S J f' = ack_publication S J f"
  using assms by (simp_all add: node_frame_def data_publication_def ack_publication_def fun_eq_iff)

lemma data_publication_edge: "data_publication S f e x \<Longrightarrow> e \<in> set (producer_edges f)"
  by (auto simp: data_publication_def producer_edges_counts dest!: map_of_SomeD intro: rev_image_eqI)

lemma producer_of_edge:
  assumes "node_wf S f" and "map_of (m_iceflowProducers f) e = Some p"
  shows "m_pubTopic p = m_syncPrefix f @ ''/'' @ e" and "producer_nodePrefix p = m_nodePrefix f"
    and "m_numberOfPartitions p \<noteq> 0"
    and "producer_prepareDataName S p = topicName S (m_syncPrefix f) e"
proof -
  have "producer_ok S (m_nodePrefix f) (m_syncPrefix f) e p"
    using assms map_of_SomeD by (force simp: node_wf_def)
  then show topic: "m_pubTopic p = m_syncPrefix f @ ''/'' @ e"
    and "producer_nodePrefix p = m_nodePrefix f" and "m_numberOfPartitions p \<noteq> 0"
    using producer_reach_invar [of S p] by (simp_all add: producer_ok_def producer_invar_def)
  show "producer_prepareDataName S p = topicName S (m_syncPrefix f) e"
    by (simp add: producer_prepareDataName_def topicName_def topic fun_eq_iff)
qed

lemma published_data:
  assumes "node_wf S f" and "published_by S (map_of (m_iceflowProducers f)) push x"
  shows "data_publication S f (fst push) x"
proof -
  obtain e d z where push: "push = (e, d, z)" by (rule prod_cases3)
  obtain n d' who seq where x: "x = (n, d', who, seq)" by (rule prod_cases4)
  with assms(2) obtain p q where p: "map_of (m_iceflowProducers f) e = Some p"
    and q: "m_numberOfPartitions p = 0 \<or> q < m_numberOfPartitions p"
    and n: "n = producer_prepareDataName S p q" "who = Some (name_of S (producer_nodePrefix p))"
    unfolding published_by_def push by blast
  from producer_of_edge [OF assms(1) p] p q n show ?thesis
    by (auto simp: x push data_publication_def partition_counts_lookup)
qed

lemma list_all2_right: "list_all2 (\<lambda>_. P) xs ys \<Longrightarrow> y \<in> set ys \<Longrightarrow> P y"
  by (induction rule: list_all2_induct) auto

lemma script_publications:
  assumes "svs S invar used subs pubs store" and "invar (m_svsPubSub f)" and "node_wf S f"
  shows "\<exists>new. pubs (m_svsPubSub (fst (snd (runScript S pushes r a f)))) = pubs (m_svsPubSub f) @ new \<and>
    (\<forall>x \<in> set new. \<exists>e. data_publication S f e x)"
proof -
  obtain f' new where f': "pubs (m_svsPubSub f') = pubs (m_svsPubSub f) @ new"
    and new: "list_all2 (published_by S (map_of (m_iceflowProducers f))) (takeWhile (has_producer f) pushes) new"
    and run: "runScript S pushes r a f =
      (case dropWhile (has_producer f) pushes of
         [] \<Rightarrow> (r, f', a) | (e, _, a1) # _ \<Rightarrow> (Inl (no_producer e), f', a1))"
    using runScript_effect [OF assms(1,2), of pushes r a] by blast
  have "fst (snd (runScript S pushes r a f)) = f'"
    unfolding run by (auto split: list.split)
  moreover have "list_all2 (\<lambda>_ x. \<exists>e. data_publication S f e x) (takeWhile (has_producer f) pushes) new"
    using new by (rule list_all2_mono) (use published_data [OF assms(3)] in blast)
  then have "\<exists>e. data_publication S f e x" if "x \<in> set new" for x
    using that by (rule list_all2_right)
  ultimately show ?thesis using f' by blast
qed

lemma callback_publications:
  assumes "svs S invar used subs pubs store" and "invar (m_svsPubSub f)" and "node_wf S f"
    and "invokeCallback S app cb d (f, a) = (r, f1, a1)"
  shows "\<exists>new. pubs (m_svsPubSub f1) = pubs (m_svsPubSub f) @ new \<and>
    (\<forall>x \<in> set new. \<exists>e. data_publication S f e x)"
proof (cases cb)
  case (Plain u)
  with assms(4) show ?thesis by (auto split: prod.splits)
next
  case (Prosumer u)
  obtain pushes r' a' where "run_prosumer app u d a = (pushes, r', a')" by (rule prod_cases3)
  with assms(4) Prosumer have "f1 = fst (snd (runScript S pushes r' a' f))" by simp
  then show ?thesis using script_publications [OF assms(1-3)] by simp
qed

lemma event_publications:
  assumes "svs S invar used subs pubs store" and "invar (m_svsPubSub f)" and "node_wf S f"
    and "handleEvent S J app ev (f, a) = (r, f', a')"
  shows "\<exists>new. pubs (m_svsPubSub f') = pubs (m_svsPubSub f) @ new \<and>
    (\<forall>x \<in> set new. (\<exists>e. data_publication S f e x) \<or>
       (\<exists>e d now. ev = Arrived (Consumer_callback e) d now \<and> ack_publication S J f e (sub_seqNo d) x))"
proof (cases "\<exists>e d now c cb. ev = Arrived (Consumer_callback e) d now \<and>
    map_of (m_iceflowConsumers f) e = Some c \<and> m_consumerCallback c = Some cb")
  case True
  then obtain e d now c cb where ev: "ev = Arrived (Consumer_callback e) d now"
    and c: "map_of (m_iceflowConsumers f) e = Some c" and cb: "m_consumerCallback c = Some cb"
    by blast
  obtain r1 f1 a1 where inv1: "invokeCallback S app cb (sub_data d) (f, a) = (r1, f1, a1)"
    by (rule prod_cases3)
  note step = invokeCallback_evolves [OF assms(1,2) inv1]
  obtain new where new: "pubs (m_svsPubSub f1) = pubs (m_svsPubSub f) @ new"
    "\<forall>x \<in> set new. \<exists>e. data_publication S f e x"
    using callback_publications [OF assms(1-3) inv1] by blast
  show ?thesis
  proof (cases r1)
    case (Inl x)
    with onConsumerData_raised [OF c cb inv1 [unfolded Inl] step(2)] assms(4) ev new
    show ?thesis by auto
  next
    case (Inr u)
    have topic: "m_subTopic c = m_syncPrefix f @ ''/'' @ e"
      using assms(3) map_of_SomeD [OF c] by (auto simp: node_wf_def)
    have "e \<in> set (consumer_edges f)"
      using map_of_SomeD [OF c] by (force simp: image_iff)
    then have ack: "ack_publication S J f e (sub_seqNo d)
        (backchannelName S (m_subTopic c), ackPayload J (sub_seqNo d), None, seq)" for seq
      by (simp add: ack_publication_def topic)
    have inv1': "invokeCallback S app cb (sub_data d) (f, a) = (Inr (), f1, a1)" using inv1 Inr by simp
    have c1: "map_of (m_iceflowConsumers f1) e = Some c" using c step(2) by simp
    obtain seq where "pubs (m_svsPubSub f') = pubs (m_svsPubSub f) @ new @
        [(backchannelName S (m_subTopic c), ackPayload J (sub_seqNo d), None, seq)]"
      using onConsumerData_returned [OF c cb inv1', of J now] assms(4) ev new(1)
        ack_published [OF assms(1) evolves_invar [OF step(1)] c1] by fastforce
    with new(2) ack [of seq] ev show ?thesis
      by (intro exI [of _ "new @ [_]"]) auto
  qed
next
  case False
  have "pubs (m_svsPubSub f') = pubs (m_svsPubSub f)"
  proof (cases ev)
    case (Arrived cb d now)
    show ?thesis
    proof (cases cb)
      case (Consumer_callback e)
      with False Arrived assms(4) show ?thesis
        by (auto simp: onConsumerData_def subscribeCallBack_def split: option.splits prod.splits sum.splits)
    next
      case (Backchannel_handler np sp)
      with Arrived assms(2,4) show ?thesis
        by (auto simp: handleBackchannel_def Let_def svs.erase_simps [OF assms(1)] split: sum.splits if_splits)
    qed
  qed (use assms(4) in \<open>auto simp: shutdown_def\<close>)
  then show ?thesis by simp
qed

text \<open>Only \<open>run\<close> and \<open>shutdown\<close> touch \<open>m_running\<close>.\<close>

lemma operations_running [simp]:
  "m_running (snd (repartitionConsumer S ps e f)) = m_running f"
  "m_running (snd (repartitionProducer n e f)) = m_running f"
  "m_running (snd (registerConsumerCallback cb e f)) = m_running f"
  "m_running (snd (getConsumerStats S now f)) = m_running f"
  by (simp_all add: repartitionConsumer_def repartitionProducer_def registerConsumerCallback_def
      getConsumerStats_def split_beta Let_def split: option.split prod.split sum.split)

text \<open>The single operations, without the callbacks.\<close>

lemma push_publications:
  assumes "svs S invar used subs pubs store" and "invar (m_svsPubSub f)" and "node_wf S f"
  shows "\<exists>new. invar (m_svsPubSub (snd (pushData S d e f))) \<and>
    subs (m_svsPubSub (snd (pushData S d e f))) = subs (m_svsPubSub f) \<and>
    pubs (m_svsPubSub (snd (pushData S d e f))) = pubs (m_svsPubSub f) @ new \<and>
    (\<forall>x \<in> set new. \<exists>e. data_publication S f e x)"
proof (cases "e \<in> set (producer_edges f)")
  case False
  then show ?thesis using assms(2) by (simp add: pushData_def map_of_unknown)
next
  case True
  obtain f' x where "pushData S d e f = (Inr (), f')" "node_evolves invar subs pubs f f'"
    "pubs (m_svsPubSub f') = pubs (m_svsPubSub f) @ [x]"
    "published_by S (map_of (m_iceflowProducers f)) (e, d, ()) x"
    using pushData_known [OF assms(1,2) True, of d "()"] by blast
  with published_data [OF assms(3), of "(e, d, ())" x] show ?thesis
    by (auto simp: node_evolves_def)
qed

lemma repartitionConsumer_svs:
  assumes "svs S invar used subs pubs store" and "invar (m_svsPubSub f)"
    and "used (m_svsPubSub f) + length ps < 2 ^ 32"
  shows "invar (m_svsPubSub (snd (repartitionConsumer S ps e f))) \<and>
    pubs (m_svsPubSub (snd (repartitionConsumer S ps e f))) = pubs (m_svsPubSub f) \<and>
    (\<forall>x \<in> ran (subs (m_svsPubSub (snd (repartitionConsumer S ps e f)))).
       x \<in> ran (subs (m_svsPubSub f)) \<or>
       (\<exists>c q. map_of (m_iceflowConsumers f) e = Some c \<and> x = partition_sub S e c q))"
proof (cases "map_of (m_iceflowConsumers f) e")
  case None
  with assms(2) show ?thesis by (simp add: repartitionConsumer_def)
next
  case (Some c)
  obtain hs ps' where r: "repartition S e ps c (Some (m_svsPubSub f)) =
      (Inr True, c\<lparr>m_subscriptionHandles := hs\<rparr>, Some ps')"
    and hs: "map (subs ps') hs = map (\<lambda>p. Some (partition_sub S e c p)) ps"
    and frame: "\<forall>h. h \<notin> set hs \<longrightarrow>
       subs ps' h = (if h \<in> set (m_subscriptionHandles c) then None else subs (m_svsPubSub f) h)"
    and svs: "invar ps'" "pubs ps' = pubs (m_svsPubSub f)"
    using repartition_fresh [OF assms, of e c] by auto
  have "x \<in> ran (subs (m_svsPubSub f)) \<or> (\<exists>q. x = partition_sub S e c q)" if "x \<in> ran (subs ps')" for x
  proof -
    from that obtain h where h: "subs ps' h = Some x" by (auto simp: ran_def)
    show ?thesis
    proof (cases "h \<in> set hs")
      case True
      then have "Some x \<in> set (map (subs ps') hs)" using h by force
      then show ?thesis unfolding hs by auto
    next
      case False
      with frame h have "subs (m_svsPubSub f) h = Some x" by (simp split: if_splits)
      then show ?thesis by (auto intro: ranI)
    qed
  qed
  with Some svs show ?thesis by (simp add: repartitionConsumer_def r)
qed

end
