(* ===== verification/Programs.thy ===== *)
theory Programs
  imports Word_Count Node_Frame
begin

text \<open>
  The three programs of \<open>examples/wordCount\<close> as processes: \<open>main\<close> with its command line and its
  \<open>try\<close>/\<open>catch\<close>, \<open>run\<close>, the threads, the handler of the interrupt signal. A process is given by
  its environment (DAG files, disk, clocks, build option) and by what happens to it: the batches of
  its event loop, for \<open>text2lines\<close> also the interleaving of its two threads.
\<close>

section \<open>The environment\<close>

text \<open>\<open>use_grpc\<close> is the build option \<open>USE_GRPC\<close>, which is off by default.\<close>

record environment =
  dag_files :: "string \<Rightarrow> byte list option"
  text_files :: "string \<Rightarrow> string option"
  start_disk :: file_system
  node_uuid :: string
  seed_time :: "string \<Rightarrow> int"
  start_time :: "string \<Rightarrow> time_point"
  wall_clock :: "nat \<Rightarrow> u64"
  use_grpc :: bool

text \<open>
  What has become of a call of \<open>run\<close>, and of the process: an exception left it, it returned, it
  never leaves the loop of \<open>createConsumerPartitions\<close>, \<open>std::terminate\<close> was called, or it is
  still in its event loop.
\<close>

datatype 'w run_outcome = Threw exn | Finished 'w | Spinning | Terminated | Executing 'w

datatype 'w process = Exited int | Stuck | Aborted | Live 'w

section \<open>Reading the command line\<close>

text \<open>\<open>std::stoi\<close> in base ten: white space, a sign, then as many digits as there are.\<close>

definition stoi :: "string \<Rightarrow> exn + int" where
  "stoi s =
     (let t = dropWhile is_space s;
          negative = (t \<noteq> [] \<and> hd t = CHR ''-'');
          u = (if t \<noteq> [] \<and> (hd t = CHR ''-'' \<or> hd t = CHR ''+'') then tl t else t);
          digits = takeWhile (\<lambda>c. digit_value c \<noteq> None) u
      in if digits = [] then Inl (Invalid_argument ''stoi'')
         else (let n = int (the (read_digits 0 digits)); v = (if negative then - n else n)
               in if - (2 ^ 31) \<le> v \<and> v < 2 ^ 31 then Inr v else Inl (Out_of_range ''stoi'')))"

section \<open>Common parts\<close>

text \<open>
  The handler of \<open>SIGINT\<close>: it writes the remaining entries and leaves the process with the number
  of the signal. It dereferences the global pointer without a check: before the measurement
  object is assigned the behaviour is undefined (\<open>None\<close>).
\<close>

definition signalCallbackHandler ::
    "int \<Rightarrow> Measurement option \<Rightarrow> file_system \<Rightarrow> (int \<times> file_system) option" where
  "signalCallbackHandler signum handler fs =
     map_option (\<lambda>m. (signum, snd (recordToFile m fs))) handler"

text \<open>
  With gRPC the programs read the parameter \<open>grpcPath\<close> and construct a scaler; what the remote
  calls then do to the node is in \<open>Instance_Service\<close>.
\<close>

definition startGrpc :: "'j json_ops \<Rightarrow> environment \<Rightarrow> ('ps, 'j, 'u) IceFlow \<Rightarrow> exn + unit" where
  "startGrpc J E f =
     (if use_grpc E
      then bindE (valueE (getApplicationParameter (j_get_string J) ''grpcPath'' f)) (\<lambda>grpcPath. Inr ())
      else Inr ())"

text \<open>\<open>iceflow->run()\<close> as the last statement of a function.\<close>

definition runNode ::
    "('ps, 'n) ndn_ops \<Rightarrow> 'j json_ops \<Rightarrow> ('u, 'a) application \<Rightarrow> 'n face_event list list
       \<Rightarrow> ('ps, 'j, 'u) IceFlow \<Rightarrow> 'a \<Rightarrow> (('ps, 'j, 'u) IceFlow \<times> 'a) run_outcome" where
  "runNode S J app batches f a =
     (case Event_Loop.run S J app batches (f, a) of
        Inl e \<Rightarrow> Threw e
      | Inr (Stopped, fa) \<Rightarrow> Finished fa
      | Inr (Running, fa) \<Rightarrow> Executing fa
      | Inr (Crashed e, fa) \<Rightarrow> Terminated)"

text \<open>
  The \<open>try\<close> block of every \<open>main\<close>: a \<open>std::exception\<close> is logged, and the process leaves with
  status zero as after a normal return.
\<close>

fun mainProcess :: "'w run_outcome \<Rightarrow> 'w process" where
  "mainProcess (Threw e) = (if is_std_exception e then Exited 0 else Aborted)"
| "mainProcess (Finished w) = Exited 0"
| "mainProcess Spinning = Stuck"
| "mainProcess Terminated = Aborted"
| "mainProcess (Executing w) = Live w"

lemma main_live: "mainProcess r = Live w \<Longrightarrow> r = Executing w"
  by (cases r) (auto split: if_splits)

section \<open>\<open>lines2words\<close>\<close>

definition lines2words_run ::
    "('ps, 'n) ndn_ops \<Rightarrow> 'j json_ops \<Rightarrow> environment \<Rightarrow> 'n face_event list list
       \<Rightarrow> string \<Rightarrow> string \<Rightarrow> u32 \<Rightarrow> u32 \<Rightarrow> (('ps, 'j, unit) IceFlow \<times> example_state) run_outcome" where
  "lines2words_run S J E batches nodeName dagFileName consumerIndex numberOfConsumers =
     (case newIceFlowFromFile S J (dag_files E) (node_uuid E) (seed_time E) (start_time E)
             dagFileName nodeName None of
        Inl e \<Rightarrow> Threw e
      | Inr iceflow \<Rightarrow>
        (case lines2words_start S J nodeName consumerIndex numberOfConsumers iceflow (start_disk E) of
           None \<Rightarrow> Spinning
         | Some (Inl e) \<Rightarrow> Threw e
         | Some (Inr (f, s)) \<Rightarrow>
           (case bindE (startGrpc J E f) (\<lambda>_. bindE (getDownstreamEdge 0 iceflow) valueE) of
              Inl e \<Rightarrow> Threw e
            | Inr downstreamEdge \<Rightarrow>
                runNode S J (lines2words_app (wall_clock E) (edge_id downstreamEdge)) batches f s)))"

text \<open>The \<open>int\<close> arguments are converted to \<open>uint32_t\<close> by the call of \<open>run\<close>.\<close>

definition lines2words_main ::
    "('ps, 'n) ndn_ops \<Rightarrow> 'j json_ops \<Rightarrow> environment \<Rightarrow> 'n face_event list list \<Rightarrow> string list
       \<Rightarrow> (('ps, 'j, unit) IceFlow \<times> example_state) process" where
  "lines2words_main S J E batches argv =
     (if length argv \<noteq> 4 then Exited 1
      else mainProcess
        (case bindE (stoi (argv ! 2)) (\<lambda>consumerIndex.
              bindE (stoi (argv ! 3)) (\<lambda>numberOfConsumers. Inr (consumerIndex, numberOfConsumers))) of
           Inl e \<Rightarrow> Threw e
         | Inr (consumerIndex, numberOfConsumers) \<Rightarrow>
             lines2words_run S J E batches ''lines2words'' (argv ! 1)
               (word_of_int consumerIndex) (word_of_int numberOfConsumers)))"

section \<open>\<open>wordcount\<close>\<close>

definition wordcount_run ::
    "('ps, 'n) ndn_ops \<Rightarrow> 'j json_ops \<Rightarrow> environment \<Rightarrow> 'n face_event list list
       \<Rightarrow> string \<Rightarrow> string \<Rightarrow> (('ps, 'j, unit) IceFlow \<times> wordcount_state) run_outcome" where
  "wordcount_run S J E batches nodeName dagFileName =
     (case newIceFlowFromFile S J (dag_files E) (node_uuid E) (seed_time E) (start_time E)
             dagFileName nodeName None of
        Inl e \<Rightarrow> Threw e
      | Inr iceflow \<Rightarrow>
        (case bindE (wordcount_start S J nodeName iceflow (start_disk E)) (\<lambda>(f, s).
              bindE (startGrpc J E f) (\<lambda>_. Inr (f, s))) of
           Inl e \<Rightarrow> Threw e
         | Inr (f, s) \<Rightarrow> runNode S J (wordcount_app (wall_clock E)) batches f s))"

definition wordcount_main ::
    "('ps, 'n) ndn_ops \<Rightarrow> 'j json_ops \<Rightarrow> environment \<Rightarrow> 'n face_event list list \<Rightarrow> string list
       \<Rightarrow> (('ps, 'j, unit) IceFlow \<times> wordcount_state) process" where
  "wordcount_main S J E batches argv =
     (if length argv \<noteq> 2 then Exited 1
      else mainProcess (wordcount_run S J E batches ''wordcount'' (argv ! 1)))"

section \<open>\<open>text2lines\<close>\<close>

text \<open>
  The program runs the event loop in one thread and the splitter in another. A turn is one batch
  of the first thread or one push of the second one; the state holds whether the first thread has
  begun, and the pushes still to be made. An exception that leaves a thread function terminates
  the process (\<open>None\<close>), also the one of a second \<open>IceFlow::run\<close>.
\<close>

datatype 'n turn = Loop_turn "'n face_event list" | Push_turn

definition no_callbacks :: "(unit, example_state) application" where
  "no_callbacks = \<lparr>run_plain = (\<lambda>u data s. (Inr (), s)), run_prosumer = (\<lambda>u data s. ([], Inr (), s))\<rparr>"

record ('ps, 'j) text2lines_threads =
  node :: "('ps, 'j, unit) IceFlow"
  app_state :: example_state
  loop_begun :: bool
  pending :: "(string \<times> byte list \<times> example_state) list"

fun threadTurn ::
    "('ps, 'n) ndn_ops \<Rightarrow> 'j json_ops \<Rightarrow> 'n turn \<Rightarrow> ('ps, 'j) text2lines_threads
       \<Rightarrow> ('ps, 'j) text2lines_threads option" where
  "threadTurn S J (Loop_turn batch) t =
     (let f = (if loop_begun t then node t else (node t)\<lparr>m_running := True\<rparr>);
          t1 = t\<lparr>node := f, loop_begun := True\<rparr>
      in if \<not> loop_begun t \<and> m_running (node t) then None
         else if \<not> m_running f then Some t1
         else case processEvents S J no_callbacks batch (f, app_state t) of
                (Inl e, (f', s)) \<Rightarrow> if is_std_exception e then Some (t1\<lparr>node := f'\<rparr>) else None
              | (Inr _, (f', s)) \<Rightarrow> Some (t1\<lparr>node := f'\<rparr>))"
| "threadTurn S J Push_turn t =
     (case pending t of
        [] \<Rightarrow> Some t
      | (edge, data, s) # rest \<Rightarrow>
          (case pushData S data edge (node t) of
             (Inl e, f) \<Rightarrow> None
           | (Inr _, f) \<Rightarrow> Some (t\<lparr>node := f, app_state := s, pending := rest\<rparr>)))"

fun threadTurns ::
    "('ps, 'n) ndn_ops \<Rightarrow> 'j json_ops \<Rightarrow> 'n turn list \<Rightarrow> ('ps, 'j) text2lines_threads
       \<Rightarrow> ('ps, 'j) text2lines_threads option" where
  "threadTurns S J [] t = Some t"
| "threadTurns S J (turn # turns) t = Option.bind (threadTurn S J turn t) (threadTurns S J turns)"

text \<open>
  \<open>run\<close> starts the threads and then, with gRPC, reads \<open>grpcPath\<close>: when that throws, the joinable
  threads are destroyed with their vector, which terminates the process. It returns when both
  threads have ended.
\<close>

definition text2lines_run ::
    "('ps, 'n) ndn_ops \<Rightarrow> 'j json_ops \<Rightarrow> environment \<Rightarrow> 'n turn list
       \<Rightarrow> string \<Rightarrow> string \<Rightarrow> ('ps, 'j) text2lines_threads run_outcome" where
  "text2lines_run S J E turns nodeName dagFileName =
     (case newIceFlowFromFile S J (dag_files E) (node_uuid E) (seed_time E) (start_time E)
             dagFileName nodeName None of
        Inl e \<Rightarrow> Threw e
      | Inr iceflow \<Rightarrow>
        (case text2lines_start J nodeName iceflow (start_disk E) of
           Inl e \<Rightarrow> Threw e
         | Inr (downstreamEdgeName, sourceTextFileName, s) \<Rightarrow>
           (let (pushes, outcome, s') =
              text2lines (wall_clock E) downstreamEdgeName (text_files E sourceTextFileName) s
            in case startGrpc J E iceflow of
                 Inl e \<Rightarrow> Terminated
               | Inr _ \<Rightarrow>
                 (case threadTurns S J turns
                         \<lparr>node = iceflow, app_state = s, loop_begun = False, pending = pushes\<rparr> of
                    None \<Rightarrow> Terminated
                  | Some t \<Rightarrow>
                      (let t' = (if pending t = [] then t\<lparr>app_state := s'\<rparr> else t)
                       in if pending t = [] \<and> loop_begun t \<and> \<not> m_running (node t)
                          then Finished t' else Executing t')))))"

definition text2lines_main ::
    "('ps, 'n) ndn_ops \<Rightarrow> 'j json_ops \<Rightarrow> environment \<Rightarrow> 'n turn list \<Rightarrow> string list
       \<Rightarrow> ('ps, 'j) text2lines_threads process" where
  "text2lines_main S J E turns argv =
     (if length argv \<noteq> 2 then Exited 1
      else mainProcess (text2lines_run S J E turns ''text2lines'' (argv ! 1)))"

section \<open>Constructing the node of a program\<close>

text \<open>
  The DAG file gives a node that can be constructed, with a readable threshold for the
  measurements.
\<close>

definition deployable ::
    "'j json_ops \<Rightarrow> environment \<Rightarrow> string \<Rightarrow> string \<Rightarrow> 'j DAGParser \<Rightarrow> 'j Node \<Rightarrow> bool" where
  "deployable J E dagFileName nodeName d n \<longleftrightarrow>
     parseFromFile J (dag_files E) dagFileName = Inr d \<and> findNodeByName d nodeName = Inr n \<and>
     list_all (\<lambda>e. maxPartitions e \<noteq> 0) (downstream n) \<and> length (downstream n) + 1 < 2 ^ 32 \<and>
     (case map_of (node_applicationConfiguration n) ''measurementsSaveThreshold'' of
        None \<Rightarrow> False
      | Some v \<Rightarrow> (case j_get_u64 J v of Inl _ \<Rightarrow> False | Inr _ \<Rightarrow> True))"

definition fresh_node ::
    "('ps, 'n) ndn_ops \<Rightarrow> ('ps \<Rightarrow> bool) \<Rightarrow> ('ps \<Rightarrow> nat) \<Rightarrow> ('ps \<Rightarrow> u32 \<rightharpoonup> 'n \<times> callback)
       \<Rightarrow> ('ps \<Rightarrow> 'n publication list) \<Rightarrow> string \<Rightarrow> 'j DAGParser \<Rightarrow> 'j Node \<Rightarrow> ('ps, 'j, 'u) IceFlow \<Rightarrow> bool" where
  "fresh_node S invar used subs pubs uuid d n f \<longleftrightarrow>
     invar (m_svsPubSub f) \<and> used (m_svsPubSub f) = length (downstream n) \<and> pubs (m_svsPubSub f) = [] \<and>
     node_live S subs f \<and> node_wf S f \<and> \<not> m_running f \<and> m_node f = n \<and>
     m_syncPrefix f = m_applicationName d \<and> m_nodePrefix f = ''/node-'' @ m_applicationName d @ ''/'' @ uuid \<and>
     m_downstreamEdges f = downstream n \<and> m_upstreamEdges f = map snd (findUpstreamEdges d n) \<and>
     set (producer_edges f) = edge_id ` set (downstream n) \<and>
     set (consumer_edges f) = edge_id ` set (m_upstreamEdges f)"

lemma deployed_node:
  fixes S :: "('ps, 'n) ndn_ops" and J :: "'j json_ops"
  assumes "svs S invar used subs pubs store" and "deployable J E dagFileName nodeName d n"
  shows "\<exists>f :: ('ps, 'j, 'u) IceFlow. newIceFlowFromFile S J (dag_files E) uuid time now dagFileName nodeName r = Inr f \<and>
    fresh_node S invar used subs pubs uuid d n f"
proof -
  have d: "parseFromFile J (dag_files E) dagFileName = Inr d" and n: "findNodeByName d nodeName = Inr n"
    and pos: "\<forall>e \<in> set (downstream n). maxPartitions e \<noteq> 0" and len: "length (downstream n) < 2 ^ 32"
    using assms(2) by (simp_all add: deployable_def list_all_iff)
  have "\<nexists>x. newIceFlow S uuid time now d nodeName r = Inl x"
    unfolding newIceFlow_throws_iff n using pos by simp
  then obtain f :: "('ps, 'j, 'u) IceFlow" where f: "newIceFlow S uuid time now d nodeName r = Inr f"
    by (metis obj_sumE)
  note state = newIceFlow_state [OF f, unfolded n]
  have "node_reach S J undefined f" by (rule node_reach.created [OF f])
  then have "node_wf S f" by (rule reach_wf)
  moreover have "node_live S subs f"
    using state by (intro node_live_fresh) (auto simp: newConsumer_def)
  ultimately have "fresh_node S invar used subs pubs uuid d n f"
    using newIceFlow_svs [OF assms(1) n len f] state by (simp add: fresh_node_def)
  with d f show ?thesis by (simp add: newIceFlowFromFile_def)
qed

lemma deployed_threshold:
  assumes "deployable J E dagFileName nodeName d n" and "m_node f = n"
  shows "\<exists>thr. getApplicationParameter (j_get_u64 J) ''measurementsSaveThreshold'' f = Some thr"
  using assms by (auto simp: deployable_def getApplicationParameter_def split: option.splits sum.splits)

lemma edgeAt_first: "edgeAt (e # es) 0 = Inr (Some e)"
  by (simp add: edgeAt_def)

lemma repartitionConsumer_same:
  "m_running (snd (repartitionConsumer S ps e f)) = m_running f"
  "m_downstreamEdges (snd (repartitionConsumer S ps e f)) = m_downstreamEdges f"
  "m_node (snd (repartitionConsumer S ps e f)) = m_node f"
  by (simp_all add: repartitionConsumer_def split_beta Let_def split: option.split)

text \<open>
  The node after a callback was registered for the edge and its consumer repartitioned: the
  consumer reads exactly the given partitions.
\<close>

definition subscribed_node ::
    "('ps, 'n) ndn_ops \<Rightarrow> ('ps \<Rightarrow> bool) \<Rightarrow> ('ps \<Rightarrow> u32 \<rightharpoonup> 'n \<times> callback) \<Rightarrow> ('ps \<Rightarrow> 'n publication list)
       \<Rightarrow> 'u ConsumerCallback \<Rightarrow> string \<Rightarrow> u32 set \<Rightarrow> ('ps, 'j, 'u) IceFlow \<Rightarrow> ('ps, 'j, 'u) IceFlow \<Rightarrow> bool" where
  "subscribed_node S invar subs pubs cb e reads f f' \<longleftrightarrow>
     invar (m_svsPubSub f') \<and> pubs (m_svsPubSub f') = pubs (m_svsPubSub f) \<and> node_live S subs f' \<and>
     node_wf S f' \<and> node_frame f f' \<and> m_running f' = m_running f \<and>
     m_downstreamEdges f' = m_downstreamEdges f \<and> m_node f' = m_node f \<and>
     (\<exists>c. map_of (m_iceflowConsumers f') e = Some c \<and> m_consumerCallback c = Some cb \<and>
        {p. Some (partition_sub S e c p) \<in> subs (m_svsPubSub f') ` set (m_subscriptionHandles c)} = reads)"

lemma callback_and_partitions:
  assumes "svs S invar used subs pubs store" and "invar (m_svsPubSub f)" and "node_live S subs f"
    and "node_wf S f" and "e \<in> set (consumer_edges f)"
    and "used (m_svsPubSub f) + length ps < 2 ^ 32"
  shows "\<exists>f1 f'. registerConsumerCallback cb e f = (Inr (), f1) \<and>
    repartitionConsumer S ps e f1 = (Inr (), f') \<and> subscribed_node S invar subs pubs cb e (set ps) f f'"
proof -
  obtain c where c: "map_of (m_iceflowConsumers f) e = Some c"
    using assms(5) by (metis domD dom_map_of_conv_image_fst list.set_map)
  let ?c = "setConsumerCallback cb c"
  let ?f1 = "f\<lparr>m_iceflowConsumers := adjust e (setConsumerCallback cb) (m_iceflowConsumers f)\<rparr>"
  have reg: "registerConsumerCallback cb e f = (Inr (), ?f1)"
    by (simp add: registerConsumerCallback_def c)
  have c1: "map_of (m_iceflowConsumers ?f1) e = Some ?c" by (simp add: map_of_adjust c)
  have inv1: "invar (m_svsPubSub ?f1)" and room: "used (m_svsPubSub ?f1) + length ps < 2 ^ 32"
    using assms(2,6) by simp_all
  obtain f' c' where f': "repartitionConsumer S ps e ?f1 = (Inr (), f')"
    "map_of (m_iceflowConsumers f') = (map_of (m_iceflowConsumers ?f1))(e \<mapsto> c')"
    "map (subs (m_svsPubSub f')) (m_subscriptionHandles c') = map (\<lambda>p. Some (partition_sub S e ?c p)) ps"
    "node_live S subs f'" "c' = ?c\<lparr>m_subscriptionHandles := m_subscriptionHandles c'\<rparr>"
    using repartitionConsumer_keeps_live [OF assms(1) inv1 room node_live_callback [OF assms(3)] c1]
    by blast
  have "node_wf S ?f1" using registerConsumerCallback_wf [OF assms(4), of cb e] reg by simp
  then have "node_wf S f'" using repartitionConsumer_wf [of S ?f1 S ps e] f'(1) by simp
  moreover have "node_frame f f'"
    using frame_trans [OF registerConsumerCallback_frame(1) [of f cb e] repartitionConsumer_frame [of _ S ps e]]
      reg f'(1) by (metis snd_conv)
  moreover have "invar (m_svsPubSub f')" "pubs (m_svsPubSub f') = pubs (m_svsPubSub f)"
    using repartitionConsumer_svs [OF assms(1) inv1 room, of e] f'(1) by simp_all
  moreover have "m_running f' = m_running f \<and> m_downstreamEdges f' = m_downstreamEdges f \<and> m_node f' = m_node f"
    using repartitionConsumer_same [of S ps e ?f1] f'(1) by simp
  moreover have "m_consumerCallback c' = Some cb" by (subst f'(5)) simp
  moreover have "{p. Some (partition_sub S e c' p) \<in> subs (m_svsPubSub f') ` set (m_subscriptionHandles c')} = set ps"
  proof -
    have "partition_sub S e c' = partition_sub S e ?c" by (subst f'(5)) (rule partition_sub_handles)
    moreover have "subs (m_svsPubSub f') ` set (m_subscriptionHandles c') =
        (\<lambda>p. Some (partition_sub S e ?c p)) ` set ps"
      using arg_cong [OF f'(3), of set] by simp
    ultimately show ?thesis by (auto simp: image_iff partition_sub_inject [OF assms(1)])
  qed
  ultimately have "subscribed_node S invar subs pubs cb e (set ps) f f'"
    unfolding subscribed_node_def using f'(2,4) by (intro conjI exI [of _ c']) simp_all
  with reg f'(1) show ?thesis by blast
qed

section \<open>Starting up\<close>

abbreviation start_state :: "string \<Rightarrow> string \<Rightarrow> u64 \<Rightarrow> file_system \<Rightarrow> example_state" where
  "start_state nodeName nodePrefix thr fs \<equiv>
     \<lparr>m_computeCounter = 0, measurementHandler = fst (newMeasurement nodeName nodePrefix thr ''A'' fs),
      disk = createMeasurementFolder fs, readings = 0\<rparr>"

lemma newMeasurement_disk: "snd (newMeasurement i n t ob fs) = createMeasurementFolder fs"
  by (simp add: newMeasurement_def)

lemma fresh_node_live:
  "fresh_node S invar used subs pubs uuid d n f \<Longrightarrow>
     invar (m_svsPubSub f) \<and> node_live S subs f \<and> node_wf S f \<and> used (m_svsPubSub f) = length (downstream n)"
  by (simp add: fresh_node_def)

lemma lines2words_started:
  assumes "svs S invar used subs pubs store" and "fresh_node S invar used subs pubs uuid d n f"
    and "m_upstreamEdges f = up # ups" and "m_downstreamEdges f = down # downs"
    and "getApplicationParameter (j_get_u64 J) ''measurementsSaveThreshold'' f = Some thr"
    and "length (downstream n) + unat (maxPartitions up) + 2 < 2 ^ 32"
  shows "\<exists>f'. lines2words_start S J nodeName k m f fs =
      Some (Inr (f', start_state nodeName (m_nodePrefix f) thr fs)) \<and>
    subscribed_node S invar subs pubs (Prosumer ()) (edge_id up)
      {p. k \<le> p \<and> p \<le> maxPartitions up \<and> (unat p - unat k) mod 2 = 0} f f'"
proof -
  note live = fresh_node_live [OF assms(2)]
  have "(0 :: u32) < 2" and "unat (maxPartitions up) + unat (2 :: u32) < 2 ^ 32" using assms(6) by simp_all
  from createConsumerPartitions_result [OF this, of k] obtain ps where
    ps: "createConsumerPartitions (maxPartitions up) k 2 = Some ps"
    and set: "set ps = {p. k \<le> p \<and> p \<le> maxPartitions up \<and> (unat p - unat k) mod 2 = 0}"
    and sorted: "sorted_wrt (<) ps" by auto
  have "length ps \<le> unat (maxPartitions up) + 1"
    using strict_words_length [OF sorted, of "maxPartitions up"] set by auto
  then have room: "used (m_svsPubSub f) + length ps < 2 ^ 32" using live assms(6) by simp
  have e: "edge_id up \<in> set (consumer_edges f)" using assms(2,3) by (auto simp: fresh_node_def)
  obtain f1 f' where f': "registerConsumerCallback (Prosumer ()) (edge_id up) f = (Inr (), f1)"
    "repartitionConsumer S ps (edge_id up) f1 = (Inr (), f')"
    "subscribed_node S invar subs pubs (Prosumer ()) (edge_id up) (set ps) f f'"
    using callback_and_partitions [OF assms(1) _ _ _ e room] live by blast
  have "getUpstreamEdge 0 f = Inr (Some up)" "getDownstreamEdge 0 f = Inr (Some down)"
    by (simp_all add: getUpstreamEdge_def getDownstreamEdge_def assms(3,4) edgeAt_first)
  with f' ps assms(5) have "lines2words_start S J nodeName k m f fs =
      Some (Inr (f', start_state nodeName (m_nodePrefix f) thr fs))"
    by (simp add: lines2words_start_def valueE_def registerProsumerCallback_def split_beta Let_def
        newMeasurement_disk)
  with f'(3) show ?thesis unfolding set by blast
qed

lemma wordcount_started:
  assumes "svs S invar used subs pubs store" and "fresh_node S invar used subs pubs uuid d n f"
    and "m_upstreamEdges f = up # ups"
    and "getApplicationParameter (j_get_u64 J) ''measurementsSaveThreshold'' f = Some thr"
    and "length (downstream n) + 1 < 2 ^ 32"
  shows "\<exists>f'. wordcount_start S J nodeName f fs = Inr (f', example_state.extend
      (start_state nodeName (m_nodePrefix f) thr fs) (wordcount_state.fields [])) \<and>
    subscribed_node S invar subs pubs (Plain ()) (edge_id up) {0} f f'"
proof -
  note live = fresh_node_live [OF assms(2)]
  have e: "edge_id up \<in> set (consumer_edges f)" using assms(2,3) by (auto simp: fresh_node_def)
  have room: "used (m_svsPubSub f) + length [0 :: u32] < 2 ^ 32" using live assms(5) by simp
  obtain f1 f' where f': "registerConsumerCallback (Plain ()) (edge_id up) f = (Inr (), f1)"
    "repartitionConsumer S [0] (edge_id up) f1 = (Inr (), f')"
    "subscribed_node S invar subs pubs (Plain ()) (edge_id up) (set [0]) f f'"
    using callback_and_partitions [OF assms(1) _ _ _ e room] live by blast
  have "getUpstreamEdge 0 f = Inr (Some up)"
    by (simp add: getUpstreamEdge_def assms(3) edgeAt_first)
  with f' assms(4) show ?thesis
    by (simp add: wordcount_start_def valueE_def split_beta Let_def newMeasurement_disk
        example_state.extend_def wordcount_state.fields_def)
qed

lemma text2lines_started:
  assumes "m_downstreamEdges f = down # downs"
    and "getApplicationParameter (j_get_u64 J) ''measurementsSaveThreshold'' f = Some thr"
    and "getApplicationParameter (j_get_string J) ''sourceTextFileName'' f = Some name"
  shows "text2lines_start J nodeName f fs =
    Inr (edge_id down, name, start_state nodeName (m_nodePrefix f) thr fs)"
proof -
  have "getDownstreamEdge 0 f = Inr (Some down)"
    by (simp add: getDownstreamEdge_def assms(1) edgeAt_first)
  with assms(2,3) show ?thesis
    by (simp add: text2lines_start_def valueE_def split_beta Let_def newMeasurement_disk)
qed

end
