(* ===== verification/Dag_Schema.thy ===== *)
theory Dag_Schema
  imports Ice_Flow
begin

text \<open>
  The documents an application is described by: the grammar \<open>dag-syntax.cddl\<close> as relations
  between a JSON value and the data it means, the soundness of the parser for it, and the
  application of the repository, \<open>examples/wordCount/application-DAG.json\<close>, as a document.
\<close>

section \<open>The grammar\<close>

text \<open>
  Maps are closed: a key that the grammar does not name is not allowed. An unsigned integer is a
  64-bit number of the JSON library and means its low 32 bits, the type of the field that is read.
  A key marked with a question mark may be absent.
\<close>

abbreviation or_empty :: "'a list option \<Rightarrow> 'a list" where
  "or_empty x \<equiv> case x of None \<Rightarrow> [] | Some xs \<Rightarrow> xs"

inductive schema_edge ::
    "'j json_ops \<Rightarrow> (string \<Rightarrow> 'j) \<Rightarrow> ((string \<times> 'j) list \<Rightarrow> 'j) \<Rightarrow> 'j \<Rightarrow> 'j Edge \<Rightarrow> bool"
  for J of_str of_obj where
  edge:
    "ordered_keys m \<Longrightarrow> set (map fst m) = {''id'', ''target'', ''maxPartitions''} \<Longrightarrow>
     map_of m ''id'' = Some (of_str i) \<Longrightarrow> map_of m ''target'' = Some (of_str t) \<Longrightarrow>
     map_of m ''maxPartitions'' = Some (j_of_u64 J n) \<Longrightarrow>
     schema_edge J of_str of_obj (of_obj m)
       \<lparr>edge_id = i, target = t, maxPartitions = ucast n, edge_applicationConfiguration = []\<rparr>"

inductive schema_container ::
    "'j json_ops \<Rightarrow> (string \<Rightarrow> 'j) \<Rightarrow> ((string \<times> 'j) list \<Rightarrow> 'j) \<Rightarrow> 'j \<Rightarrow> Container \<Rightarrow> bool"
  for J of_str of_obj where
  container:
    "ordered_keys m \<Longrightarrow> set (map fst m) \<subseteq> {''image'', ''tag'', ''resources''} \<Longrightarrow>
     map_of m ''image'' = Some (of_str img) \<Longrightarrow> map_of m ''tag'' = map_option of_str tg \<Longrightarrow>
     map_of m ''resources'' = Some (of_obj res) \<Longrightarrow>
     ordered_keys res \<Longrightarrow> set (map fst res) = {''cpu'', ''memory''} \<Longrightarrow>
     map_of res ''cpu'' = Some (j_of_u64 J c) \<Longrightarrow> map_of res ''memory'' = Some (j_of_u64 J mem) \<Longrightarrow>
     schema_container J of_str of_obj (of_obj m)
       \<lparr>image = img, tag = (case tg of None \<Rightarrow> ''latest'' | Some s \<Rightarrow> s), envs = [], mounts = [],
        resources = \<lparr>cpu = ucast c, memory = ucast mem\<rparr>\<rparr>"

inductive schema_node ::
    "'j json_ops \<Rightarrow> (string \<Rightarrow> 'j) \<Rightarrow> ((string \<times> 'j) list \<Rightarrow> 'j) \<Rightarrow> ('j list \<Rightarrow> 'j) \<Rightarrow> 'j \<Rightarrow> 'j Node \<Rightarrow> bool"
  for J of_str of_obj of_arr where
  node:
    "ordered_keys m \<Longrightarrow>
     set (map fst m) \<subseteq> {''task'', ''name'', ''description'', ''executor'', ''container'',
       ''scalingParameters'', ''downstream'', ''applicationConfiguration''} \<Longrightarrow>
     map_of m ''task'' = Some (of_str t) \<Longrightarrow> map_of m ''name'' = Some (of_str nm) \<Longrightarrow>
     map_of m ''description'' = Some (of_str ds) \<Longrightarrow>
     map_of m ''executor'' = Some (of_str ex) \<Longrightarrow> ex \<in> {''container'', ''static''} \<Longrightarrow>
     map_of m ''container'' = Some cj \<Longrightarrow> schema_container J of_str of_obj cj c \<Longrightarrow>
     map_of m ''scalingParameters'' = Some (of_obj [(''taskComplexity'', j_of_u64 J tc)]) \<Longrightarrow>
     map_of m ''downstream'' = map_option of_arr js \<Longrightarrow> js \<noteq> Some [] \<Longrightarrow>
     list_all2 (schema_edge J of_str of_obj) (or_empty js) es \<Longrightarrow>
     map_of m ''applicationConfiguration'' = map_option of_obj cfg \<Longrightarrow> ordered_keys (or_empty cfg) \<Longrightarrow>
     schema_node J of_str of_obj of_arr (of_obj m)
       \<lparr>task = t, node_name = nm, description = ds, executor = ex, container = c,
        scalingParameters = \<lparr>taskComplexity = ucast tc\<rparr>, downstream = es,
        node_applicationConfiguration = or_empty cfg\<rparr>"

inductive schema_application ::
    "'j json_ops \<Rightarrow> (string \<Rightarrow> 'j) \<Rightarrow> ((string \<times> 'j) list \<Rightarrow> 'j) \<Rightarrow> ('j list \<Rightarrow> 'j)
       \<Rightarrow> 'j \<Rightarrow> string \<Rightarrow> 'j Node list \<Rightarrow> bool"
  for J of_str of_obj of_arr where
  application:
    "ordered_keys m \<Longrightarrow> set (map fst m) = {''applicationName'', ''nodes''} \<Longrightarrow>
     map_of m ''applicationName'' = Some (of_str app) \<Longrightarrow> map_of m ''nodes'' = Some (of_arr js) \<Longrightarrow>
     list_all2 (schema_node J of_str of_obj of_arr) js ns \<Longrightarrow>
     schema_application J of_str of_obj of_arr (of_obj m) app ns"

section \<open>Soundness of the parser\<close>

lemma ordered_distinct: "ordered_keys m \<Longrightarrow> distinct (map fst m)"
  by (simp add: ordered_keys_def)

lemma key_absent: "set (map fst m) \<subseteq> K \<Longrightarrow> k \<notin> K \<Longrightarrow> map_of m k = None"
  by (meson map_of_unknown subsetD)

context json_api
begin

lemma empty_ordered: "ordered_keys ([] :: (string \<times> 'j) list)"
  by (simp add: ordered_keys_def)

lemma schema_edge_parsed: "schema_edge J of_str of_obj j e \<Longrightarrow> parseEdge J j = Inr e"
proof (induction rule: schema_edge.induct)
  case (edge m i t n)
  have "map_of m ''applicationConfiguration'' = None"
    by (rule key_absent [OF equalityD1 [OF edge(2)]]) simp
  with edge ordered_distinct [OF edge(1)] show ?case
    by (simp add: parseEdge_def at_string_def at_u32_def obj_simps empty_ordered)
qed

lemma schema_container_parsed: "schema_container J of_str of_obj j c \<Longrightarrow> parseContainer J j = Inr c"
proof (induction rule: schema_container.induct)
  case (container m img tg res c mem)
  have "map_of m ''envs'' = None" "map_of m ''mounts'' = None"
    by (rule key_absent [OF container(2)], simp)+
  moreover have "j_items J (of_obj []) = []" by (rule items_obj [OF empty_ordered])
  ultimately show ?case
    using container ordered_distinct [OF container(1)] ordered_distinct [OF container(6)]
    by (cases tg) (simp_all add: parseContainer_def at_string_def at_u32_def obj_simps)
qed

lemma schema_node_parsed: "schema_node J of_str of_obj of_arr j n \<Longrightarrow> parseNode J j = Inr n"
proof (induction rule: schema_node.induct)
  case (node m t nm ds ex cj c tc js es cfg)
  note dist = ordered_distinct [OF node(1)]
  have "list_all2 (\<lambda>x y. parseEdge J x = Inr y) (or_empty js) es"
    by (rule list_all2_mono [OF node(13)]) (rule schema_edge_parsed)
  then have es: "traverseE (parseEdge J) (or_empty js) = Inr es" by (simp add: traverseE_Inr_iff)
  have "parseDownstream J (of_obj m) = Inr es"
    using es node(11) dist by (cases js) (simp_all add: parseDownstream_def obj_simps)
  moreover have "bindE (j_value J (of_obj m) ''applicationConfiguration'' (j_object J)) (j_get_object J)
      = Inr (or_empty cfg)"
    using node(14,15) dist by (cases cfg) (simp_all add: obj_simps empty_ordered)
  moreover have "parseContainer J cj = Inr c" by (rule schema_container_parsed [OF node(9)])
  ultimately show ?case
    using node(3-6,8,10) dist
    by (simp add: parseNode_def at_string_def at_u32_def obj_simps bindE_Inr_iff)
qed

lemma schema_application_parsed:
  "schema_application J of_str of_obj of_arr j app ns \<Longrightarrow>
     fromJson J j = Inr \<lparr>m_applicationName = app, m_nodes = ns, m_json = Some j\<rparr>"
proof (induction rule: schema_application.induct)
  case (application m app js ns)
  have "list_all2 (\<lambda>x y. parseNode J x = Inr y) js ns"
    by (rule list_all2_mono [OF application(5)]) (rule schema_node_parsed)
  then have "traverseE (parseNode J) js = Inr ns" by (simp add: traverseE_Inr_iff)
  with application(3,4) ordered_distinct [OF application(1)] show ?case
    by (simp add: fromJson_def at_string_def obj_simps)
qed

end

section \<open>The application of the repository\<close>

text \<open>
  \<open>examples/wordCount/application-DAG.json\<close>: one node as a document (keys in the order of a
  \<open>std::map\<close>), the three nodes, and what they mean.
\<close>

definition task_document ::
    "string \<Rightarrow> string \<Rightarrow> string \<Rightarrow> int \<Rightarrow> (string \<times> jval) list \<Rightarrow> (string \<times> jval) list \<Rightarrow> jval" where
  "task_document t nm ds mem edges cfg = JObject
     ([(''applicationConfiguration'', JObject cfg),
       (''container'', JObject
          [(''image'', JString (nm @ ''-image'')),
           (''resources'', JObject [(''cpu'', JNumber 1), (''memory'', JNumber mem)])]),
       (''description'', JString ds)] @ edges @
      [(''executor'', JString ''container''), (''name'', JString nm),
       (''scalingParameters'', JObject [(''taskComplexity'', JNumber 2)]),
       (''task'', JString t)])"

definition edge_document :: "string \<Rightarrow> int \<Rightarrow> string \<Rightarrow> (string \<times> jval) list" where
  "edge_document i n t = [(''downstream'', JArray [JObject
     [(''id'', JString i), (''maxPartitions'', JNumber n), (''target'', JString t)]])]"

definition word_count_document :: jval where
  "word_count_document = JObject
     [(''applicationName'', JString ''WordCount''),
      (''nodes'', JArray
        [task_document ''1'' ''text2lines'' ''Splits text into lines.'' 1000000000
           (edge_document ''t2l'' 3 ''2'')
           [(''measurementsSaveThreshold'', JNumber 100), (''sourceTextFileName'', JString ''sourcetext.txt'')],
         task_document ''2'' ''lines2words'' ''Splits lines into words.'' 1000000000
           (edge_document ''l2w'' 1 ''3'') [(''measurementsSaveThreshold'', JNumber 100)],
         task_document ''3'' ''wordcount'' ''Counts the occurrences of words.'' 2000000000
           [] [(''measurementsSaveThreshold'', JNumber 100)]])]"

definition task_node ::
    "string \<Rightarrow> string \<Rightarrow> string \<Rightarrow> u32 \<Rightarrow> jval Edge list \<Rightarrow> (string \<times> jval) list \<Rightarrow> jval Node" where
  "task_node t nm ds mem es cfg =
     \<lparr>task = t, node_name = nm, description = ds, executor = ''container'',
      container = \<lparr>image = nm @ ''-image'', tag = ''latest'', envs = [], mounts = [],
                   resources = \<lparr>cpu = 1, memory = mem\<rparr>\<rparr>,
      scalingParameters = \<lparr>taskComplexity = 2\<rparr>, downstream = es, node_applicationConfiguration = cfg\<rparr>"

abbreviation plain_edge :: "string \<Rightarrow> u32 \<Rightarrow> string \<Rightarrow> jval Edge" where
  "plain_edge i n t \<equiv> \<lparr>edge_id = i, target = t, maxPartitions = n, edge_applicationConfiguration = []\<rparr>"

definition word_count_nodes :: "jval Node list" where
  "word_count_nodes =
     [task_node ''1'' ''text2lines'' ''Splits text into lines.'' 1000000000 [plain_edge ''t2l'' 3 ''2'']
        [(''measurementsSaveThreshold'', JNumber 100), (''sourceTextFileName'', JString ''sourcetext.txt'')],
      task_node ''2'' ''lines2words'' ''Splits lines into words.'' 1000000000 [plain_edge ''l2w'' 1 ''3'']
        [(''measurementsSaveThreshold'', JNumber 100)],
      task_node ''3'' ''wordcount'' ''Counts the occurrences of words.'' 2000000000 []
        [(''measurementsSaveThreshold'', JNumber 100)]]"

abbreviation word_count_dag :: "jval DAGParser" where
  "word_count_dag \<equiv> \<lparr>m_applicationName = ''WordCount'', m_nodes = word_count_nodes,
     m_json = Some word_count_document\<rparr>"

lemma container_document_schema:
  "schema_container ref_json JString JObject
     (JObject [(''image'', JString (nm @ ''-image'')),
        (''resources'', JObject [(''cpu'', JNumber 1), (''memory'', JNumber (uint (mem :: u64)))])])
     (container (task_node t nm ds (ucast mem) es cfg))"
proof -
  have "schema_container ref_json JString JObject
      (JObject [(''image'', JString (nm @ ''-image'')),
         (''resources'', JObject [(''cpu'', JNumber 1), (''memory'', JNumber (uint mem))])])
      \<lparr>image = nm @ ''-image'', tag = (case None of None \<Rightarrow> ''latest'' | Some s \<Rightarrow> s), envs = [], mounts = [],
       resources = \<lparr>cpu = ucast (1 :: u64), memory = ucast mem\<rparr>\<rparr>"
    by (rule schema_container.container) (auto simp: ordered_keys_def)
  then show ?thesis by (simp add: task_node_def)
qed

lemma task_document_schema:
  assumes "edges = [] \<and> js = None \<or> edges = [(''downstream'', JArray (the js))] \<and> js \<noteq> None \<and> js \<noteq> Some []"
    and "list_all2 (schema_edge ref_json JString JObject) (or_empty js) es" and "ordered_keys cfg"
  shows "schema_node ref_json JString JObject JArray
    (task_document t nm ds (uint (mem :: u64)) edges cfg) (task_node t nm ds (ucast mem) es cfg)"
proof -
  let ?c = "container (task_node t nm ds (ucast mem) es cfg)"
  have "schema_node ref_json JString JObject JArray
    (task_document t nm ds (uint mem) edges cfg)
    \<lparr>task = t, node_name = nm, description = ds, executor = ''container'', container = ?c,
     scalingParameters = \<lparr>taskComplexity = ucast (2 :: u64)\<rparr>, downstream = es,
     node_applicationConfiguration = or_empty (Some cfg)\<rparr>"
    unfolding task_document_def
    by (rule schema_node.node [OF _ _ _ _ _ _ _ _ container_document_schema _ _ _ assms(2)])
      (use assms in \<open>auto simp: ordered_keys_def\<close>)
  then show ?thesis by (simp add: task_node_def)
qed

lemma edge_document_schema:
  "schema_edge ref_json JString JObject
     (JObject [(''id'', JString i), (''maxPartitions'', JNumber (uint (n :: u64))), (''target'', JString t)])
     (plain_edge i (ucast n) t)"
  by (rule schema_edge.edge) (auto simp: ordered_keys_def)

lemma word_count_schema:
  "schema_application ref_json JString JObject JArray word_count_document ''WordCount'' word_count_nodes"
proof -
  have cfg: "ordered_keys [(''measurementsSaveThreshold'', JNumber 100)]"
    "ordered_keys [(''measurementsSaveThreshold'', JNumber 100), (''sourceTextFileName'', JString ''sourcetext.txt'')]"
    by (simp_all add: ordered_keys_def)
  have edge: "schema_node ref_json JString JObject JArray
      (task_document t nm ds (uint (mem :: u64)) (edge_document i (uint (n :: u64)) tt) cfg)
      (task_node t nm ds (ucast mem) [plain_edge i (ucast n) tt] cfg)"
    if c: "ordered_keys cfg" for t nm ds mem i n tt cfg
    by (rule task_document_schema [where js = "Some [_]", OF _ _ c])
      (use edge_document_schema in \<open>auto simp: edge_document_def\<close>)
  have last: "schema_node ref_json JString JObject JArray
      (task_document t nm ds (uint (mem :: u64)) [] cfg) (task_node t nm ds (ucast mem) [] cfg)"
    if c: "ordered_keys cfg" for t nm ds mem cfg
    by (rule task_document_schema [where js = None, OF _ _ c]) simp_all
  note nodes = edge [OF cfg(2), of _ _ _ 1000000000 _ 3, simplified]
    edge [OF cfg(1), of _ _ _ 1000000000 _ 1, simplified] last [OF cfg(1), of _ _ _ 2000000000, simplified]
  show ?thesis
    unfolding word_count_document_def word_count_nodes_def
    by (rule schema_application.application) (use nodes in \<open>auto simp: ordered_keys_def\<close>)
qed

section \<open>Properties\<close>

text \<open>
  C21: documents that follow the grammar are accepted. For every JSON value that follows
  \<open>dag-syntax.cddl\<close>, \<open>fromJson\<close> succeeds and returns the data the grammar gives it: every
  string, every number modulo \<open>2 ^ 32\<close>, the tag \<open>latest\<close> where it is absent, no edges and an
  empty configuration where these are absent, nodes and edges in document order.
\<close>

theorem schema_documents_accepted:
  assumes "json_api J of_str of_obj of_arr" and "schema_application J of_str of_obj of_arr j app ns"
  shows "fromJson J j = Inr \<lparr>m_applicationName = app, m_nodes = ns, m_json = Some j\<rparr>"
  using json_api.schema_application_parsed [OF assms] .

theorem schema_documents_accepted_witness:
  "fromJson ref_json word_count_document = Inr word_count_dag"
  by (rule schema_documents_accepted [OF ref_json.json_api_axioms word_count_schema])

text \<open>
  C16: every edge of an application is connected. Take a DAG in which no node has two edges to the
  same task or two edges of one name. If a node \<open>n\<close> has an edge to the task of a node \<open>n'\<close> and both
  nodes are constructed (in different processes), then the first one has a producer and the second
  one a consumer for the edge, on the same topic, and the producer draws its partitions below the
  edge's \<open>maxPartitions\<close>. The second one has no other consumers than for edges to its task.
\<close>

theorem application_edges_connected:
  assumes "findNodeByName d nodeName = Inr n" and "findNodeByName d nodeName' = Inr n'"
    and "distinct (map target (downstream n))" and "distinct (map edge_id (downstream n))"
    and "e \<in> set (downstream n)" and "target e = task n'"
    and "newIceFlow S uuid time now d nodeName r = Inr f"
    and "newIceFlow S' uuid' time' now' d nodeName' r' = Inr g"
  shows "\<exists>p c. map_of (m_iceflowProducers f) (edge_id e) = Some p \<and>
    map_of (m_iceflowConsumers g) (edge_id e) = Some c \<and>
    m_pubTopic p = m_applicationName d @ ''/'' @ edge_id e \<and> m_subTopic c = m_pubTopic p \<and>
    m_numberOfPartitions p = maxPartitions e \<and>
    (\<forall>k \<in> set (consumer_edges g). \<exists>m \<in> set (m_nodes d). \<exists>e' \<in> set (downstream m).
       edge_id e' = k \<and> target e' = task n')"
proof -
  obtain before after where split: "downstream n = before @ e # after"
    using assms(5) by (meson split_list)
  have f: "m_syncPrefix f = m_applicationName d" "set (producer_edges f) = edge_id ` set (downstream n)"
    "\<forall>kp \<in> set (m_iceflowProducers f). producer_for S (m_nodePrefix f) (m_syncPrefix f) (downstream n) kp"
    using newIceFlow_state [OF assms(7)] assms(1) by auto
  have g: "m_syncPrefix g = m_applicationName d"
    "set (consumer_edges g) = edge_id ` snd ` set (findUpstreamEdges d n')"
    "\<forall>(k, c) \<in> set (m_iceflowConsumers g). c = storedConsumer (m_syncPrefix g) k r' (now' k)"
    using newIceFlow_state [OF assms(8)] assms(2) by auto
  have "n \<in> set (m_nodes d)"
    using assms(1) by (auto simp: findNodeByName_def dest: find_in_set split: option.splits)
  moreover have "find (\<lambda>e. target e = task n') (downstream n) = Some e"
    using assms(3,6) split by (auto simp: find_key_Some)
  ultimately have "(n, e) \<in> set (findUpstreamEdges d n')" by (simp add: upstream_simps)
  then have "edge_id e \<in> set (consumer_edges g)" unfolding g(2) by force
  then obtain c where c: "map_of (m_iceflowConsumers g) (edge_id e) = Some c"
    by (metis domD dom_map_of_conv_image_fst list.set_map)
  have "edge_id e \<in> set (producer_edges f)" using assms(5) f(2) by blast
  then obtain p where p: "map_of (m_iceflowProducers f) (edge_id e) = Some p"
    by (metis domD dom_map_of_conv_image_fst list.set_map)
  have "producer_for S (m_nodePrefix f) (m_syncPrefix f) (downstream n) (edge_id e, p)"
    using f(3) map_of_SomeD [OF p] by blast
  then obtain e' where e': "e' \<in> set (downstream n)" "edge_id e' = edge_id e"
    "maxPartitions e' = m_numberOfPartitions p" and topic: "m_pubTopic p = m_applicationName d @ ''/'' @ edge_id e"
    by (auto simp: producer_for_def f(1))
  have "e' = e" using assms(4,5) e'(1,2) by (simp add: distinct_map inj_on_def)
  moreover have "m_subTopic c = m_applicationName d @ ''/'' @ edge_id e"
    using g(1,3) map_of_SomeD [OF c] by (auto simp: newConsumer_def)
  moreover have "\<exists>m \<in> set (m_nodes d). \<exists>e' \<in> set (downstream m). edge_id e' = k \<and> target e' = task n'"
    if "k \<in> set (consumer_edges g)" for k
    using that unfolding g(2) by (fastforce simp: upstream_simps find_key_Some)
  ultimately show ?thesis
    using p c topic e'(3) by (intro exI [of _ p] exI [of _ c] conjI ballI) simp_all
qed

theorem application_edges_connected_witness:
  "\<exists>(f :: (ref_svs, jval, unit) IceFlow) (g :: (ref_svs, jval, unit) IceFlow) p c.
     newIceFlow ref_ndn ''u'' (\<lambda>_. 7) (\<lambda>_. 0) word_count_dag ''text2lines'' None = Inr f \<and>
     newIceFlow ref_ndn ''v'' (\<lambda>_. 7) (\<lambda>_. 0) word_count_dag ''lines2words'' None = Inr g \<and>
     map_of (m_iceflowProducers f) ''t2l'' = Some p \<and> map_of (m_iceflowConsumers g) ''t2l'' = Some c \<and>
     m_pubTopic p = ''WordCount/t2l'' \<and> m_subTopic c = ''WordCount/t2l'' \<and> m_numberOfPartitions p = 3"
proof -
  note nodes = findNodeByName_def word_count_nodes_def task_node_def
  have 1: "findNodeByName word_count_dag ''text2lines'' = Inr (word_count_nodes ! 0)"
    and 2: "findNodeByName word_count_dag ''lines2words'' = Inr (word_count_nodes ! 1)"
    by (simp_all add: nodes)
  have "\<nexists>x. newIceFlow ref_ndn ''u'' (\<lambda>_. 7) (\<lambda>_. 0) word_count_dag ''text2lines'' None = Inl x"
    "\<nexists>x. newIceFlow ref_ndn ''v'' (\<lambda>_. 7) (\<lambda>_. 0) word_count_dag ''lines2words'' None = Inl x"
    unfolding newIceFlow_throws_iff 1 2 by (simp_all add: word_count_nodes_def task_node_def)
  then obtain f g where f: "newIceFlow ref_ndn ''u'' (\<lambda>_. 7) (\<lambda>_. 0) word_count_dag ''text2lines'' None =
        Inr (f :: (ref_svs, jval, unit) IceFlow)"
    and g: "newIceFlow ref_ndn ''v'' (\<lambda>_. 7) (\<lambda>_. 0) word_count_dag ''lines2words'' None =
        Inr (g :: (ref_svs, jval, unit) IceFlow)"
    by (metis obj_sumE)
  have sels: "downstream (word_count_nodes ! 0) = [plain_edge ''t2l'' 3 ''2'']" "task (word_count_nodes ! 1) = ''2''"
    by (simp_all add: word_count_nodes_def task_node_def)
  from application_edges_connected [OF 1 2 _ _ _ _ f g, unfolded sels, of "plain_edge ''t2l'' 3 ''2''"]
  show ?thesis using f g by auto
qed

end
