(* ===== verification/Network.thy ===== *)
theory Network
  imports Node_Frame "HOL-Library.Sublist"
begin

text \<open>
  Nodes together. A deployment is a set of processes, each an \<open>IceFlow\<close> object with the state of
  its application; a step is one operation of one process or the delivery of a publication of one
  process to a subscription of another. Delivery is the contract of SVS pub/sub: a callback is
  called for a publication of the group whose name the subscription matches, in any order, any
  number of times or never. A process that has crashed is one that takes no more steps.
\<close>

section \<open>Deployments\<close>

text \<open>
  What the processes share: the operations and observers of the libraries, when a subscription
  matches a name, the application code of each process, and the pairs of application and edge
  that are in use.
\<close>

record ('ps, 'j, 'n, 'u, 'a) deployment =
  d_svs :: "('ps, 'n) ndn_ops"
  d_json :: "'j json_ops"
  d_used :: "'ps \<Rightarrow> nat"
  d_subs :: "'ps \<Rightarrow> u32 \<rightharpoonup> 'n \<times> callback"
  d_pubs :: "'ps \<Rightarrow> 'n publication list"
  d_matches :: "'n \<Rightarrow> 'n \<Rightarrow> bool"
  d_app :: "nat \<Rightarrow> ('u, 'a) application"
  d_topics :: "(string \<times> string) set"

abbreviation backName :: "('ps, 'n) ndn_ops \<Rightarrow> string \<Rightarrow> string \<Rightarrow> 'n" where
  "backName S syncPrefix e \<equiv> backchannelName S (syncPrefix @ ''/'' @ e)"

text \<open>
  The contract a deployment relies on: the two libraries, and names of different edges that do
  not match each other.
\<close>

locale deployed =
  svs "d_svs D" invar "d_used D" "d_subs D" "d_pubs D" store +
  json_api "d_json D" of_str of_obj of_arr
  for D :: "('ps, 'j, 'n, 'u, 'a) deployment" and invar :: "'ps \<Rightarrow> bool" and store :: "'ps \<Rightarrow> 'n set"
    and of_str :: "string \<Rightarrow> 'j" and of_obj :: "(string \<times> 'j) list \<Rightarrow> 'j"
    and of_arr :: "'j list \<Rightarrow> 'j" +
  assumes topic_topic:
      "{(sp, e), (sp', e')} \<subseteq> d_topics D \<Longrightarrow>
         d_matches D (topicName (d_svs D) sp e q) (topicName (d_svs D) sp' e' q') \<Longrightarrow>
         sp = sp' \<and> e = e' \<and> q = q'"
    and topic_back:
      "{(sp, e), (sp', e')} \<subseteq> d_topics D \<Longrightarrow>
         \<not> d_matches D (topicName (d_svs D) sp e q) (backName (d_svs D) sp' e')"
    and back_topic:
      "{(sp, e), (sp', e')} \<subseteq> d_topics D \<Longrightarrow>
         \<not> d_matches D (backName (d_svs D) sp e) (topicName (d_svs D) sp' e' q)"
    and back_back:
      "{(sp, e), (sp', e')} \<subseteq> d_topics D \<Longrightarrow>
         d_matches D (backName (d_svs D) sp e) (backName (d_svs D) sp' e') \<Longrightarrow> sp = sp' \<and> e = e'"

section \<open>Steps\<close>

type_synonym ('ps, 'j, 'u, 'a) network = "nat \<rightharpoonup> ('ps, 'j, 'u) IceFlow \<times> 'a"

definition uses_topics :: "(string \<times> string) set \<Rightarrow> ('ps, 'j, 'u) IceFlow \<Rightarrow> bool" where
  "uses_topics T f \<longleftrightarrow>
     {m_syncPrefix f} \<times> (set (producer_edges f) \<union> set (consumer_edges f)) \<subseteq> T"

text \<open>
  The application threads of a process may change its state whenever they act (\<open>a'\<close> is
  arbitrary there). A process joins with fewer than \<open>2 ^ 32\<close> edges and subscribes while its
  handle counter has room. Data only arrives while the loop of the process runs; that it may still
  arrive in the batch in which the process was shut down is no further behaviour, as such a delivery
  commutes with the shutdown (theory \<open>Loop_Steps\<close>).
\<close>

inductive net_step ::
    "('ps, 'j, 'n, 'u, 'a) deployment \<Rightarrow> ('ps, 'j, 'u, 'a) network \<Rightarrow> ('ps, 'j, 'u, 'a) network \<Rightarrow> bool"
  for D where
  joined:
    "s i = None \<Longrightarrow> findNodeByName d nodeName = Inr node \<Longrightarrow> length (downstream node) < 2 ^ 32 \<Longrightarrow>
     newIceFlow (d_svs D) uuid time now d nodeName r = Inr f \<Longrightarrow> uses_topics (d_topics D) f \<Longrightarrow>
     net_step D s (s(i \<mapsto> (f, a)))"
| pushed:
    "s i = Some (f, a) \<Longrightarrow> pushData (d_svs D) payload e f = (r, f') \<Longrightarrow>
     net_step D s (s(i \<mapsto> (f', a')))"
| consumer_repartitioned:
    "s i = Some (f, a) \<Longrightarrow> d_used D (m_svsPubSub f) + length ps < 2 ^ 32 \<Longrightarrow>
     repartitionConsumer (d_svs D) ps e f = (r, f') \<Longrightarrow> net_step D s (s(i \<mapsto> (f', a')))"
| producer_repartitioned:
    "s i = Some (f, a) \<Longrightarrow> repartitionProducer n e f = (r, f') \<Longrightarrow> net_step D s (s(i \<mapsto> (f', a')))"
| callback_registered:
    "s i = Some (f, a) \<Longrightarrow> registerConsumerCallback cb e f = (r, f') \<Longrightarrow>
     net_step D s (s(i \<mapsto> (f', a')))"
| stats_queried:
    "s i = Some (f, a) \<Longrightarrow> getConsumerStats (d_svs D) now f = (stats, f') \<Longrightarrow>
     net_step D s (s(i \<mapsto> (f', a')))"
| started:
    "s i = Some (f, a) \<Longrightarrow> \<not> m_running f \<Longrightarrow> net_step D s (s(i \<mapsto> (f\<lparr>m_running := True\<rparr>, a')))"
| stopped: "s i = Some (f, a) \<Longrightarrow> net_step D s (s(i \<mapsto> (shutdown f, a')))"
| delivered:
    "s i = Some (f, a) \<Longrightarrow> s j = Some (g, b) \<Longrightarrow> (n, d, who, seq) \<in> set (d_pubs D (m_svsPubSub g)) \<Longrightarrow>
     (m, cb) \<in> ran (d_subs D (m_svsPubSub f)) \<Longrightarrow> d_matches D m n \<Longrightarrow>
     handleEvent (d_svs D) (d_json D) (d_app D i)
       (Arrived cb \<lparr>sub_name = n, sub_data = d, sub_seqNo = seq\<rparr> now) (f, a) = (r, f', a') \<Longrightarrow>
     m_running f \<Longrightarrow> net_step D s (s(i \<mapsto> (f', a')))"

abbreviation net_reach :: "('ps, 'j, 'n, 'u, 'a) deployment \<Rightarrow> ('ps, 'j, 'u, 'a) network \<Rightarrow> bool" where
  "net_reach D \<equiv> (net_step D)\<^sup>*\<^sup>* Map.empty"

lemma net_more: "net_reach D s \<Longrightarrow> net_step D s s' \<Longrightarrow> net_reach D s'"
  by (rule rtranclp.rtrancl_into_rtrancl)

section \<open>The invariant\<close>

text \<open>The subscriptions a node may hold.\<close>

definition sub_ok :: "('ps, 'n) ndn_ops \<Rightarrow> ('ps, 'j, 'u) IceFlow \<Rightarrow> 'n \<times> callback \<Rightarrow> bool" where
  "sub_ok S f = (\<lambda>(n, cb). case cb of
       Consumer_callback e \<Rightarrow> e \<in> set (consumer_edges f) \<and> (\<exists>q. n = topicName S (m_syncPrefix f) e q)
     | Backchannel_handler np sp \<Rightarrow> np = m_nodePrefix f \<and> sp = m_syncPrefix f \<and>
         (\<exists>e \<in> set (producer_edges f). n = backName S (m_syncPrefix f) e))"

definition process_ok :: "('ps, 'j, 'n, 'u, 'a) deployment \<Rightarrow> ('ps \<Rightarrow> bool) \<Rightarrow> ('ps, 'j, 'u) IceFlow \<Rightarrow> bool" where
  "process_ok D invar f \<longleftrightarrow> invar (m_svsPubSub f) \<and> node_wf (d_svs D) f \<and> uses_topics (d_topics D) f \<and>
     (\<forall>x \<in> ran (d_subs D (m_svsPubSub f)). sub_ok (d_svs D) f x)"

text \<open>Some process of the application has published unit number \<open>q\<close> on the edge.\<close>

definition unit_published ::
    "('ps, 'j, 'n, 'u, 'a) deployment \<Rightarrow> ('ps, 'j, 'u, 'a) network \<Rightarrow> string \<Rightarrow> string \<Rightarrow> u64 \<Rightarrow> bool" where
  "unit_published D s sp e q \<longleftrightarrow> (\<exists>j g b x. s j = Some (g, b) \<and> m_syncPrefix g = sp \<and>
     x \<in> set (d_pubs D (m_svsPubSub g)) \<and> data_publication (d_svs D) g e x \<and> snd (snd (snd x)) = q)"

definition justified ::
    "('ps, 'j, 'n, 'u, 'a) deployment \<Rightarrow> ('ps, 'j, 'u, 'a) network \<Rightarrow> ('ps, 'j, 'u) IceFlow
       \<Rightarrow> 'n publication \<Rightarrow> bool" where
  "justified D s f x \<longleftrightarrow> (\<exists>e. data_publication (d_svs D) f e x) \<or>
     (\<exists>e q. ack_publication (d_svs D) (d_json D) f e q x \<and> unit_published D s (m_syncPrefix f) e q)"

definition network_ok ::
    "('ps, 'j, 'n, 'u, 'a) deployment \<Rightarrow> ('ps \<Rightarrow> bool) \<Rightarrow> ('ps, 'j, 'u, 'a) network \<Rightarrow> bool" where
  "network_ok D invar s \<longleftrightarrow> (\<forall>i f a. s i = Some (f, a) \<longrightarrow> process_ok D invar f \<and>
     (\<forall>x \<in> set (d_pubs D (m_svsPubSub f)). justified D s f x))"

lemma sub_ok_frame: "node_frame f f' \<Longrightarrow> sub_ok S f' = sub_ok S f"
  using frame_producer_edges [of f f']
  by (simp add: sub_ok_def node_frame_def fun_eq_iff split: callback.split)

lemma uses_topics_frame: "node_frame f f' \<Longrightarrow> uses_topics T f' = uses_topics T f"
  using frame_producer_edges [of f f'] by (simp add: uses_topics_def node_frame_def)

lemma process_ok_step:
  assumes "process_ok D invar f" and "node_frame f f'" and "invar (m_svsPubSub f')"
    and "node_wf (d_svs D) f'"
    and "\<forall>x \<in> ran (d_subs D (m_svsPubSub f')). x \<in> ran (d_subs D (m_svsPubSub f)) \<or> sub_ok (d_svs D) f x"
  shows "process_ok D invar f'"
  using assms by (auto simp: process_ok_def sub_ok_frame uses_topics_frame)

text \<open>Publications stay where they are.\<close>

lemma unit_published_update:
  assumes "s i = Some (f, a)" and "node_frame f f'"
    and "set (d_pubs D (m_svsPubSub f)) \<subseteq> set (d_pubs D (m_svsPubSub f'))"
    and "unit_published D s sp e q"
  shows "unit_published D (s(i \<mapsto> (f', a'))) sp e q"
proof -
  obtain j g b x where x: "s j = Some (g, b)" "m_syncPrefix g = sp"
    "x \<in> set (d_pubs D (m_svsPubSub g))" "data_publication (d_svs D) g e x" "snd (snd (snd x)) = q"
    using assms(4) unfolding unit_published_def by blast
  show ?thesis
  proof (cases "j = i")
    case True
    with x assms(1) have [simp]: "g = f" by simp
    have "m_syncPrefix f' = sp" and "data_publication (d_svs D) f' e x"
      using assms(2) x publications_frame(1) [OF assms(2), of "d_svs D"] by (simp_all add: node_frame_def)
    with x assms(3) show ?thesis
      unfolding unit_published_def by (intro exI [of _ i] exI [of _ f'] exI [of _ a'] exI [of _ x]) auto
  next
    case False
    with x show ?thesis
      unfolding unit_published_def by (intro exI [of _ j] exI [of _ g] exI [of _ b] exI [of _ x]) auto
  qed
qed

lemma justified_update:
  assumes "s i = Some (f, a)" and "node_frame f f'"
    and "set (d_pubs D (m_svsPubSub f)) \<subseteq> set (d_pubs D (m_svsPubSub f'))" and "justified D s g x"
  shows "justified D (s(i \<mapsto> (f', a'))) g x"
  using assms(4) unit_published_update [where D = D and s = s and i = i, OF assms(1-3)] unfolding justified_def by blast

lemma network_update:
  assumes "network_ok D invar s" and "s i = Some (f, a)" and "node_frame f f'" and "process_ok D invar f'"
    and "d_pubs D (m_svsPubSub f') = d_pubs D (m_svsPubSub f) @ new" and "\<forall>x \<in> set new. justified D s f x"
  shows "network_ok D invar (s(i \<mapsto> (f', a')))"
  unfolding network_ok_def
proof (intro allI impI)
  fix j g b
  assume g: "(s(i \<mapsto> (f', a'))) j = Some (g, b)"
  have mono: "set (d_pubs D (m_svsPubSub f)) \<subseteq> set (d_pubs D (m_svsPubSub f'))" using assms(5) by simp
  note just = justified_update [where D = D and s = s and i = i and a' = a', OF assms(2,3) mono]
  show "process_ok D invar g \<and> (\<forall>x \<in> set (d_pubs D (m_svsPubSub g)). justified D (s(i \<mapsto> (f', a'))) g x)"
  proof (cases "j = i")
    case False
    with g have "s j = Some (g, b)" by simp
    with assms(1) have "process_ok D invar g" "\<forall>x \<in> set (d_pubs D (m_svsPubSub g)). justified D s g x"
      unfolding network_ok_def by blast+
    with just show ?thesis by blast
  next
    case True
    with g have [simp]: "g = f'" by simp
    have same: "justified D (s(i \<mapsto> (f', a'))) f' = justified D (s(i \<mapsto> (f', a'))) f"
      using publications_frame(1) [OF assms(3), of "d_svs D"]
        publications_frame(2) [OF assms(3), of "d_svs D" "d_json D"] assms(3) by (simp add: justified_def node_frame_def fun_eq_iff)
    have "justified D s f x" if "x \<in> set (d_pubs D (m_svsPubSub f'))" for x
      using that assms(1,2,5,6) by (auto simp: network_ok_def)
    then show ?thesis using assms(4) just by (simp add: same)
  qed
qed

section \<open>Deliveries\<close>

context deployed
begin

lemma edge_topic:
  "process_ok D invar f \<Longrightarrow> e \<in> set (producer_edges f) \<union> set (consumer_edges f) \<Longrightarrow>
     (m_syncPrefix f, e) \<in> d_topics D"
  by (auto simp: process_ok_def uses_topics_def)

text \<open>
  What a publication can be, seen by a matching subscription: a unit of the same edge for a
  consumer, an acknowledgement of the same edge for a back channel handler.
\<close>

lemma delivered_unit:
  assumes "network_ok D invar s" and "s i = Some (f, a)" and "s j = Some (g, b)"
    and "x \<in> set (d_pubs D (m_svsPubSub g))"
    and "(m, Consumer_callback e) \<in> ran (d_subs D (m_svsPubSub f))" and "d_matches D m (fst x)"
  shows "m_syncPrefix g = m_syncPrefix f \<and> e \<in> set (consumer_edges f) \<and> fst x = m \<and>
    data_publication (d_svs D) g e x"
proof -
  have f: "process_ok D invar f" and g: "process_ok D invar g" and just: "justified D s g x"
    using assms(1-4) unfolding network_ok_def by blast+
  have "sub_ok (d_svs D) f (m, Consumer_callback e)" using f assms(5) unfolding process_ok_def by blast
  then obtain q where e: "e \<in> set (consumer_edges f)" and m: "m = topicName (d_svs D) (m_syncPrefix f) e q"
    by (auto simp: sub_ok_def)
  have T: "(m_syncPrefix f, e) \<in> d_topics D" using edge_topic [OF f] e by simp
  have "\<not> ack_publication (d_svs D) (d_json D) g e' p x" for e' p
  proof
    assume ack: "ack_publication (d_svs D) (d_json D) g e' p x"
    then have "fst x = backName (d_svs D) (m_syncPrefix g) e'" and "e' \<in> set (consumer_edges g)"
      by (auto simp: ack_publication_def)
    moreover from this(2) have "(m_syncPrefix g, e') \<in> d_topics D" using edge_topic [OF g] by simp
    ultimately show False using topic_back T assms(6) m by auto
  qed
  then obtain e' where data: "data_publication (d_svs D) g e' x"
    using just unfolding justified_def by blast
  then obtain q' where n: "fst x = topicName (d_svs D) (m_syncPrefix g) e' q'"
    by (auto simp: data_publication_def)
  have "(m_syncPrefix g, e') \<in> d_topics D"
    using edge_topic [OF g] data_publication_edge [OF data] by simp
  from topic_topic [of "m_syncPrefix f" e "m_syncPrefix g" e' q q'] this T assms(6) m n data e
  show ?thesis by simp
qed

lemma delivered_ack:
  assumes "network_ok D invar s" and "s i = Some (f, a)" and "s j = Some (g, b)"
    and "x \<in> set (d_pubs D (m_svsPubSub g))"
    and "(m, Backchannel_handler np sp) \<in> ran (d_subs D (m_svsPubSub f))" and "d_matches D m (fst x)"
  shows "np = m_nodePrefix f \<and> sp = m_syncPrefix f \<and> m_syncPrefix g = m_syncPrefix f \<and>
    (\<exists>e q. e \<in> set (producer_edges f) \<and> ack_publication (d_svs D) (d_json D) g e q x \<and>
       unit_published D s (m_syncPrefix f) e q)"
proof -
  have f: "process_ok D invar f" and g: "process_ok D invar g" and just: "justified D s g x"
    using assms(1-4) unfolding network_ok_def by blast+
  have "sub_ok (d_svs D) f (m, Backchannel_handler np sp)" using f assms(5) unfolding process_ok_def by blast
  then obtain e where e: "e \<in> set (producer_edges f)" and m: "m = backName (d_svs D) (m_syncPrefix f) e"
    and self: "np = m_nodePrefix f" "sp = m_syncPrefix f"
    by (auto simp: sub_ok_def)
  have T: "(m_syncPrefix f, e) \<in> d_topics D" using edge_topic [OF f] e by simp
  have "\<not> data_publication (d_svs D) g e' x" for e'
  proof
    assume data: "data_publication (d_svs D) g e' x"
    then obtain q where "fst x = topicName (d_svs D) (m_syncPrefix g) e' q"
      by (auto simp: data_publication_def)
    moreover have "(m_syncPrefix g, e') \<in> d_topics D"
      using edge_topic [OF g] data_publication_edge [OF data] by simp
    ultimately show False using back_topic T assms(6) m by auto
  qed
  then obtain e' q where ack: "ack_publication (d_svs D) (d_json D) g e' q x"
    and pub: "unit_published D s (m_syncPrefix g) e' q"
    using just unfolding justified_def by blast
  have n: "fst x = backName (d_svs D) (m_syncPrefix g) e'" and "e' \<in> set (consumer_edges g)"
    using ack by (auto simp: ack_publication_def)
  then have "(m_syncPrefix g, e') \<in> d_topics D" using edge_topic [OF g] by simp
  with back_back [of "m_syncPrefix f" e "m_syncPrefix g" e'] T assms(6) m n
  have "m_syncPrefix f = m_syncPrefix g" "e = e'" by simp_all
  with ack pub self e show ?thesis by auto
qed

lemma network_process:
  assumes "network_ok D invar s" and "s i = Some (f, a)"
  shows "process_ok D invar f" and "invar (m_svsPubSub f)" and "node_wf (d_svs D) f"
proof -
  show "process_ok D invar f" using assms unfolding network_ok_def by blast
  then show "invar (m_svsPubSub f)" and "node_wf (d_svs D) f" by (simp_all add: process_ok_def)
qed

lemma process_step:
  assumes "network_ok D invar s" and "s i = Some (f, a)" and "node_frame f f'"
    and "node_wf (d_svs D) f'" and "d_pubs D (m_svsPubSub f') = d_pubs D (m_svsPubSub f) @ new"
    and "\<forall>x \<in> set new. justified D s f x" and "invar (m_svsPubSub f')"
    and "\<forall>x \<in> ran (d_subs D (m_svsPubSub f')). x \<in> ran (d_subs D (m_svsPubSub f)) \<or> sub_ok (d_svs D) f x"
  shows "network_ok D invar (s(i \<mapsto> (f', a')))"
  using network_update [OF assms(1-3) _ assms(5,6)]
    process_ok_step [OF network_process(1) [OF assms(1,2)] assms(3,7,4,8)] by blast

lemma joined_ok:
  assumes "network_ok D invar s" and "s i = None" and "findNodeByName d nodeName = Inr node"
    and "length (downstream node) < 2 ^ 32"
    and "newIceFlow (d_svs D) uuid time now d nodeName r = Inr f" and "uses_topics (d_topics D) f"
  shows "network_ok D invar (s(i \<mapsto> (f, a)))"
proof -
  note new = newIceFlow_svs [OF svs_axioms assms(3-5)]
  note state = newIceFlow_state [OF assms(5)]
  have "node_wf (d_svs D) f" by (rule reach_wf [OF node_reach.created [OF assms(5)]])
  moreover have "sub_ok (d_svs D) f x" if "x \<in> ran (d_subs D (m_svsPubSub f))" for x
  proof -
    from that new obtain e where "e \<in> set (downstream node)"
      and "x = (backName (d_svs D) (m_syncPrefix f) (edge_id e), Backchannel_handler (m_nodePrefix f) (m_syncPrefix f))"
      by blast
    moreover from this(1) state assms(3) have "edge_id e \<in> set (producer_edges f)" by auto
    ultimately show ?thesis unfolding sub_ok_def by (simp del: list.set_map set_map) blast
  qed
  ultimately have f: "process_ok D invar f" using new assms(6) by (simp add: process_ok_def)
  have "unit_published D (s(i \<mapsto> (f, a))) sp e q" if pub: "unit_published D s sp e q" for sp e q
  proof -
    obtain j g b x where x: "s j = Some (g, b)" "m_syncPrefix g = sp"
      "x \<in> set (d_pubs D (m_svsPubSub g))" "data_publication (d_svs D) g e x" "snd (snd (snd x)) = q"
      using pub unfolding unit_published_def by blast
    with assms(2) have "(s(i \<mapsto> (f, a))) j = Some (g, b)" by auto
    with x show ?thesis unfolding unit_published_def by blast
  qed
  then have "justified D s g x \<Longrightarrow> justified D (s(i \<mapsto> (f, a))) g x" for g x
    unfolding justified_def by blast
  with assms(1) f new show ?thesis
    unfolding network_ok_def by (auto split: if_splits)
qed

lemma delivered_ok:
  assumes "network_ok D invar s" and "s i = Some (f, a)" and "s j = Some (g, b)"
    and "(n, d, who, seq) \<in> set (d_pubs D (m_svsPubSub g))"
    and "(m, cb) \<in> ran (d_subs D (m_svsPubSub f))" and "d_matches D m n"
    and "handleEvent (d_svs D) (d_json D) (d_app D i)
      (Arrived cb \<lparr>sub_name = n, sub_data = d, sub_seqNo = seq\<rparr> now) (f, a) = (r, f', a')"
  shows "network_ok D invar (s(i \<mapsto> (f', a')))"
proof -
  note ok = network_process [OF assms(1) assms(2)]
  let ?ev = "Arrived cb \<lparr>sub_name = n, sub_data = d, sub_seqNo = seq\<rparr> now"
  have f': "f' = fst (snd (handleEvent (d_svs D) (d_json D) (d_app D i) ?ev (f, a)))"
    using assms(7) by simp
  have ev: "node_evolves invar (d_subs D) (d_pubs D) f f'"
    using handleEvent_evolves [OF svs_axioms ok(2) assms(7)] by blast
  obtain new where new: "d_pubs D (m_svsPubSub f') = d_pubs D (m_svsPubSub f) @ new"
    "\<forall>x \<in> set new. (\<exists>e. data_publication (d_svs D) f e x) \<or>
       (\<exists>e d now. ?ev = Arrived (Consumer_callback e) d now \<and>
          ack_publication (d_svs D) (d_json D) f e (sub_seqNo d) x)"
    using event_publications [OF svs_axioms ok(2,3) assms(7)] by blast
  have "unit_published D s (m_syncPrefix f) e seq" if "cb = Consumer_callback e" for e
    using delivered_unit [OF assms(1) assms(2,3,4), of m e] assms(3-6) that
    unfolding unit_published_def by fastforce
  with new(2) have "\<forall>x \<in> set new. justified D s f x"
    unfolding justified_def by fastforce
  moreover have "node_frame f f'" "node_wf (d_svs D) f'"
    unfolding f' by (rule handleEvent_frame, rule handleEvent_wf [OF ok(3)])
  ultimately show ?thesis
    using ev new(1)
    by (intro process_step [OF assms(1) assms(2)]) (auto simp: node_evolves_def)
qed

lemma step_ok:
  assumes "network_ok D invar s" and "net_step D s s'"
  shows "network_ok D invar s'"
  using assms(2)
proof cases
  case (joined i d nodeName node uuid time now r f a)
  then show ?thesis using joined_ok [OF assms(1)] by simp
next
  case (pushed i f a payload e r f' a')
  note ok = network_process [OF assms(1) pushed(2)]
  have f': "f' = snd (pushData (d_svs D) payload e f)" using pushed(3) by simp
  obtain new where "invar (m_svsPubSub f')" "d_subs D (m_svsPubSub f') = d_subs D (m_svsPubSub f)"
    "d_pubs D (m_svsPubSub f') = d_pubs D (m_svsPubSub f) @ new"
    "\<forall>x \<in> set new. \<exists>e. data_publication (d_svs D) f e x"
    using push_publications [OF svs_axioms ok(2,3), of payload e] f' by blast
  then show ?thesis
    unfolding pushed(1) f' by (intro process_step [OF assms(1) pushed(2) pushData_node_frame
          pushData_wf [OF ok(3)]]) (auto simp: justified_def)
next
  case (consumer_repartitioned i f a ps e r f' a')
  note ok = network_process [OF assms(1) consumer_repartitioned(2)]
  have f': "f' = snd (repartitionConsumer (d_svs D) ps e f)" using consumer_repartitioned(4) by simp
  note sub = repartitionConsumer_svs [OF svs_axioms ok(2) consumer_repartitioned(3), of e]
  have "sub_ok (d_svs D) f x" if c: "map_of (m_iceflowConsumers f) e = Some c"
    and x: "x = partition_sub (d_svs D) e c q" for c q x
  proof -
    have "m_subTopic c = m_syncPrefix f @ ''/'' @ e"
      using ok(3) map_of_SomeD [OF c] by (auto simp: node_wf_def)
    moreover have "e \<in> set (consumer_edges f)" using map_of_SomeD [OF c] by force
    ultimately show ?thesis
      by (auto simp: x sub_ok_def partition_sub_def consumer_prepareDataName_def topicName_def)
  qed
  then show ?thesis
    unfolding consumer_repartitioned(1) f' using sub
    by (intro process_step [where new = "[]", OF assms(1) consumer_repartitioned(2) repartitionConsumer_frame
          repartitionConsumer_wf [OF ok(3)]]) auto
next
  case (producer_repartitioned i f a n e r f' a')
  note ok = network_process [OF assms(1) producer_repartitioned(2)]
  have f': "f' = snd (repartitionProducer n e f)" using producer_repartitioned(3) by simp
  show ?thesis
    unfolding producer_repartitioned(1) f'
    by (rule process_step [where new = "[]", OF assms(1) producer_repartitioned(2) repartitionProducer_frame(1)
          repartitionProducer_wf [OF ok(3)]]) (simp_all add: repartitionProducer_frame ok)
next
  case (callback_registered i f a cb e r f' a')
  note ok = network_process [OF assms(1) callback_registered(2)]
  have f': "f' = snd (registerConsumerCallback cb e f)" using callback_registered(3) by simp
  show ?thesis
    unfolding callback_registered(1) f'
    by (rule process_step [where new = "[]", OF assms(1) callback_registered(2) registerConsumerCallback_frame(1)
          registerConsumerCallback_wf [OF ok(3)]]) (simp_all add: registerConsumerCallback_frame ok)
next
  case (stats_queried i f a now stats f' a')
  note ok = network_process [OF assms(1) stats_queried(2)]
  have f': "f' = snd (getConsumerStats (d_svs D) now f)" using stats_queried(3) by simp
  note svs = consumerStatsLoop_svs [OF svs_axioms ok(2), of now "m_iceflowConsumers f" "[]"]
  show ?thesis
    unfolding stats_queried(1) f'
    by (rule process_step [where new = "[]", OF assms(1) stats_queried(2) getConsumerStats_frame
          getConsumerStats_wf [OF ok(3)]])
      (use svs in \<open>auto simp: getConsumerStats_def split_beta dest!: ran_restrictD intro: ranI\<close>)
next
  case (started i f a a')
  note ok = network_process [OF assms(1) started(2)]
  show ?thesis
    unfolding started(1)
    by (rule process_step [where new = "[]", OF assms(1) started(2)]) (simp_all add: ok)
next
  case (stopped i f a a')
  note ok = network_process [OF assms(1) stopped(2)]
  show ?thesis
    unfolding stopped(1)
    by (rule process_step [where new = "[]", OF assms(1) stopped(2)]) (simp_all add: ok shutdown_def)
next
  case (delivered i f a j g b n d who seq m cb now r f' a')
  then show ?thesis using delivered_ok [OF assms(1)] by simp
qed

lemma reach_ok: "net_reach D s \<Longrightarrow> network_ok D invar s"
  by (induction rule: rtranclp_induct) (simp add: network_ok_def, rule step_ok)

end

section \<open>An example deployment\<close>

text \<open>The node upstream of \<open>example_iceflow\<close> in the example DAG.\<close>

definition example_upstream :: "(ref_svs, jval, nat) IceFlow" where
  "example_upstream =
     (case newIceFlow ref_ndn ''v'' (\<lambda>_. 7) (\<lambda>_. 0) example_dag ''text2lines'' None of
        Inr f \<Rightarrow> f
      | Inl _ \<Rightarrow> undefined)"

lemma example_upstream_new:
  "newIceFlow ref_ndn ''v'' (\<lambda>_. 7) (\<lambda>_. 0) example_dag ''text2lines'' None = Inr example_upstream"
proof -
  have "(ucast (3 :: u32) :: u64) = 3" by simp
  then show ?thesis
    by (simp add: example_upstream_def newIceFlow_def example_dag_def findNodeByName_def
        example_node_def findUpstreamEdges_def findUpstreamEdgesOfTask_def newProducer_def
        setTopicPartitions_eq setupBackchannel_def Let_def)
qed

lemma example_upstream_state:
  "set (producer_edges example_upstream) = {''t2l''}" "m_syncPrefix example_upstream = ''/app''"
  "ref_inv (m_svsPubSub example_upstream)" "rs_pubs (m_svsPubSub example_upstream) = []"
proof -
  have node: "findNodeByName example_dag ''text2lines'' = Inr example_node"
    by (simp add: example_dag_def findNodeByName_def example_node_def)
  show "set (producer_edges example_upstream) = {''t2l''}" "m_syncPrefix example_upstream = ''/app''"
    using newIceFlow_state [OF example_upstream_new] node
    by (auto simp: example_node_def example_dag_def)
  have "length (downstream example_node) < 2 ^ 32" by (simp add: example_node_def)
  from newIceFlow_svs [OF ref_svs.svs_axioms node this example_upstream_new]
  show "ref_inv (m_svsPubSub example_upstream)" "rs_pubs (m_svsPubSub example_upstream) = []" by blast+
qed

lemma example_iceflow_sync: "m_syncPrefix example_iceflow = ''/app''"
  using newIceFlow_state [OF example_iceflow_new] by (auto simp: example_dag_def)

text \<open>Both nodes on the reference libraries, where a subscription matches by prefix.\<close>

definition example_deployment ::
    "(ref_svs, jval, component list, nat, nat) deployment" where
  "example_deployment =
     \<lparr>d_svs = ref_ndn, d_json = ref_json, d_used = rs_count, d_subs = ref_subs, d_pubs = rs_pubs,
      d_matches = prefix, d_app = (\<lambda>_. example_app), d_topics = {(''/app'', ''t2l''), (''/app'', ''l2w'')}\<rparr>"

lemma example_deployment_sels [simp]:
  "d_svs example_deployment = ref_ndn" "d_json example_deployment = ref_json"
  "d_used example_deployment = rs_count" "d_subs example_deployment = ref_subs"
  "d_pubs example_deployment = rs_pubs" "d_matches example_deployment = prefix"
  "d_app example_deployment = (\<lambda>_. example_app)"
  "d_topics example_deployment = {(''/app'', ''t2l''), (''/app'', ''l2w'')}"
  by (simp_all add: example_deployment_def)

lemma example_names:
  "topicName ref_ndn ''/app'' ''t2l'' q = [Text ''app'', Text ''t2l'', Number (ucast q)]"
  "topicName ref_ndn ''/app'' ''l2w'' q = [Text ''app'', Text ''l2w'', Number (ucast q)]"
  "backchannelName ref_ndn ''/app/t2l'' = [Text ''app'', Text ''t2l'', Text ''backchannel'']"
  "backchannelName ref_ndn ''/app/l2w'' = [Text ''app'', Text ''l2w'', Text ''backchannel'']"
  by (simp_all add: topicName_def backchannelName_def ref_name_of_def)

lemma ucast_u32_inject: "(ucast (q :: u32) :: u64) = ucast q' \<longleftrightarrow> q = q'"
proof
  assume "(ucast q :: u64) = ucast q'"
  then have "(ucast (ucast q :: u64) :: u32) = ucast (ucast q' :: u64)" by simp
  then show "q = q'" by simp
qed simp

interpretation example_net:
  deployed example_deployment ref_inv rs_store JString JObject JArray
proof (rule deployed.intro)
  show "deployed_axioms example_deployment"
    by unfold_locales (auto simp: example_names ucast_u32_inject)
qed (simp_all add: ref_svs.svs_axioms ref_json.json_api_axioms)

text \<open>
  A run of it: both nodes join, the second registers a callback and subscribes to all partitions,
  the first pushes a unit.
\<close>

definition example_registered :: "(ref_svs, jval, nat) IceFlow" where
  "example_registered = snd (registerConsumerCallback (Plain 0) ''t2l'' example_iceflow)"

lemma example_registered_sels:
  "m_svsPubSub example_registered = m_svsPubSub example_iceflow"
  "m_iceflowConsumers example_registered =
     [(''t2l'', (storedConsumer ''/app'' ''t2l'' None 0)\<lparr>m_consumerCallback := Some (Plain 0)\<rparr>)]"
  by (simp_all add: example_registered_def registerConsumerCallback_def setConsumerCallback_def
      example_iceflow_sels)

lemma example_joined:
  "net_reach example_deployment
     [0 \<mapsto> (example_upstream, 0), 1 \<mapsto> (example_registered, 0)]"
proof -
  have node: "findNodeByName example_dag ''text2lines'' = Inr example_node"
    by (simp add: example_dag_def findNodeByName_def example_node_def)
  have node2: "findNodeByName example_dag ''lines2words'' = Inr (m_nodes example_dag ! 1)"
    by (simp add: example_dag_def findNodeByName_def example_node_def)
  have small: "length (downstream (m_nodes example_dag ! 1)) < 2 ^ 32"
    by (simp add: example_dag_def)
  have "findUpstreamEdges example_dag example_node = []"
    by (simp add: example_node_def example_dag_def findUpstreamEdges_def findUpstreamEdgesOfTask_def)
  moreover obtain n where "findNodeByName example_dag ''text2lines'' = Inr n"
    "m_upstreamEdges example_upstream = map snd (findUpstreamEdges example_dag n)"
    "set (consumer_edges example_upstream) = edge_id ` set (m_upstreamEdges example_upstream)"
    using newIceFlow_state [OF example_upstream_new] by blast
  ultimately have up: "m_iceflowConsumers example_upstream = []" using node by simp
  let ?s1 = "[0 \<mapsto> (example_upstream, 0)] :: (ref_svs, jval, nat, nat) network"
    and ?i = "(example_iceflow, 0 :: nat)"
  have 0: "net_reach example_deployment Map.empty" by (rule rtranclp.rtrancl_refl)
  have "net_step example_deployment Map.empty ?s1"
    by (rule net_step.joined [OF _ node])
      (use example_upstream_new example_upstream_state up in
        \<open>simp_all add: uses_topics_def example_node_def\<close>)
  with 0 have 1: "net_reach example_deployment ?s1" by (rule net_more)
  have "net_step example_deployment ?s1 (?s1(1 \<mapsto> ?i))"
    by (rule net_step.joined [OF _ node2 small])
      (use example_iceflow_new example_iceflow_edges example_iceflow_sync in \<open>simp_all add: uses_topics_def\<close>)
  with 1 have 2: "net_reach example_deployment (?s1(1 \<mapsto> ?i))" by (rule net_more)
  have "net_step example_deployment (?s1(1 \<mapsto> ?i)) (?s1(1 \<mapsto> ?i, 1 \<mapsto> (example_registered, 0)))"
    unfolding example_registered_def
    by (rule net_step.callback_registered [OF _ prod.collapse [symmetric]]) simp
  with 2 have "net_reach example_deployment (?s1(1 \<mapsto> ?i, 1 \<mapsto> (example_registered, 0)))"
    by (rule net_more)
  then show ?thesis by simp
qed

lemma example_idle: "\<not> m_running example_upstream" "\<not> m_running example_registered"
  using newIceFlow_state [OF example_upstream_new] newIceFlow_state [OF example_iceflow_new]
    operations_running(3) [of "Plain 0" "''t2l''" example_iceflow] by (auto simp: example_registered_def)

lemma example_started:
  "net_reach example_deployment
     [0 \<mapsto> (example_upstream\<lparr>m_running := True\<rparr>, 0), 1 \<mapsto> (example_registered\<lparr>m_running := True\<rparr>, 0)]"
proof -
  let ?s = "[0 \<mapsto> (example_upstream, 0), 1 \<mapsto> (example_registered, 0)] :: (ref_svs, jval, nat, nat) network"
  let ?f = "example_upstream\<lparr>m_running := True\<rparr>" and ?g = "example_registered\<lparr>m_running := True\<rparr>"
  have "net_step example_deployment ?s (?s(0 \<mapsto> (?f, 0)))"
    by (rule net_step.started) (use example_idle in simp_all)
  moreover have "net_step example_deployment (?s(0 \<mapsto> (?f, 0))) (?s(0 \<mapsto> (?f, 0), 1 \<mapsto> (?g, 0)))"
    by (rule net_step.started) (use example_idle in simp_all)
  moreover have "?s(0 \<mapsto> (?f, 0), 1 \<mapsto> (?g, 0)) = [0 \<mapsto> (?f, 0), 1 \<mapsto> (?g, 0)]" by (simp add: fun_eq_iff)
  ultimately show ?thesis using net_more [OF net_more [OF example_joined]] by metis
qed

lemma example_counts: "map_of (partition_counts example_upstream) ''t2l'' = Some 3"
proof -
  have node: "findNodeByName example_dag ''text2lines'' = Inr example_node"
    by (simp add: example_dag_def findNodeByName_def example_node_def)
  obtain p where p: "map_of (m_iceflowProducers example_upstream) ''t2l'' = Some p"
    using example_upstream_state(1) by (metis domD dom_map_of_conv_image_fst list.set_map singletonI)
  then have "m_numberOfPartitions p = 3"
    using newIceFlow_state [OF example_upstream_new] node map_of_SomeD [OF p]
    by (fastforce simp: producer_for_def example_node_def)
  with p show ?thesis by (simp add: partition_counts_lookup)
qed

lemma below_three: "q = 0 \<or> q = 1 \<or> q = 2" if "q < 3" for q :: u32
proof -
  have "unat q < 3" using that by (simp add: word_less_nat_alt)
  then have "unat q = 0 \<or> unat q = 1 \<or> unat q = 2" by arith
  then show ?thesis by (auto simp: word_unat_eq_iff)
qed

text \<open>
  After the second node has subscribed to all partitions and the first has pushed a unit, the
  unit can be delivered; after the delivery, its acknowledgement can be.
\<close>

lemma example_unstarted:
  obtains s f g c m who seq where "net_reach example_deployment s"
    and "s 0 = Some (f, 0)" and "s 1 = Some (g, 0)"
    and "(m, [42], Some who, seq) \<in> set (rs_pubs (m_svsPubSub f))"
    and "(m, Consumer_callback ''t2l'') \<in> ran (ref_subs (m_svsPubSub g))"
    and "map_of (m_iceflowConsumers g) ''t2l'' = Some c" and "m_consumerCallback c = Some (Plain 0)"
    and "m_subTopic c = ''/app/t2l''"
    and "ref_subs (m_svsPubSub f) = ref_subs (m_svsPubSub example_upstream)"
    and "dom s = {0, 1}" and "node_frame example_upstream f" and "node_frame example_registered g"
    and "length (rs_pubs (m_svsPubSub f)) = 1" and "\<not> m_running f" and "\<not> m_running g"
proof -
  let ?s = "[0 \<mapsto> (example_upstream, 0), 1 \<mapsto> (example_registered, 0)]
    :: (ref_svs, jval, nat, nat) network"
  note joined = example_joined
  let ?c = "(storedConsumer ''/app'' ''t2l'' None 0)\<lparr>m_consumerCallback := Some (Plain 0)\<rparr> :: nat ConsumerCallback IceflowConsumer"
  have cons: "map_of (m_iceflowConsumers example_registered) ''t2l'' = Some ?c"
    by (simp add: example_registered_sels)
  have live: "node_live ref_ndn ref_subs example_registered"
    by (rule node_live_fresh) (simp add: example_registered_sels newConsumer_def)
  have inv: "ref_inv (m_svsPubSub example_registered)"
    by (simp add: example_registered_sels example_iceflow_svs)
  have room: "rs_count (m_svsPubSub example_registered) + length [0, 1, 2 :: u32] < 2 ^ 32"
    by (simp add: example_registered_sels example_iceflow_svs)
  obtain g c where g: "repartitionConsumer ref_ndn [0, 1, 2] ''t2l'' example_registered = (Inr (), g)"
    "map_of (m_iceflowConsumers g) = (map_of (m_iceflowConsumers example_registered))(''t2l'' \<mapsto> c)"
    "map (ref_subs (m_svsPubSub g)) (m_subscriptionHandles c) =
      map (\<lambda>p. Some (partition_sub ref_ndn ''t2l'' ?c p)) [0, 1, 2]"
    "c = ?c\<lparr>m_subscriptionHandles := m_subscriptionHandles c\<rparr>"
    using repartitionConsumer_keeps_live [OF ref_svs.svs_axioms inv room live cons] by blast
  have step2: "net_reach example_deployment (?s(1 \<mapsto> (g, 0)))"
    by (rule net_more [OF joined], rule net_step.consumer_repartitioned)
      (use g(1) room in simp_all)
  obtain f x where f: "pushData ref_ndn [42] ''t2l'' example_upstream = (Inr (), f)"
    "node_evolves ref_inv ref_subs rs_pubs example_upstream f"
    "rs_pubs (m_svsPubSub f) = rs_pubs (m_svsPubSub example_upstream) @ [x]"
    "published_by ref_ndn (map_of (m_iceflowProducers example_upstream)) (''t2l'', [42], ()) x"
    using pushData_known [OF ref_svs.svs_axioms example_upstream_state(3), of "''t2l''" "[42]" "()"]
      example_upstream_state(1) by blast
  have step3: "net_reach example_deployment (?s(1 \<mapsto> (g, 0), 0 \<mapsto> (f, 0)))"
    by (rule net_more [OF step2], rule net_step.pushed) (use f(1) in simp_all)
  obtain m d who seq where x: "x = (m, d, who, seq)" by (rule prod_cases4)
  have "data_publication ref_ndn example_upstream ''t2l'' x"
    using published_data [OF reach_wf [OF node_reach.created [OF example_upstream_new]] f(4)] by simp
  then obtain q where q: "q < 3" "m = topicName ref_ndn ''/app'' ''t2l'' q" "who \<noteq> None" "d = [42]"
    using f(4) by (auto simp: x data_publication_def example_counts example_upstream_state published_by_def)
  have "(m, Consumer_callback ''t2l'') = partition_sub ref_ndn ''t2l'' ?c q"
    by (simp add: q(2) partition_sub_def consumer_prepareDataName_def topicName_def newConsumer_def)
  moreover have "q \<in> set [0, 1, 2]" using below_three [OF q(1)] by simp
  ultimately have "Some (m, Consumer_callback ''t2l'') \<in> set (map (ref_subs (m_svsPubSub g)) (m_subscriptionHandles c))"
    unfolding g(3) set_map by blast
  then have sub: "(m, Consumer_callback ''t2l'') \<in> ran (ref_subs (m_svsPubSub g))"
    by (auto intro: ranI simp: image_iff eq_commute)
  have cb: "m_consumerCallback c = Some (Plain 0)" "m_subTopic c = ''/app/t2l''"
    using arg_cong [OF g(4), of m_consumerCallback] arg_cong [OF g(4), of m_subTopic]
    by (simp_all add: newConsumer_def)
  have frames: "node_frame example_upstream f" "node_frame example_registered g"
    using pushData_node_frame [of example_upstream ref_ndn "[42]" "''t2l''"]
      repartitionConsumer_frame [of example_registered ref_ndn "[0, 1, 2]" "''t2l''"] f(1) g(1) by simp_all
  let ?t = "?s(1 \<mapsto> (g, 0), 0 \<mapsto> (f, 0))"
  have idle: "\<not> m_running f" "\<not> m_running g"
    using pushData_frame(2) [of ref_ndn "[42]" "''t2l''" example_upstream] f(1)
      operations_running(1) [of ref_ndn "[0, 1, 2]" "''t2l''" example_registered] g(1) example_idle by simp_all
  have dom: "dom ?t = {0, 1}" by auto
  have one: "length (rs_pubs (m_svsPubSub f)) = 1" using f(3) example_upstream_state(4) by simp
  obtain w where "who = Some w" using q(3) by blast
  then have pub: "(m, [42], Some w, seq) \<in> set (rs_pubs (m_svsPubSub f))" using f(3) x q(4) by simp
  have subs: "ref_subs (m_svsPubSub f) = ref_subs (m_svsPubSub example_upstream)" using f(2) by (simp add: node_evolves_def)
  have c: "map_of (m_iceflowConsumers g) ''t2l'' = Some c" using g(2) by simp
  show thesis
    by (rule that [OF step3, of f g m w seq c]) (use pub sub subs c cb frames dom one idle in simp_all)
qed

lemma example_pushed:
  obtains s f g c m who seq where "net_reach example_deployment s"
    and "s 0 = Some (f, 0)" and "s 1 = Some (g, 0)"
    and "(m, [42], Some who, seq) \<in> set (rs_pubs (m_svsPubSub f))"
    and "(m, Consumer_callback ''t2l'') \<in> ran (ref_subs (m_svsPubSub g))"
    and "map_of (m_iceflowConsumers g) ''t2l'' = Some c" and "m_consumerCallback c = Some (Plain 0)"
    and "m_subTopic c = ''/app/t2l''"
    and "ref_subs (m_svsPubSub f) = ref_subs (m_svsPubSub example_upstream)"
    and "dom s = {0, 1}" and "node_frame example_upstream f" and "node_frame example_registered g"
    and "length (rs_pubs (m_svsPubSub f)) = 1" and "m_running f" and "m_running g"
proof (rule example_unstarted)
  fix s f g c m who seq
  assume at: "net_reach example_deployment s" "s 0 = Some (f, 0)" "s 1 = Some (g, 0)"
    and pub: "(m, [42], Some who, seq) \<in> set (rs_pubs (m_svsPubSub f))"
      "(m, Consumer_callback ''t2l'') \<in> ran (ref_subs (m_svsPubSub g))"
    and c: "map_of (m_iceflowConsumers g) ''t2l'' = Some c" "m_consumerCallback c = Some (Plain 0)"
      "m_subTopic c = ''/app/t2l''"
    and rest: "ref_subs (m_svsPubSub f) = ref_subs (m_svsPubSub example_upstream)"
      "dom s = {0, 1}" "node_frame example_upstream f" "node_frame example_registered g"
      "length (rs_pubs (m_svsPubSub f)) = 1" and idle: "\<not> m_running f" "\<not> m_running g"
  let ?f = "f\<lparr>m_running := True\<rparr>" and ?g = "g\<lparr>m_running := True\<rparr>"
  have "net_step example_deployment s (s(0 \<mapsto> (?f, 0)))" by (rule net_step.started) (use at(2) idle in simp_all)
  with at(1) have "net_reach example_deployment (s(0 \<mapsto> (?f, 0)))" by (rule net_more)
  moreover have "net_step example_deployment (s(0 \<mapsto> (?f, 0))) (s(0 \<mapsto> (?f, 0), 1 \<mapsto> (?g, 0)))"
    by (rule net_step.started) (use at(3) idle in simp_all)
  ultimately have step: "net_reach example_deployment (s(0 \<mapsto> (?f, 0), 1 \<mapsto> (?g, 0)))" by (rule net_more)
  have dom: "dom (s(0 \<mapsto> (?f, 0), 1 \<mapsto> (?g, 0))) = {0, 1}" using rest(2) by auto
  show thesis
    by (rule that [OF step, of ?f ?g m who seq c]) (use pub c rest dom in simp_all)
qed

lemma example_acknowledged:
  obtains s f g seq k where "net_reach example_deployment s"
    and "s 0 = Some (f, 0)" and "s 1 = Some (g, 0)"
    and "(backchannelName ref_ndn ''/app/t2l'', ackPayload ref_json seq, None, k) \<in> set (rs_pubs (m_svsPubSub g))"
    and "(backchannelName ref_ndn ''/app/t2l'',
      Backchannel_handler (m_nodePrefix example_upstream) ''/app'') \<in> ran (ref_subs (m_svsPubSub f))"
proof (rule example_pushed)
  fix s f g c m who seq
  assume run: "net_reach example_deployment s" "s 0 = Some (f, 0)" "s 1 = Some (g, 0)"
    "(m, [42], Some who, seq) \<in> set (rs_pubs (m_svsPubSub f))"
    "(m, Consumer_callback ''t2l'') \<in> ran (ref_subs (m_svsPubSub g))"
    "map_of (m_iceflowConsumers g) ''t2l'' = Some c" "m_consumerCallback c = Some (Plain 0)"
    "m_subTopic c = ''/app/t2l''"
    "ref_subs (m_svsPubSub f) = ref_subs (m_svsPubSub example_upstream)" "m_running f" "m_running g"
  let ?d = "\<lparr>sub_name = m, sub_data = [42], sub_seqNo = seq\<rparr>"
  have call: "invokeCallback ref_ndn example_app (Plain 0) (sub_data ?d) (g, 0) = (Inr (), g, 0)"
    by (simp add: example_app_def)
  have "ref_inv (m_svsPubSub g)"
    using example_net.network_process(2) [OF example_net.reach_ok [OF run(1)] run(3)] .
  from ack_published [OF ref_svs.svs_axioms this run(6), where n = "backchannelName ref_ndn (m_subTopic c)"
      and ack = "ackPayload ref_json seq" and now = 0]
  obtain g1 k where g1: "handleEvent ref_ndn ref_json example_app (Arrived (Consumer_callback ''t2l'') ?d 0) (g, 0) =
      (Inr (), g1, 0)"
    "rs_pubs (m_svsPubSub g1) = rs_pubs (m_svsPubSub g) @
      [(backchannelName ref_ndn ''/app/t2l'', ackPayload ref_json seq, None, k)]"
    using onConsumerData_returned [OF run(6,7) call, of ref_json 0] run(8) by auto
  have "net_reach example_deployment (s(1 \<mapsto> (g1, 0)))"
    by (rule net_more [OF run(1)], rule net_step.delivered [where n = m and d = "[42]" and who = "Some who"
          and seq = seq and m = m and cb = "Consumer_callback ''t2l''" and now = 0 and r = "Inr ()", OF run(3,2)])
      (use run g1 in simp_all)
  moreover have "(backchannelName ref_ndn ''/app/t2l'',
      Backchannel_handler (m_nodePrefix example_upstream) ''/app'') \<in> ran (ref_subs (m_svsPubSub f))"
    using newIceFlow_svs [OF ref_svs.svs_axioms _ _ example_upstream_new] run(9) example_upstream_state(2)
    by (simp add: example_dag_def findNodeByName_def example_node_def)
  ultimately show thesis
    using run(2) g1(2) by (intro that [of "s(1 \<mapsto> (g1, 0))" f g1 seq k]) simp_all
qed

section \<open>Properties\<close>

text \<open>
  C12: consumers only see units of their edge. In every reachable state of a deployment, a
  publication delivered to a consumer's subscription for an edge is a unit that the sender's
  producer of that edge published: the sender belongs to the same application, it has a producer
  for the edge, the partition is below the producer's number of partitions and the one that was
  subscribed, and the publication is under the sender's node prefix.
\<close>

theorem delivery_integrity:
  assumes "deployed D invar store of_str of_obj of_arr" and "net_reach D s"
    and "s i = Some (f, a)" and "s j = Some (g, b)"
    and "(n, d, who, seq) \<in> set (d_pubs D (m_svsPubSub g))"
    and "(m, Consumer_callback e) \<in> ran (d_subs D (m_svsPubSub f))" and "d_matches D m n"
  shows "m_syncPrefix g = m_syncPrefix f \<and> e \<in> set (consumer_edges f) \<and>
    (\<exists>p q. map_of (m_iceflowProducers g) e = Some p \<and> q < m_numberOfPartitions p \<and>
       n = producer_prepareDataName (d_svs D) p q \<and> m = n \<and>
       who = Some (name_of (d_svs D) (m_nodePrefix g)))"
proof -
  note ok = deployed.reach_ok [OF assms(1,2)]
  have "d_matches D m (fst (n, d, who, seq))" using assms(7) by simp
  from deployed.delivered_unit [OF assms(1) ok assms(3-6) this]
  have unit: "m_syncPrefix g = m_syncPrefix f" "e \<in> set (consumer_edges f)" "n = m"
    "data_publication (d_svs D) g e (n, d, who, seq)"
    unfolding fst_conv by blast+
  then obtain p q where p: "map_of (m_iceflowProducers g) e = Some p" "q < m_numberOfPartitions p"
    "n = topicName (d_svs D) (m_syncPrefix g) e q" "who = Some (name_of (d_svs D) (m_nodePrefix g))"
    by (auto simp: data_publication_def partition_counts_lookup)
  have "node_wf (d_svs D) g"
    using deployed.network_process(3) [OF assms(1) ok assms(4)] .
  from producer_of_edge(4) [OF this p(1)] unit p show ?thesis by auto
qed

theorem delivery_integrity_witness:
  "\<exists>s f g b m who seq p q. net_reach example_deployment s \<and> s 1 = Some (f, 0) \<and> s 0 = Some (g, b) \<and>
     (m, [42], who, seq) \<in> set (rs_pubs (m_svsPubSub g)) \<and>
     map_of (m_iceflowProducers g) ''t2l'' = Some p \<and> q < m_numberOfPartitions p \<and>
     m = producer_prepareDataName ref_ndn p q \<and> who = Some (ref_name_of (m_nodePrefix g))"
proof (rule example_pushed)
  fix s f g c m who seq
  assume run: "net_reach example_deployment s" "s 0 = Some (f, 0)" "s 1 = Some (g, 0)"
    "(m, [42], Some who, seq) \<in> set (rs_pubs (m_svsPubSub f))"
    "(m, Consumer_callback ''t2l'') \<in> ran (ref_subs (m_svsPubSub g))"
  then have "(m, [42], Some who, seq) \<in> set (d_pubs example_deployment (m_svsPubSub f))"
    "(m, Consumer_callback ''t2l'') \<in> ran (d_subs example_deployment (m_svsPubSub g))"
    "d_matches example_deployment m m" by simp_all
  from delivery_integrity [OF example_net.deployed_axioms run(1,3,2) this]
  obtain p q where "map_of (m_iceflowProducers f) ''t2l'' = Some p" "q < m_numberOfPartitions p"
    "m = producer_prepareDataName ref_ndn p q" "Some who = Some (ref_name_of (m_nodePrefix f))"
    unfolding example_deployment_sels ref_ndn_sels by blast
  with run show ?thesis by blast
qed

text \<open>
  No acknowledgement without a unit. In every reachable state of a deployment, everything a
  process published without a node prefix is the acknowledgement, on the back channel of one of
  its upstream edges, of a sequence number that a process of the same application with a producer
  for that edge has published a unit under.
\<close>

theorem acknowledgements_justified:
  assumes "deployed D invar store of_str of_obj of_arr" and "net_reach D s"
    and "s i = Some (f, a)" and "(n, d, None, seq) \<in> set (d_pubs D (m_svsPubSub f))"
  shows "\<exists>e q j g b n' d'. e \<in> set (consumer_edges f) \<and>
    n = backchannelName (d_svs D) (m_syncPrefix f @ ''/'' @ e) \<and> d = ackPayload (d_json D) q \<and>
    s j = Some (g, b) \<and> m_syncPrefix g = m_syncPrefix f \<and> e \<in> set (producer_edges g) \<and>
    (n', d', Some (name_of (d_svs D) (m_nodePrefix g)), q) \<in> set (d_pubs D (m_svsPubSub g))"
proof -
  have "justified D s f (n, d, None, seq)"
    using deployed.reach_ok [OF assms(1,2)] assms(3,4) unfolding network_ok_def by blast
  then obtain e q where ack: "ack_publication (d_svs D) (d_json D) f e q (n, d, None, seq)"
    and "unit_published D s (m_syncPrefix f) e q"
    by (auto simp: justified_def data_publication_def)
  from this(2) obtain j g b x where x: "s j = Some (g, b)" "m_syncPrefix g = m_syncPrefix f"
    "x \<in> set (d_pubs D (m_svsPubSub g))" "data_publication (d_svs D) g e x" "snd (snd (snd x)) = q"
    unfolding unit_published_def by blast
  obtain n' d' who seq' where "x = (n', d', who, seq')" by (rule prod_cases4)
  with x have "(n', d', Some (name_of (d_svs D) (m_nodePrefix g)), q) \<in> set (d_pubs D (m_svsPubSub g))"
    by (auto simp: data_publication_def)
  with x ack data_publication_edge [OF x(4)] show ?thesis
    unfolding ack_publication_def by blast
qed

theorem acknowledgements_justified_witness:
  "\<exists>s f e q j g b n' d'. net_reach example_deployment s \<and> s 1 = Some (f, 0) \<and>
     e \<in> set (consumer_edges f) \<and> s j = Some (g, b) \<and> e \<in> set (producer_edges g) \<and>
     (n', d', Some (ref_name_of (m_nodePrefix g)), q) \<in> set (rs_pubs (m_svsPubSub g))"
proof (rule example_acknowledged)
  fix s f g seq k
  assume run: "net_reach example_deployment s" "s 1 = Some (g, 0)"
    "(backchannelName ref_ndn ''/app/t2l'', ackPayload ref_json seq, None, k) \<in> set (rs_pubs (m_svsPubSub g))"
  then have "(backchannelName ref_ndn ''/app/t2l'', ackPayload ref_json seq, None, k)
      \<in> set (d_pubs example_deployment (m_svsPubSub g))" by simp
  from acknowledgements_justified [OF example_net.deployed_axioms run(1,2) this] run
  show ?thesis unfolding example_deployment_sels ref_ndn_sels by blast
qed

text \<open>
  C13: the back channel works between nodes. In every reachable state of a deployment, whatever is
  delivered to a back channel subscription is handled without an exception: it is an
  acknowledgement, and the only effect is that the node's packet with the acknowledged number
  leaves its store; that number is one a process of the application has published under on one of
  the node's downstream edges.
\<close>

theorem backchannel_between_nodes:
  assumes "deployed D invar store of_str of_obj of_arr" and "net_reach D s"
    and "s i = Some (f, a)" and "s j = Some (g, b)"
    and "(n, d, who, seq) \<in> set (d_pubs D (m_svsPubSub g))"
    and "(m, Backchannel_handler np sp) \<in> ran (d_subs D (m_svsPubSub f))" and "d_matches D m n"
  shows "\<exists>e q f'. e \<in> set (producer_edges f) \<and> unit_published D s (m_syncPrefix f) e q \<and>
    handleEvent (d_svs D) (d_json D) app
      (Arrived (Backchannel_handler np sp) \<lparr>sub_name = n, sub_data = d, sub_seqNo = seq\<rparr> now) (f, a) =
      (Inr (), f', a) \<and>
    store (m_svsPubSub f') =
      store (m_svsPubSub f) - {packetName (d_svs D) (m_nodePrefix f) (m_syncPrefix f) q} \<and>
    d_pubs D (m_svsPubSub f') = d_pubs D (m_svsPubSub f) \<and>
    d_subs D (m_svsPubSub f') = d_subs D (m_svsPubSub f)"
proof -
  note ok = deployed.reach_ok [OF assms(1,2)]
  note laws = assms(1) [unfolded deployed_def]
  obtain e q where self: "np = m_nodePrefix f" "sp = m_syncPrefix f" and e: "e \<in> set (producer_edges f)"
    and ack: "ack_publication (d_svs D) (d_json D) g e q (n, d, who, seq)"
    and pub: "unit_published D s (m_syncPrefix f) e q"
    using deployed.delivered_ack [OF assms(1) ok assms(3-6)] assms(7) by auto
  have "sub_data \<lparr>sub_name = n, sub_data = d, sub_seqNo = seq\<rparr> = ackPayload (d_json D) q"
    using ack by (simp add: ack_publication_def)
  from handleBackchannel_ack [OF laws [THEN conjunct2, THEN conjunct1] laws [THEN conjunct1]
      deployed.network_process(2) [OF assms(1) ok assms(3)] this, of np sp]
  obtain ps' where "handleBackchannel (d_svs D) (d_json D) np sp
      \<lparr>sub_name = n, sub_data = d, sub_seqNo = seq\<rparr> (m_svsPubSub f) = (Inr (), ps')"
    "store ps' = store (m_svsPubSub f) - {packetName (d_svs D) np sp q}"
    "d_subs D ps' = d_subs D (m_svsPubSub f)" "d_pubs D ps' = d_pubs D (m_svsPubSub f)"
    by blast
  with self e pub show ?thesis
    by (intro exI [of _ e] exI [of _ q] exI [of _ "f\<lparr>m_svsPubSub := ps'\<rparr>"] conjI) simp_all
qed

theorem backchannel_between_nodes_witness:
  "\<exists>s f q f' d. net_reach example_deployment s \<and> s 0 = Some (f, 0) \<and>
     handleEvent ref_ndn ref_json example_app (Arrived
       (Backchannel_handler (m_nodePrefix example_upstream) ''/app'') d 0) (f, 0) = (Inr (), f', 0) \<and>
     rs_store (m_svsPubSub f') =
       rs_store (m_svsPubSub f) - {packetName ref_ndn (m_nodePrefix f) (m_syncPrefix f) q}"
proof (rule example_acknowledged)
  fix s f g seq k
  assume run: "net_reach example_deployment s" "s 0 = Some (f, 0)" "s 1 = Some (g, 0)"
    "(backchannelName ref_ndn ''/app/t2l'', ackPayload ref_json seq, None, k) \<in> set (rs_pubs (m_svsPubSub g))"
    "(backchannelName ref_ndn ''/app/t2l'',
      Backchannel_handler (m_nodePrefix example_upstream) ''/app'') \<in> ran (ref_subs (m_svsPubSub f))"
  then have "(backchannelName ref_ndn ''/app/t2l'', ackPayload ref_json seq, None, k)
      \<in> set (d_pubs example_deployment (m_svsPubSub g))"
    "(backchannelName ref_ndn ''/app/t2l'',
      Backchannel_handler (m_nodePrefix example_upstream) ''/app'') \<in> ran (d_subs example_deployment (m_svsPubSub f))"
    "d_matches example_deployment (backchannelName ref_ndn ''/app/t2l'') (backchannelName ref_ndn ''/app/t2l'')"
    by simp_all
  from backchannel_between_nodes [OF example_net.deployed_axioms run(1-3) this, of example_app 0] run(1,2)
  show ?thesis unfolding example_deployment_sels by blast
qed

text \<open>
  The life of a unit. Take a node with a producer for an edge and a node of the same
  application with a consumer for it and a plain callback that returns. The push makes one
  publication; its delivery runs the callback on the pushed payload and publishes one
  acknowledgement, of the publication's number; the delivery of the acknowledgement removes the
  unit's packet from the store of the first node and changes nothing else there.
\<close>

theorem unit_lifecycle:
  assumes "json_api J of_str of_obj of_arr" and "svs S invar used subs pubs store"
    and "node_reach S J app f" and "invar (m_svsPubSub f)" and "e \<in> set (producer_edges f)"
    and "node_reach S J app' g" and "invar (m_svsPubSub g)" and "m_syncPrefix g = m_syncPrefix f"
    and "map_of (m_iceflowConsumers g) e = Some c" and "m_consumerCallback c = Some (Plain u)"
    and "run_plain app' u payload a = (Inr (), a')"
  shows "\<exists>f1 n seq g1 k f2. pushData S payload e f = (Inr (), f1) \<and>
    pubs (m_svsPubSub f1) =
      pubs (m_svsPubSub f) @ [(n, payload, Some (name_of S (m_nodePrefix f)), seq)] \<and>
    handleEvent S J app'
      (Arrived (Consumer_callback e) \<lparr>sub_name = n, sub_data = payload, sub_seqNo = seq\<rparr> now) (g, a) =
      (Inr (), g1, a') \<and>
    pubs (m_svsPubSub g1) = pubs (m_svsPubSub g) @
      [(backchannelName S (m_syncPrefix f @ ''/'' @ e), ackPayload J seq, None, k)] \<and>
    handleEvent S J app (Arrived (Backchannel_handler (m_nodePrefix f) (m_syncPrefix f))
      \<lparr>sub_name = backchannelName S (m_syncPrefix f @ ''/'' @ e), sub_data = ackPayload J seq,
       sub_seqNo = k\<rparr> now') (f1, b) = (Inr (), f2, b) \<and>
    store (m_svsPubSub f2) =
      store (m_svsPubSub f1) - {packetName S (m_nodePrefix f) (m_syncPrefix f) seq} \<and>
    pubs (m_svsPubSub f2) = pubs (m_svsPubSub f1) \<and> subs (m_svsPubSub f2) = subs (m_svsPubSub f)"
proof -
  obtain f1 x where f1: "pushData S payload e f = (Inr (), f1)" "node_evolves invar subs pubs f f1"
    "pubs (m_svsPubSub f1) = pubs (m_svsPubSub f) @ [x]"
    "published_by S (map_of (m_iceflowProducers f)) (e, payload, ()) x"
    using pushData_known [OF assms(2,4,5), of payload "()"] by blast
  obtain n d who seq where x: "x = (n, d, who, seq)" by (rule prod_cases4)
  have "data_publication S f e x"
    using published_data [OF reach_wf [OF assms(3)] f1(4)] by simp
  with f1(4) x have x: "x = (n, payload, Some (name_of S (m_nodePrefix f)), seq)"
    by (auto simp: data_publication_def published_by_def)
  have topic: "m_subTopic c = m_syncPrefix f @ ''/'' @ e"
    using reach_wf [OF assms(6)] map_of_SomeD [OF assms(9)] assms(8) by (auto simp: node_wf_def)
  let ?d = "\<lparr>sub_name = n, sub_data = payload, sub_seqNo = seq\<rparr>"
  have call: "invokeCallback S app' (Plain u) (sub_data ?d) (g, a) = (Inr (), g, a')"
    using assms(11) by simp
  obtain g1 k where g1: "handleEvent S J app' (Arrived (Consumer_callback e) ?d now) (g, a) = (Inr (), g1, a')"
    "pubs (m_svsPubSub g1) = pubs (m_svsPubSub g) @
      [(backchannelName S (m_syncPrefix f @ ''/'' @ e), ackPayload J seq, None, k)]"
    using onConsumerData_returned [OF assms(9,10) call, of J now]
      ack_published [OF assms(2,7,9), where n = "backchannelName S (m_subTopic c)" and
        ack = "ackPayload J seq" and now = now]
    by (auto simp: topic)
  let ?a = "\<lparr>sub_name = backchannelName S (m_syncPrefix f @ ''/'' @ e), sub_data = ackPayload J seq,
       sub_seqNo = k\<rparr>"
  have "sub_data ?a = ackPayload J seq" by simp
  from handleBackchannel_ack [OF assms(1,2) evolves_invar [OF f1(2)] this]
  obtain ps' where "handleBackchannel S J (m_nodePrefix f) (m_syncPrefix f) ?a (m_svsPubSub f1) = (Inr (), ps')"
    "store ps' = store (m_svsPubSub f1) - {packetName S (m_nodePrefix f) (m_syncPrefix f) seq}"
    "subs ps' = subs (m_svsPubSub f1)" "pubs ps' = pubs (m_svsPubSub f1)"
    by blast
  with f1 x g1 show ?thesis
    by (intro exI [of _ f1] exI [of _ n] exI [of _ seq] exI [of _ g1] exI [of _ k]
        exI [of _ "f1\<lparr>m_svsPubSub := ps'\<rparr>"] conjI) (simp_all add: node_evolves_def)
qed

theorem unit_lifecycle_witness:
  "\<exists>f1 n seq g1 k f2. pushData ref_ndn [42] ''t2l'' example_upstream = (Inr (), f1) \<and>
     handleEvent ref_ndn ref_json example_app (Arrived (Consumer_callback ''t2l'')
       \<lparr>sub_name = n, sub_data = [42], sub_seqNo = seq\<rparr> 0) (example_registered, 0) = (Inr (), g1, 0) \<and>
     handleEvent ref_ndn ref_json example_app
       (Arrived (Backchannel_handler (m_nodePrefix example_upstream) ''/app'')
        \<lparr>sub_name = backchannelName ref_ndn ''/app/t2l'', sub_data = ackPayload ref_json seq,
         sub_seqNo = k\<rparr> 0) (f1, 0) = (Inr (), f2, 0) \<and>
     rs_store (m_svsPubSub f2) = rs_store (m_svsPubSub f1) -
       {packetName ref_ndn (m_nodePrefix example_upstream) ''/app'' seq}"
proof -
  have f: "node_reach ref_ndn ref_json example_app example_upstream"
    by (rule node_reach.created [OF example_upstream_new])
  have g: "node_reach ref_ndn ref_json example_app example_registered"
    unfolding example_registered_def
    by (rule node_reach.callback_registered [OF example_reach prod.collapse [symmetric]])
  have e: "''t2l'' \<in> set (producer_edges example_upstream)" unfolding example_upstream_state by simp
  have inv: "ref_inv (m_svsPubSub example_registered)"
    by (simp add: example_registered_sels example_iceflow_svs)
  have same: "m_syncPrefix example_registered = m_syncPrefix example_upstream"
    using registerConsumerCallback_frame(1) [of example_iceflow "Plain 0" "''t2l''"]
    by (simp add: example_registered_def node_frame_def example_iceflow_sync example_upstream_state)
  have c: "map_of (m_iceflowConsumers example_registered) ''t2l'' =
      Some ((storedConsumer ''/app'' ''t2l'' None 0)\<lparr>m_consumerCallback := Some (Plain 0)\<rparr>)"
    and run: "run_plain example_app 0 [42] 0 = (Inr (), 0)"
    by (simp_all add: example_registered_sels example_app_def)
  from unit_lifecycle [OF ref_json.json_api_axioms ref_svs.svs_axioms f example_upstream_state(3) e g inv
      same c _ run, of 0 0 0]
  show ?thesis unfolding example_upstream_state by fastforce
qed

end
