(* ===== verification/Processes.thy ===== *)
theory Processes
  imports Programs Dag_Schema Network
begin

text \<open>
  What the processes of the word count example do from the command line on: what they publish,
  count, acknowledge and read, how they end, and what the three of them compute together.
\<close>

section \<open>Undisturbed batches\<close>

text \<open>
  Events that interrupt nothing: data for the consumer of the edge, and acknowledgements that can
  be read without an exception the back channel handler does not catch.
\<close>

fun undisturbed :: "'j json_ops \<Rightarrow> string \<Rightarrow> 'n face_event \<Rightarrow> bool" where
  "undisturbed J e (Arrived (Consumer_callback e') d now) \<longleftrightarrow> e' = e"
| "undisturbed J e (Arrived (Backchannel_handler np sp) d now) \<longleftrightarrow>
     (case bindE (j_parse J (sub_data d)) (j_get_u64 J) of Inl x \<Rightarrow> is_std_exception x | Inr _ \<Rightarrow> True)"
| "undisturbed J e Shutdown \<longleftrightarrow> False"
| "undisturbed J e (Face_error x) \<longleftrightarrow> False"

fun units_of :: "'n face_event list \<Rightarrow> 'n SubscriptionData list" where
  "units_of [] = []"
| "units_of (Arrived (Consumer_callback e) d now # evs) = d # units_of evs"
| "units_of (ev # evs) = units_of evs"

abbreviation delivered :: "'n face_event list list \<Rightarrow> byte list list" where
  "delivered batches \<equiv> map sub_data (units_of (concat batches))"

lemma units_of_append [simp]: "units_of (xs @ ys) = units_of xs @ units_of ys"
  by (induction xs rule: units_of.induct) simp_all

text \<open>Of the publications of a process, the units and the acknowledgements (without a prefix).\<close>

definition unit_payloads :: "'n publication list \<Rightarrow> byte list list" where
  "unit_payloads ps = map (fst \<circ> snd) (filter (\<lambda>x. fst (snd (snd x)) \<noteq> None) ps)"

definition acknowledgements :: "'n publication list \<Rightarrow> ('n \<times> byte list) list" where
  "acknowledgements ps = map (\<lambda>x. (fst x, fst (snd x))) (filter (\<lambda>x. fst (snd (snd x)) = None) ps)"

lemma publications_append [simp]:
  "unit_payloads (xs @ ys) = unit_payloads xs @ unit_payloads ys"
  "acknowledgements (xs @ ys) = acknowledgements xs @ acknowledgements ys"
  by (simp_all add: unit_payloads_def acknowledgements_def)

lemma publications_single [simp]:
  "unit_payloads [] = []" "acknowledgements [] = []"
  "unit_payloads [(n, d, None, q)] = []" "unit_payloads [(n, d, Some w, q)] = [d]"
  "acknowledgements [(n, d, None, q)] = [(n, d)]" "acknowledgements [(n, d, Some w, q)] = []"
  by (simp_all add: unit_payloads_def acknowledgements_def)

lemma published_units:
  "list_all2 (published_by S P) pushes new \<Longrightarrow>
     unit_payloads new = map (fst \<circ> snd) pushes \<and> acknowledgements new = []"
proof (induction rule: list_all2_induct)
  case (Cons x xs y ys)
  obtain e d z where "x = (e, d, z)" by (rule prod_cases3)
  moreover obtain n d' who q where "y = (n, d', who, q)" by (rule prod_cases4)
  ultimately have "unit_payloads [y] = [fst (snd x)]" "acknowledgements [y] = []"
    using Cons(1) by (auto simp: published_by_def)
  with Cons publications_append [of "[y]" ys] show ?case by simp
qed simp

text \<open>A loop whose events each keep a relation between the events so far and the state.\<close>

lemma processEvents_trace:
  assumes "\<And>log ev w. T log w \<Longrightarrow> P ev \<Longrightarrow> \<exists>w'. handleEvent S J app ev w = (Inr (), w') \<and> T (log @ [ev]) w'"
    and "T log w" and "list_all P evs"
  shows "\<exists>w'. processEvents S J app evs w = (Inr (), w') \<and> T (log @ evs) w'"
  using assms(2,3)
proof (induction evs arbitrary: log w)
  case (Cons ev evs)
  obtain w1 where w1: "handleEvent S J app ev w = (Inr (), w1)" "T (log @ [ev]) w1"
    using assms(1) Cons.prems by fastforce
  from Cons.IH [OF w1(2)] Cons.prems(2) w1(1) show ?case by simp
qed simp

lemma eventLoop_trace:
  assumes "\<And>log ev w. T log w \<Longrightarrow> P ev \<Longrightarrow> \<exists>w'. handleEvent S J app ev w = (Inr (), w') \<and> T (log @ [ev]) w'"
    and "\<And>log w. T log w \<Longrightarrow> m_running (fst w)" and "T log w" and "list_all (list_all P) batches"
  shows "\<exists>w'. eventLoop S J app batches w = (Running, w') \<and> T (log @ concat batches) w'"
  using assms(3,4)
proof (induction batches arbitrary: log w)
  case Nil
  with assms(2) show ?case by simp
next
  case (Cons batch batches)
  have P: "list_all P batch" "list_all (list_all P) batches" using Cons.prems(2) by simp_all
  obtain w1 where w1: "processEvents S J app batch w = (Inr (), w1)" "T (log @ batch) w1"
    using processEvents_trace [of T P S J app, OF assms(1) Cons.prems(1) P(1)] by blast
  with Cons.IH [OF w1(2) P(2)] assms(2) [OF Cons.prems(1)] show ?case by simp
qed

lemma run_trace:
  assumes "\<And>log ev w. T log w \<Longrightarrow> P ev \<Longrightarrow> \<exists>w'. handleEvent S J app ev w = (Inr (), w') \<and> T (log @ [ev]) w'"
    and "\<And>log w. T log w \<Longrightarrow> m_running (fst w)" and "list_all (list_all P) batches"
    and "\<not> m_running f" and "T [] (f\<lparr>m_running := True\<rparr>, a)"
  shows "\<exists>w'. runNode S J app batches f a = Executing w' \<and> T (concat batches) w'"
proof -
  have "\<exists>w'. eventLoop S J app batches (f\<lparr>m_running := True\<rparr>, a) = (Running, w') \<and> T ([] @ concat batches) w'"
    by (rule eventLoop_trace [where T = T and P = P]) (fact assms)+
  then obtain w' where "eventLoop S J app batches (f\<lparr>m_running := True\<rparr>, a) = (Running, w')"
    and "T (concat batches) w'" by auto
  with assms(4) show ?thesis by (intro exI [of _ w']) (simp add: runNode_def Event_Loop.run_def)
qed

lemma undisturbed_acknowledgement:
  assumes "svs S invar used subs pubs store" and "invar (m_svsPubSub f)"
    and "undisturbed J e (Arrived (Backchannel_handler np sp) d now)"
  shows "\<exists>ps. handleEvent S J app (Arrived (Backchannel_handler np sp) d now) (f, a) =
      (Inr (), f\<lparr>m_svsPubSub := ps\<rparr>, a) \<and>
    invar ps \<and> pubs ps = pubs (m_svsPubSub f) \<and> subs ps = subs (m_svsPubSub f)"
proof -
  let ?r = "handleBackchannel S J np sp d (m_svsPubSub f)"
  have "fst ?r = Inr ()" and "invar (snd ?r)" and "pubs (snd ?r) = pubs (m_svsPubSub f)"
    and "subs (snd ?r) = subs (m_svsPubSub f)"
    using assms(2,3) svs.erase_simps [OF assms(1)]
    by (auto simp: handleBackchannel_def Let_def bindE_def split: sum.splits)
  then show ?thesis by (intro exI [of _ "snd ?r"]) (simp add: split_beta)
qed

section \<open>A node with one consumer callback\<close>

text \<open>
  A node whose callback always returns, publishes the units \<open>out d\<close> for a payload \<open>d\<close> and moves
  its state by \<open>step d\<close>: what has happened after the events of a log.
\<close>

definition consumer_trace ::
    "('ps, 'n) ndn_ops \<Rightarrow> 'j json_ops \<Rightarrow> ('ps \<Rightarrow> bool) \<Rightarrow> ('ps \<Rightarrow> u32 \<rightharpoonup> 'n \<times> callback)
       \<Rightarrow> ('ps \<Rightarrow> 'n publication list) \<Rightarrow> 'u ConsumerCallback \<Rightarrow> string \<Rightarrow> (byte list \<Rightarrow> byte list list)
       \<Rightarrow> (byte list \<Rightarrow> 'a \<Rightarrow> 'a) \<Rightarrow> ('ps, 'j, 'u) IceFlow \<Rightarrow> 'a \<Rightarrow> 'n face_event list
       \<Rightarrow> ('ps, 'j, 'u) IceFlow \<times> 'a \<Rightarrow> bool" where
  "consumer_trace S J invar subs pubs cb e out step f s log = (\<lambda>(g, t).
     node_evolves invar subs pubs f g \<and> m_running g \<and>
     (\<exists>c. map_of (m_iceflowConsumers g) e = Some c \<and> m_consumerCallback c = Some cb \<and>
        m_subTopic c = m_syncPrefix f @ ''/'' @ e) \<and>
     t = foldl (\<lambda>s d. step d s) s (map sub_data (units_of log)) \<and>
     unit_payloads (pubs (m_svsPubSub g)) =
       unit_payloads (pubs (m_svsPubSub f)) @ concat (map out (map sub_data (units_of log))) \<and>
     acknowledgements (pubs (m_svsPubSub g)) = acknowledgements (pubs (m_svsPubSub f)) @
       map (\<lambda>d. (backName S (m_syncPrefix f) e, ackPayload J (sub_seqNo d))) (units_of log))"

text \<open>The call of the application, given a node with the producers of the first one.\<close>

definition returning_call ::
    "('ps, 'n) ndn_ops \<Rightarrow> ('ps \<Rightarrow> bool) \<Rightarrow> ('ps \<Rightarrow> 'n publication list) \<Rightarrow> ('u, 'a) application
       \<Rightarrow> 'u ConsumerCallback \<Rightarrow> (byte list \<Rightarrow> byte list list) \<Rightarrow> (byte list \<Rightarrow> 'a \<Rightarrow> 'a)
       \<Rightarrow> ('ps, 'j, 'u) IceFlow \<Rightarrow> bool" where
  "returning_call S invar pubs app cb out step f \<longleftrightarrow> (\<forall>(g :: ('ps, 'j, 'u) IceFlow) t d.
     invar (m_svsPubSub g) \<longrightarrow> producer_edges g = producer_edges f \<longrightarrow>
     (\<exists>g' new. invokeCallback S app cb d (g, t) = (Inr (), g', step d t) \<and>
        pubs (m_svsPubSub g') = pubs (m_svsPubSub g) @ new \<and> unit_payloads new = out d \<and>
        acknowledgements new = []))"

lemma consumer_trace_data:
  assumes "svs S invar used subs pubs store" and "returning_call S invar pubs app cb out step f"
    and "consumer_trace S J invar subs pubs cb e out step f s log (g, t)"
  shows "\<exists>w'. handleEvent S J app (Arrived (Consumer_callback e) d now) (g, t) = (Inr (), w') \<and>
    consumer_trace S J invar subs pubs cb e out step f s (log @ [Arrived (Consumer_callback e) d now]) w'"
proof -
  have ev: "node_evolves invar subs pubs f g" and running: "m_running g"
    and units: "unit_payloads (pubs (m_svsPubSub g)) =
       unit_payloads (pubs (m_svsPubSub f)) @ concat (map out (map sub_data (units_of log)))"
    and acks: "acknowledgements (pubs (m_svsPubSub g)) = acknowledgements (pubs (m_svsPubSub f)) @
       map (\<lambda>d. (backName S (m_syncPrefix f) e, ackPayload J (sub_seqNo d))) (units_of log)"
    and t: "t = foldl (\<lambda>s d. step d s) s (map sub_data (units_of log))"
    using assms(3) by (simp_all add: consumer_trace_def)
  obtain c where c: "map_of (m_iceflowConsumers g) e = Some c" "m_consumerCallback c = Some cb"
    "m_subTopic c = m_syncPrefix f @ ''/'' @ e"
    using assms(3) by (auto simp: consumer_trace_def)
  have "invar (m_svsPubSub g)" and "producer_edges g = producer_edges f"
    using ev by (simp_all add: node_evolves_def)
  with assms(2) obtain g1 new where
    call: "invokeCallback S app cb (sub_data d) (g, t) = (Inr (), g1, step (sub_data d) t)"
    and new: "pubs (m_svsPubSub g1) = pubs (m_svsPubSub g) @ new" "unit_payloads new = out (sub_data d)"
      "acknowledgements new = []"
    unfolding returning_call_def by blast
  note step1 = invokeCallback_evolves [OF assms(1) \<open>invar (m_svsPubSub g)\<close> call]
  have c1: "map_of (m_iceflowConsumers g1) e = Some c" using c(1) step1(2) by simp
  let ?n = "backchannelName S (m_subTopic c)" and ?p = "ackPayload J (sub_seqNo d)"
  let ?g = "g1\<lparr>m_svsPubSub := snd (svs_publish S (m_svsPubSub g1) ?n ?p None),
    m_iceflowConsumers := adjust e (\<lambda>_. consumer_saveTimestamp now c) (m_iceflowConsumers g1)\<rparr>"
  obtain seq where ack: "node_evolves invar subs pubs g1 ?g"
    "pubs (snd (svs_publish S (m_svsPubSub g1) ?n ?p None)) = pubs (m_svsPubSub g1) @ [(?n, ?p, None, seq)]"
    using ack_published [OF assms(1) evolves_invar [OF step1(1)] c1] by blast
  have "handleEvent S J app (Arrived (Consumer_callback e) d now) (g, t) = (Inr (), ?g, step (sub_data d) t)"
    using onConsumerData_returned [OF c(1,2) call] by simp
  moreover have "node_evolves invar subs pubs f ?g"
    by (rule evolves_trans [OF ev evolves_trans [OF step1(1) ack(1)]])
  ultimately show ?thesis
    using running step1(3) c(2,3) units acks t new ack(2)
    by (intro exI [of _ "(?g, step (sub_data d) t)"] conjI)
      (simp_all add: consumer_trace_def c1 map_of_adjust consumer_saveTimestamp_def)
qed

lemma consumer_trace_step:
  assumes "svs S invar used subs pubs store" and "returning_call S invar pubs app cb out step f"
    and "consumer_trace S J invar subs pubs cb e out step f s log w" and "undisturbed J e ev"
  shows "\<exists>w'. handleEvent S J app ev w = (Inr (), w') \<and>
    consumer_trace S J invar subs pubs cb e out step f s (log @ [ev]) w'"
proof (cases ev)
  case (Arrived b d now)
  obtain g t where w: "w = (g, t)" by (cases w)
  show ?thesis
  proof (cases b)
    case (Consumer_callback e')
    with assms(4) Arrived have ev: "ev = Arrived (Consumer_callback e) d now" by simp
    show ?thesis
      unfolding w ev by (rule consumer_trace_data [OF assms(1,2)]) (use assms(3) w in simp)
  next
    case (Backchannel_handler np sp)
    have T: "consumer_trace S J invar subs pubs cb e out step f s log (g, t)" using assms(3) w by simp
    then have ev: "node_evolves invar subs pubs f g" by (simp add: consumer_trace_def)
    have "undisturbed J e (Arrived (Backchannel_handler np sp) d now)"
      using assms(4) Arrived Backchannel_handler by simp
    then have "\<exists>ps. handleEvent S J app ev w = (Inr (), g\<lparr>m_svsPubSub := ps\<rparr>, t) \<and>
        invar ps \<and> pubs ps = pubs (m_svsPubSub g) \<and> subs ps = subs (m_svsPubSub g)"
      unfolding w Arrived Backchannel_handler
      by (rule undisturbed_acknowledgement [OF assms(1) evolves_invar [OF ev]])
    then obtain ps where
      ps: "handleEvent S J app ev w = (Inr (), g\<lparr>m_svsPubSub := ps\<rparr>, t)"
      "invar ps" "pubs ps = pubs (m_svsPubSub g)" "subs ps = subs (m_svsPubSub g)"
      by (elim exE conjE)
    have "units_of (log @ [ev]) = units_of log" by (simp add: Arrived Backchannel_handler)
    moreover have "node_evolves invar subs pubs f (g\<lparr>m_svsPubSub := ps\<rparr>)"
      using ev ps(2-4) by (simp add: node_evolves_def)
    ultimately have "consumer_trace S J invar subs pubs cb e out step f s (log @ [ev]) (g\<lparr>m_svsPubSub := ps\<rparr>, t)"
      using T ps(3) by (simp add: consumer_trace_def)
    with ps(1) show ?thesis by blast
  qed
qed (use assms(4) in simp_all)

lemma consumer_process:
  assumes "svs S invar used subs pubs store" and "returning_call S invar pubs app cb out step f"
    and "subscribed_node S invar subs pubs cb e reads f0 f" and "\<not> m_running f"
    and "list_all (list_all (undisturbed J e)) batches"
  shows "\<exists>w. runNode S J app batches f s = Executing w \<and>
    consumer_trace S J invar subs pubs cb e out step f s (concat batches) w"
proof (rule run_trace [where P = "undisturbed J e"])
  obtain c where c: "map_of (m_iceflowConsumers f) e = Some c" "m_consumerCallback c = Some cb"
    and wf: "node_wf S f" and inv: "invar (m_svsPubSub f)"
    using assms(3) by (auto simp: subscribed_node_def)
  have "m_subTopic c = m_syncPrefix f @ ''/'' @ e"
    using wf map_of_SomeD [OF c(1)] by (auto simp: node_wf_def)
  with c inv show "consumer_trace S J invar subs pubs cb e out step f s [] (f\<lparr>m_running := True\<rparr>, s)"
    by (simp add: consumer_trace_def node_evolves_def)
next
  fix log w and ev :: "'b face_event"
  assume "consumer_trace S J invar subs pubs cb e out step f s log w" and "undisturbed J e ev"
  then show "\<exists>w'. handleEvent S J app ev w = (Inr (), w') \<and>
      consumer_trace S J invar subs pubs cb e out step f s (log @ [ev]) w'"
    by (rule consumer_trace_step [OF assms(1,2)])
next
  fix log w
  assume "consumer_trace S J invar subs pubs cb e out step f s log w"
  then show "m_running (fst w)" by (cases w) (simp add: consumer_trace_def)
qed (fact assms)+

section \<open>The callbacks of the programs\<close>

abbreviation words_out :: "byte list \<Rightarrow> byte list list" where
  "words_out d \<equiv> map bytes_of_string (words (string_of_bytes d))"

lemma pushes_to_producer:
  assumes "map (\<lambda>(e, d, _). (e, d)) pushes = map (\<lambda>x. (down, out x)) xs"
    and "down \<in> set (producer_edges f)"
  shows "list_all (has_producer f) pushes"
  using assms(1)
proof (induction pushes arbitrary: xs)
  case (Cons push pushes)
  then show ?case using assms(2) by (cases xs) (auto simp: has_producer_def split_beta)
qed simp

lemma lines2words_call:
  assumes "svs S invar used subs pubs store" and "down \<in> set (producer_edges f)"
  shows "returning_call S invar pubs (lines2words_app clock down) (Prosumer ()) words_out
    (\<lambda>d s. snd (snd (lines2words clock down (string_of_bytes d) s))) f"
  unfolding returning_call_def
proof (intro allI impI)
  fix g :: "('a, 'd, unit) IceFlow" and t d
  assume inv: "invar (m_svsPubSub g)" and edges: "producer_edges g = producer_edges f"
  obtain pushes r t' where run: "lines2words clock down (string_of_bytes d) t = (pushes, r, t')"
    by (rule prod_cases3)
  then have r: "r = Inr ()" by (auto simp: lines2words_def split: prod.splits)
  have data: "map (\<lambda>(e, d, _). (e, d)) pushes = map (\<lambda>w. (down, bytes_of_string w)) (words (string_of_bytes d))"
    using lines2words_pushes [of clock down "string_of_bytes d" t] run by (simp add: push_data_def)
  from arg_cong [OF data, of "map snd"] have out: "map (fst \<circ> snd) pushes = words_out d"
    by (simp add: comp_def split_beta)
  have "list_all (has_producer g) pushes"
    by (rule pushes_to_producer [OF data]) (use assms(2) edges in simp)
  then have "dropWhile (has_producer g) pushes = []" and "takeWhile (has_producer g) pushes = pushes"
    by (simp_all add: has_producer_all)
  with runScript_effect [OF assms(1) inv, of pushes r t'] obtain g' new where
    g': "runScript S pushes r t' g = (r, g', t')" "pubs (m_svsPubSub g') = pubs (m_svsPubSub g) @ new"
    "list_all2 (published_by S (map_of (m_iceflowProducers g))) pushes new" by auto
  have "invokeCallback S (lines2words_app clock down) (Prosumer ()) d (g, t) = (Inr (), g', t')"
    using g'(1) run r by (simp add: lines2words_app_def)
  with g'(2) published_units [OF g'(3)] out run
  show "\<exists>g' new. invokeCallback S (lines2words_app clock down) (Prosumer ()) d (g, t) =
      (Inr (), g', snd (snd (lines2words clock down (string_of_bytes d) t))) \<and>
    pubs (m_svsPubSub g') = pubs (m_svsPubSub g) @ new \<and> unit_payloads new = words_out d \<and>
    acknowledgements new = []"
    by (intro exI [of _ g'] exI [of _ new]) simp
qed

lemma wordcount_call:
  "returning_call S invar pubs (wordcount_app clock) (Plain ()) (\<lambda>d. []) (countWord clock) f"
  by (simp add: returning_call_def wordcount_app_def)

section \<open>Command lines and runs\<close>

text \<open>
  What a run of each program is given: a command line of the right length, a DAG file it can
  start from, and undisturbed batches. \<open>up\<close> is the edge it consumes, \<open>i\<close> the instance number.
\<close>

definition lines2words_ready ::
    "'j json_ops \<Rightarrow> environment \<Rightarrow> 'n face_event list list \<Rightarrow> string list \<Rightarrow> 'j DAGParser \<Rightarrow> 'j Node
       \<Rightarrow> 'j Edge \<Rightarrow> int \<Rightarrow> bool" where
  "lines2words_ready J E batches argv d n up i \<longleftrightarrow>
     length argv = 4 \<and> stoi (argv ! 2) = Inr i \<and> (\<exists>k. stoi (argv ! 3) = Inr k) \<and>
     deployable J E (argv ! 1) ''lines2words'' d n \<and> \<not> use_grpc E \<and>
     (\<exists>ups. map snd (findUpstreamEdges d n) = up # ups) \<and> (\<exists>down downs. downstream n = down # downs) \<and>
     length (downstream n) + unat (maxPartitions up) + 2 < 2 ^ 32 \<and>
     list_all (list_all (undisturbed J (edge_id up))) batches"

definition wordcount_ready ::
    "'j json_ops \<Rightarrow> environment \<Rightarrow> 'n face_event list list \<Rightarrow> string list \<Rightarrow> 'j DAGParser \<Rightarrow> 'j Node
       \<Rightarrow> 'j Edge \<Rightarrow> bool" where
  "wordcount_ready J E batches argv d n up \<longleftrightarrow>
     length argv = 2 \<and> deployable J E (argv ! 1) ''wordcount'' d n \<and> \<not> use_grpc E \<and>
     (\<exists>ups. map snd (findUpstreamEdges d n) = up # ups) \<and>
     list_all (list_all (undisturbed J (edge_id up))) batches"

text \<open>The consumer of the edge and the partitions it reads.\<close>

definition reads ::
    "('ps, 'n) ndn_ops \<Rightarrow> ('ps \<Rightarrow> u32 \<rightharpoonup> 'n \<times> callback) \<Rightarrow> string \<Rightarrow> ('ps, 'j, 'u) IceFlow \<Rightarrow> u32 set option" where
  "reads S subs e f = map_option (\<lambda>c.
     {p. Some (partition_sub S e c p) \<in> subs (m_svsPubSub f) ` set (m_subscriptionHandles c)})
     (map_of (m_iceflowConsumers f) e)"

lemma reads_evolves:
  assumes "node_evolves invar subs pubs f g"
  shows "reads S subs e g = reads S subs e f"
proof -
  have r: "reads S subs e h = map_option (\<lambda>(n, hs).
      {p. Some (name_append_number S (name_of S n) (ucast p), Consumer_callback e) \<in> subs (m_svsPubSub h) ` set hs})
      (map_option (\<lambda>c. (m_subTopic c, m_subscriptionHandles c)) (map_of (m_iceflowConsumers h) e))" for h
    by (cases "map_of (m_iceflowConsumers h) e")
      (simp_all add: reads_def partition_sub_def consumer_prepareDataName_def)
  have "subs (m_svsPubSub g) = subs (m_svsPubSub f)"
    and "same_handles (m_iceflowConsumers f) (m_iceflowConsumers g)"
    using assms by (simp_all add: node_evolves_def)
  then show ?thesis unfolding r by (simp only: same_handles_lookup)
qed

lemma subscribed_reads:
  "subscribed_node S invar subs pubs cb e r f f' \<Longrightarrow> reads S subs e f' = Some r"
  by (auto simp: subscribed_node_def reads_def)

lemma fresh_subscribed:
  assumes "fresh_node S invar used subs pubs uuid d n f" and "subscribed_node S invar subs pubs cb e r f f'"
  shows "\<not> m_running f'" and "pubs (m_svsPubSub f') = []" and "m_syncPrefix f' = m_applicationName d"
    and "set (producer_edges f') = edge_id ` set (downstream n)"
  using assms frame_producer_edges [of f f'] by (auto simp: fresh_node_def subscribed_node_def node_frame_def)

text \<open>The start-up of \<open>lines2words\<close> on such a command line, up to its event loop.\<close>

lemma lines2words_startup:
  fixes S :: "('ps, 'n) ndn_ops" and J :: "'j json_ops"
  assumes "svs S invar used subs pubs store" and "lines2words_ready J E batches argv d n up i"
  shows "\<exists>(f :: ('ps, 'j, unit) IceFlow) f' down downs k thr.
    newIceFlowFromFile S J (dag_files E) (node_uuid E) (seed_time E) (start_time E) (argv ! 1)
        ''lines2words'' None = Inr f \<and> fresh_node S invar used subs pubs (node_uuid E) d n f \<and>
    downstream n = down # downs \<and> stoi (argv ! 3) = Inr k \<and>
    lines2words_start S J ''lines2words'' (word_of_int i) (word_of_int k) f (start_disk E) =
      Some (Inr (f', start_state ''lines2words'' (m_nodePrefix f) thr (start_disk E))) \<and>
    subscribed_node S invar subs pubs (Prosumer ()) (edge_id up)
      {p. word_of_int i \<le> p \<and> p \<le> maxPartitions up \<and> (unat p - unat (word_of_int i :: u32)) mod 2 = 0} f f'"
proof -
  obtain k ups down downs where ready: "length argv = 4" "stoi (argv ! 2) = Inr i" "stoi (argv ! 3) = Inr k"
    "deployable J E (argv ! 1) ''lines2words'' d n" "map snd (findUpstreamEdges d n) = up # ups"
    "downstream n = down # downs" "length (downstream n) + unat (maxPartitions up) + 2 < 2 ^ 32"
    using assms(2) unfolding lines2words_ready_def by (elim conjE exE) (rule that)
  obtain f :: "('ps, 'j, unit) IceFlow" where
    f: "newIceFlowFromFile S J (dag_files E) (node_uuid E) (seed_time E) (start_time E) (argv ! 1)
        ''lines2words'' None = Inr f" "fresh_node S invar used subs pubs (node_uuid E) d n f"
    using deployed_node [OF assms(1) ready(4)] by blast
  have sels: "m_upstreamEdges f = up # ups" "m_downstreamEdges f = down # downs" "m_node f = n"
    using f(2) ready(5,6) by (simp_all add: fresh_node_def)
  obtain thr where thr: "getApplicationParameter (j_get_u64 J) ''measurementsSaveThreshold'' f = Some thr"
    using deployed_threshold [OF ready(4) sels(3)] by blast
  let ?i = "word_of_int i :: u32"
  obtain f' where start: "lines2words_start S J ''lines2words'' ?i (word_of_int k) f (start_disk E) =
      Some (Inr (f', start_state ''lines2words'' (m_nodePrefix f) thr (start_disk E)))"
    and sub: "subscribed_node S invar subs pubs (Prosumer ()) (edge_id up)
      {p. ?i \<le> p \<and> p \<le> maxPartitions up \<and> (unat p - unat ?i) mod 2 = 0} f f'"
    using lines2words_started [OF assms(1) f(2) sels(1,2) thr ready(7)] by blast
  from f ready(3,6) start sub show ?thesis by (intro exI conjI)
qed

lemma lines2words_run_trace:
  fixes S :: "('ps, 'n) ndn_ops" and J :: "'j json_ops"
  assumes "svs S invar used subs pubs store" and "lines2words_ready J E batches argv d n up i"
  shows "\<exists>f s. lines2words_main S J E batches argv = Live (f, s) \<and>
    unit_payloads (pubs (m_svsPubSub f)) = concat (map words_out (delivered batches)) \<and>
    acknowledgements (pubs (m_svsPubSub f)) =
      map (\<lambda>u. (backName S (m_applicationName d) (edge_id up), ackPayload J (sub_seqNo u))) (units_of (concat batches)) \<and>
    reads S subs (edge_id up) f =
      Some {p. word_of_int i \<le> p \<and> p \<le> maxPartitions up \<and> (unat p - unat (word_of_int i :: u32)) mod 2 = 0}"
proof -
  let ?i = "word_of_int i :: u32"
  obtain f :: "('ps, 'j, unit) IceFlow" and f' down downs k thr where
    f: "newIceFlowFromFile S J (dag_files E) (node_uuid E) (seed_time E) (start_time E) (argv ! 1)
        ''lines2words'' None = Inr f" "fresh_node S invar used subs pubs (node_uuid E) d n f"
    and down: "downstream n = down # downs" and k: "stoi (argv ! 3) = Inr k"
    and start: "lines2words_start S J ''lines2words'' ?i (word_of_int k) f (start_disk E) =
      Some (Inr (f', start_state ''lines2words'' (m_nodePrefix f) thr (start_disk E)))"
    and sub: "subscribed_node S invar subs pubs (Prosumer ()) (edge_id up)
      {p. ?i \<le> p \<and> p \<le> maxPartitions up \<and> (unat p - unat ?i) mod 2 = 0} f f'"
    using lines2words_startup [OF assms] by (elim exE conjE)
  have ready: "length argv = 4" "stoi (argv ! 2) = Inr i" "\<not> use_grpc E"
    "list_all (list_all (undisturbed J (edge_id up))) batches"
    using assms(2) by (simp_all add: lines2words_ready_def)
  have first: "getDownstreamEdge 0 f = Inr (Some down)"
    using f(2) down by (simp add: fresh_node_def getDownstreamEdge_def edgeAt_first)
  note fresh = fresh_subscribed [OF f(2) sub]
  have e: "edge_id down \<in> set (producer_edges f')" using fresh(4) down by simp
  obtain w where run: "runNode S J (lines2words_app (wall_clock E) (edge_id down)) batches f'
      (start_state ''lines2words'' (m_nodePrefix f) thr (start_disk E)) = Executing w"
    and trace: "consumer_trace S J invar subs pubs (Prosumer ()) (edge_id up) words_out
      (\<lambda>d s. snd (snd (lines2words (wall_clock E) (edge_id down) (string_of_bytes d) s))) f'
      (start_state ''lines2words'' (m_nodePrefix f) thr (start_disk E)) (concat batches) w"
    using consumer_process [OF assms(1) lines2words_call [OF assms(1) e] sub fresh(1) ready(4)] by blast
  obtain g s where w: "w = (g, s)" by (cases w)
  have "lines2words_main S J E batches argv = Live (g, s)"
    using ready(1-3) k f(1) start run w first
    by (simp add: lines2words_main_def lines2words_run_def startGrpc_def valueE_def)
  moreover have "node_evolves invar subs pubs f' g" using trace w by (simp add: consumer_trace_def)
  from reads_evolves [OF this, of S "edge_id up"] subscribed_reads [OF sub]
  have "reads S subs (edge_id up) g = Some {p. ?i \<le> p \<and> p \<le> maxPartitions up \<and> (unat p - unat ?i) mod 2 = 0}"
    by simp
  ultimately show ?thesis
    using trace fresh w by (intro exI [of _ g] exI [of _ s]) (simp add: consumer_trace_def)
qed

lemma wordcount_startup:
  fixes S :: "('ps, 'n) ndn_ops" and J :: "'j json_ops"
  assumes "svs S invar used subs pubs store" and "wordcount_ready J E batches argv d n up"
  shows "\<exists>(f :: ('ps, 'j, unit) IceFlow) f' thr.
    newIceFlowFromFile S J (dag_files E) (node_uuid E) (seed_time E) (start_time E) (argv ! 1)
        ''wordcount'' None = Inr f \<and> fresh_node S invar used subs pubs (node_uuid E) d n f \<and>
    wordcount_start S J ''wordcount'' f (start_disk E) = Inr (f', example_state.extend
      (start_state ''wordcount'' (m_nodePrefix f) thr (start_disk E)) (wordcount_state.fields [])) \<and>
    subscribed_node S invar subs pubs (Plain ()) (edge_id up) {0} f f'"
proof -
  obtain ups where ready: "length argv = 2" "deployable J E (argv ! 1) ''wordcount'' d n"
    "map snd (findUpstreamEdges d n) = up # ups" "list_all (list_all (undisturbed J (edge_id up))) batches"
    using assms(2) unfolding wordcount_ready_def by (elim conjE exE) (rule that)
  obtain f :: "('ps, 'j, unit) IceFlow" where
    f: "newIceFlowFromFile S J (dag_files E) (node_uuid E) (seed_time E) (start_time E) (argv ! 1)
        ''wordcount'' None = Inr f" "fresh_node S invar used subs pubs (node_uuid E) d n f"
    using deployed_node [OF assms(1) ready(2)] by blast
  have sels: "m_upstreamEdges f = up # ups" "m_node f = n"
    using f(2) ready(3) by (simp_all add: fresh_node_def)
  have room: "length (downstream n) + 1 < 2 ^ 32" using ready(2) by (simp add: deployable_def)
  obtain thr where thr: "getApplicationParameter (j_get_u64 J) ''measurementsSaveThreshold'' f = Some thr"
    using deployed_threshold [OF ready(2) sels(2)] by blast
  let ?s = "example_state.extend (start_state ''wordcount'' (m_nodePrefix f) thr (start_disk E)) (wordcount_state.fields [])"
  obtain f' where start: "wordcount_start S J ''wordcount'' f (start_disk E) = Inr (f', ?s)"
    and sub: "subscribed_node S invar subs pubs (Plain ()) (edge_id up) {0} f f'"
    using wordcount_started [OF assms(1) f(2) sels(1) thr room] by blast
  from f start sub show ?thesis by (intro exI conjI)
qed

lemma wordcount_run_trace:
  fixes S :: "('ps, 'n) ndn_ops" and J :: "'j json_ops"
  assumes "svs S invar used subs pubs store" and "wordcount_ready J E batches argv d n up"
  shows "\<exists>f s. wordcount_main S J E batches argv = Live (f, s) \<and>
    (\<forall>w. count_of (wordCountMap s) w =
       int (count (mset (map (map tolower) (concat (map (words \<circ> string_of_bytes) (delivered batches))))) w)) \<and>
    unit_payloads (pubs (m_svsPubSub f)) = [] \<and>
    acknowledgements (pubs (m_svsPubSub f)) =
      map (\<lambda>u. (backName S (m_applicationName d) (edge_id up), ackPayload J (sub_seqNo u))) (units_of (concat batches)) \<and>
    reads S subs (edge_id up) f = Some {0}"
proof -
  obtain f :: "('ps, 'j, unit) IceFlow" and f' thr where
    f: "newIceFlowFromFile S J (dag_files E) (node_uuid E) (seed_time E) (start_time E) (argv ! 1)
        ''wordcount'' None = Inr f" "fresh_node S invar used subs pubs (node_uuid E) d n f"
    and start: "wordcount_start S J ''wordcount'' f (start_disk E) = Inr (f', example_state.extend
      (start_state ''wordcount'' (m_nodePrefix f) thr (start_disk E)) (wordcount_state.fields []))"
    and sub: "subscribed_node S invar subs pubs (Plain ()) (edge_id up) {0} f f'"
    using wordcount_startup [OF assms] by (elim exE conjE)
  let ?s = "example_state.extend (start_state ''wordcount'' (m_nodePrefix f) thr (start_disk E)) (wordcount_state.fields [])"
  have ready: "length argv = 2" "\<not> use_grpc E" "list_all (list_all (undisturbed J (edge_id up))) batches"
    using assms(2) by (simp_all add: wordcount_ready_def)
  note fresh = fresh_subscribed [OF f(2) sub]
  obtain w where run: "runNode S J (wordcount_app (wall_clock E)) batches f' ?s = Executing w"
    and trace: "consumer_trace S J invar subs pubs (Plain ()) (edge_id up) (\<lambda>d. [])
      (countWord (wall_clock E)) f' ?s (concat batches) w"
    using consumer_process [OF assms(1) wordcount_call sub fresh(1) ready(3)] by blast
  obtain g s where w: "w = (g, s)" by (cases w)
  have "wordcount_main S J E batches argv = Live (g, s)"
    using ready(1,2) f(1) start run w
    by (simp add: wordcount_main_def wordcount_run_def startGrpc_def)
  moreover have "node_evolves invar subs pubs f' g" using trace w by (simp add: consumer_trace_def)
  from reads_evolves [OF this, of S "edge_id up"] subscribed_reads [OF sub]
  have "reads S subs (edge_id up) g = Some {0}" by simp
  moreover have "s = foldl (\<lambda>s d. countWord (wall_clock E) d s) ?s (delivered batches)"
    using trace w by (simp add: consumer_trace_def)
  then have "count_of (wordCountMap s) x =
      int (count (mset (map (map tolower) (concat (map (words \<circ> string_of_bytes) (delivered batches))))) x)" for x
    by (simp only: countAll_counts)
      (simp add: count_of_def example_state.extend_def wordcount_state.fields_def)
  moreover have "concat (map (\<lambda>d. []) (delivered batches)) = []" by simp
  ultimately show ?thesis
    using trace fresh(2,3) w by (intro exI [of _ g] exI [of _ s]) (simp add: consumer_trace_def)
qed

section \<open>The two threads of \<open>text2lines\<close>\<close>

definition pushes_in :: "'n turn list \<Rightarrow> nat" where
  "pushes_in turns = length (filter (\<lambda>t. t = Push_turn) turns)"

fun turn_undisturbed :: "'j json_ops \<Rightarrow> 'n turn \<Rightarrow> bool" where
  "turn_undisturbed J (Loop_turn batch) \<longleftrightarrow> list_all (\<lambda>ev. \<exists>e. undisturbed J e ev) batch"
| "turn_undisturbed J Push_turn \<longleftrightarrow> True"

text \<open>
  What holds between the turns, of the node and the pushes at the start: the pushes are made in
  order, and the loop adds nothing to the publications.
\<close>

definition threads_trace ::
    "('ps, 'n) ndn_ops \<Rightarrow> ('ps \<Rightarrow> bool) \<Rightarrow> ('ps \<Rightarrow> u32 \<rightharpoonup> 'n \<times> callback) \<Rightarrow> ('ps \<Rightarrow> 'n publication list)
       \<Rightarrow> ('ps, 'j, unit) IceFlow \<Rightarrow> (string \<times> byte list \<times> example_state) list \<Rightarrow> nat
       \<Rightarrow> ('ps, 'j) text2lines_threads \<Rightarrow> bool" where
  "threads_trace S invar subs pubs f pushes k t \<longleftrightarrow>
     node_evolves invar subs pubs f (node t) \<and> m_running (node t) = loop_begun t \<and>
     pending t = drop k pushes \<and>
     unit_payloads (pubs (m_svsPubSub (node t))) =
       unit_payloads (pubs (m_svsPubSub f)) @ take k (map (fst \<circ> snd) pushes) \<and>
     acknowledgements (pubs (m_svsPubSub (node t))) = acknowledgements (pubs (m_svsPubSub f))"

lemma no_consumer_event:
  assumes "svs S invar used subs pubs store" and "invar (m_svsPubSub g)" and "m_iceflowConsumers g = []"
    and "undisturbed J e ev"
  shows "\<exists>ps. handleEvent S J app ev (g, a) = (Inr (), g\<lparr>m_svsPubSub := ps\<rparr>, a) \<and>
    invar ps \<and> pubs ps = pubs (m_svsPubSub g) \<and> subs ps = subs (m_svsPubSub g)"
proof (cases ev)
  case (Arrived b d now)
  show ?thesis
  proof (cases b)
    case (Consumer_callback e')
    with Arrived assms(2,3) show ?thesis
      by (intro exI [of _ "m_svsPubSub g"]) (simp add: onConsumerData_def)
  next
    case (Backchannel_handler np sp)
    with Arrived assms(4) have "undisturbed J e (Arrived (Backchannel_handler np sp) d now)" by simp
    then show ?thesis
      unfolding Arrived Backchannel_handler by (rule undisturbed_acknowledgement [OF assms(1,2)])
  qed
qed (use assms(4) in simp_all)

lemma no_consumer_batch:
  assumes "svs S invar used subs pubs store" and "invar (m_svsPubSub g)" and "m_iceflowConsumers g = []"
    and "list_all (\<lambda>ev. \<exists>e. undisturbed J e ev) batch"
  shows "\<exists>ps. processEvents S J app batch (g, a) = (Inr (), g\<lparr>m_svsPubSub := ps\<rparr>, a) \<and>
    invar ps \<and> pubs ps = pubs (m_svsPubSub g) \<and> subs ps = subs (m_svsPubSub g)"
  using assms(2-4)
proof (induction batch arbitrary: g)
  case Nil
  then show ?case by (intro exI [of _ "m_svsPubSub g"]) simp
next
  case (Cons ev batch)
  then obtain e where "undisturbed J e ev" by auto
  from no_consumer_event [OF assms(1) Cons.prems(1,2) this, of app a] obtain ps where
    ps: "handleEvent S J app ev (g, a) = (Inr (), g\<lparr>m_svsPubSub := ps\<rparr>, a)"
    "invar ps" "pubs ps = pubs (m_svsPubSub g)" "subs ps = subs (m_svsPubSub g)"
    by (elim exE conjE)
  from Cons.IH [of "g\<lparr>m_svsPubSub := ps\<rparr>"] Cons.prems ps obtain ps' where
    "processEvents S J app batch (g\<lparr>m_svsPubSub := ps\<rparr>, a) = (Inr (), g\<lparr>m_svsPubSub := ps'\<rparr>, a)"
    "invar ps'" "pubs ps' = pubs ps" "subs ps' = subs ps"
    by auto
  with ps show ?case by (intro exI [of _ ps']) simp
qed

lemma threads_trace_push:
  assumes "svs S invar used subs pubs store" and "list_all (has_producer f) pushes"
    and "threads_trace S invar subs pubs f pushes k t"
  shows "\<exists>t'. threadTurn S J Push_turn t = Some t' \<and> threads_trace S invar subs pubs f pushes (Suc k) t'"
proof (cases "drop k pushes")
  case Nil
  with assms(3) show ?thesis by (simp add: threads_trace_def)
next
  case (Cons push rest)
  obtain e d a where push: "push = (e, d, a)" by (rule prod_cases3)
  have "k < length pushes" using Cons by (metis drop_eq_Nil2 list.distinct(1) not_le)
  have nth: "pushes ! k = push" and rest: "drop (Suc k) pushes = rest"
    using Cons by (metis nth_via_drop, metis drop_Suc list.sel(3) tl_drop)
  have ev: "node_evolves invar subs pubs f (node t)" using assms(3) by (simp add: threads_trace_def)
  have "has_producer (node t) push"
    using assms(2) nth \<open>k < length pushes\<close> by (auto simp: list_all_length has_producer_evolves [OF ev])
  then have e: "e \<in> set (producer_edges (node t))" by (simp add: has_producer_def push)
  obtain g x where g: "pushData S d e (node t) = (Inr (), g)" "node_evolves invar subs pubs (node t) g"
    "pubs (m_svsPubSub g) = pubs (m_svsPubSub (node t)) @ [x]"
    "published_by S (map_of (m_iceflowProducers (node t))) (e, d, a) x"
    using pushData_known [OF assms(1) evolves_invar [OF ev] e, of d a] by blast
  have "list_all2 (published_by S (map_of (m_iceflowProducers (node t)))) [(e, d, a)] [x]" using g(4) by simp
  from published_units [OF this] have "unit_payloads [x] = [d]" "acknowledgements [x] = []" by simp_all
  moreover have "m_running g = m_running (node t)" using g(1) pushData_frame(2) [of S d e "node t"] by simp
  moreover have "take (Suc k) (map (fst \<circ> snd) pushes) = take k (map (fst \<circ> snd) pushes) @ [d]"
    using \<open>k < length pushes\<close> nth push by (simp add: take_Suc_conv_app_nth)
  ultimately have "threads_trace S invar subs pubs f pushes (Suc k) (t\<lparr>node := g, app_state := a, pending := rest\<rparr>)"
    using assms(3) evolves_trans [OF ev g(2)] rest by (simp add: threads_trace_def g(3))
  then show ?thesis
    using assms(3) Cons push g(1)
    by (intro exI [of _ "t\<lparr>node := g, app_state := a, pending := rest\<rparr>"]) (simp add: threads_trace_def)
qed

lemma threads_trace_loop:
  assumes "svs S invar used subs pubs store" and "m_iceflowConsumers f = []"
    and "threads_trace S invar subs pubs f pushes k t" and "turn_undisturbed J (Loop_turn batch)"
  shows "\<exists>t'. threadTurn S J (Loop_turn batch) t = Some t' \<and> threads_trace S invar subs pubs f pushes k t'"
proof -
  have ev: "node_evolves invar subs pubs f (node t)" and running: "m_running (node t) = loop_begun t"
    using assms(3) by (simp_all add: threads_trace_def)
  obtain g where g_def: "g = (node t)\<lparr>m_running := True\<rparr>" by blast
  have g: "(if loop_begun t then node t else (node t)\<lparr>m_running := True\<rparr>) = g"
    using running by (auto simp: g_def)
  have "m_iceflowConsumers g = []"
    using ev assms(2) same_handles_keys by (fastforce simp: g_def node_evolves_def)
  moreover have inv: "invar (m_svsPubSub g)" using evolves_invar [OF ev] by (simp add: g_def)
  ultimately obtain ps where ps: "processEvents S J no_callbacks batch (g, app_state t) =
      (Inr (), g\<lparr>m_svsPubSub := ps\<rparr>, app_state t)"
    "invar ps" "pubs ps = pubs (m_svsPubSub g)" "subs ps = subs (m_svsPubSub g)"
    using no_consumer_batch [OF assms(1), of g J batch no_callbacks "app_state t"] assms(4)
    by (auto simp del: processEvents.simps)
  let ?t = "t\<lparr>node := g\<lparr>m_svsPubSub := ps\<rparr>, loop_begun := True\<rparr>"
  have "node_evolves invar subs pubs f (g\<lparr>m_svsPubSub := ps\<rparr>)"
    using ev ps(2-4) by (simp add: g_def node_evolves_def)
  then have "threads_trace S invar subs pubs f pushes k ?t"
    using assms(3) ps(3) by (simp add: threads_trace_def g_def)
  moreover have "threadTurn S J (Loop_turn batch) t = Some ?t"
    using ps(1) running by (simp add: g Let_def g_def)
  ultimately show ?thesis by blast
qed

lemma threads_trace_turns:
  assumes "svs S invar used subs pubs store" and "m_iceflowConsumers f = []"
    and "list_all (has_producer f) pushes" and "threads_trace S invar subs pubs f pushes k t"
    and "list_all (turn_undisturbed J) turns"
  shows "\<exists>t'. threadTurns S J turns t = Some t' \<and>
    threads_trace S invar subs pubs f pushes (k + pushes_in turns) t'"
  using assms(4,5)
proof (induction turns arbitrary: k t)
  case Nil
  then show ?case by (simp add: pushes_in_def)
next
  case (Cons turn turns)
  show ?case
  proof (cases turn)
    case (Loop_turn batch)
    with Cons.prems(2) have "turn_undisturbed J (Loop_turn batch)" by simp
    from threads_trace_loop [OF assms(1,2) Cons.prems(1) this] obtain t1 where
      t1: "threadTurn S J turn t = Some t1" "threads_trace S invar subs pubs f pushes k t1"
      unfolding Loop_turn by blast
    from Cons.IH [OF t1(2)] Cons.prems(2) t1(1) Loop_turn show ?thesis by (simp add: pushes_in_def)
  next
    case Push_turn
    from threads_trace_push [OF assms(1,3) Cons.prems(1), of J] obtain t1 where
      t1: "threadTurn S J turn t = Some t1" "threads_trace S invar subs pubs f pushes (Suc k) t1"
      unfolding Push_turn by blast
    from Cons.IH [OF t1(2)] Cons.prems(2) t1(1) Push_turn show ?thesis by (simp add: pushes_in_def)
  qed
qed

definition text2lines_ready ::
    "'j json_ops \<Rightarrow> environment \<Rightarrow> 'n turn list \<Rightarrow> string list \<Rightarrow> 'j DAGParser \<Rightarrow> 'j Node
       \<Rightarrow> string \<Rightarrow> bool" where
  "text2lines_ready J E turns argv d n text \<longleftrightarrow>
     length argv = 2 \<and> deployable J E (argv ! 1) ''text2lines'' d n \<and> \<not> use_grpc E \<and>
     findUpstreamEdges d n = [] \<and>
     (\<exists>down downs. downstream n = down # downs) \<and>
     (\<exists>v name. map_of (node_applicationConfiguration n) ''sourceTextFileName'' = Some v \<and>
        j_get_string J v = Inr name \<and> text_files E name = Some text) \<and>
     list_all (turn_undisturbed J) turns"

lemma text2lines_startup:
  fixes S :: "('ps, 'n) ndn_ops" and J :: "'j json_ops"
  assumes "svs S invar used subs pubs store" and "text2lines_ready J E turns argv d n text"
  shows "\<exists>(f :: ('ps, 'j, unit) IceFlow) down downs name thr.
    newIceFlowFromFile S J (dag_files E) (node_uuid E) (seed_time E) (start_time E) (argv ! 1)
        ''text2lines'' None = Inr f \<and> fresh_node S invar used subs pubs (node_uuid E) d n f \<and>
    downstream n = down # downs \<and> text_files E name = Some text \<and>
    text2lines_start J ''text2lines'' f (start_disk E) =
      Inr (edge_id down, name, start_state ''text2lines'' (m_nodePrefix f) thr (start_disk E))"
proof -
  obtain down downs v name where ready: "length argv = 2" "deployable J E (argv ! 1) ''text2lines'' d n"
    "findUpstreamEdges d n = []" "downstream n = down # downs"
    "map_of (node_applicationConfiguration n) ''sourceTextFileName'' = Some v" "j_get_string J v = Inr name"
    "text_files E name = Some text"
    using assms(2) unfolding text2lines_ready_def by (elim conjE exE) (rule that)
  obtain f :: "('ps, 'j, unit) IceFlow" where
    f: "newIceFlowFromFile S J (dag_files E) (node_uuid E) (seed_time E) (start_time E) (argv ! 1)
        ''text2lines'' None = Inr f" "fresh_node S invar used subs pubs (node_uuid E) d n f"
    using deployed_node [OF assms(1) ready(2)] by blast
  have sels: "m_downstreamEdges f = down # downs" "m_node f = n"
    using f(2) ready(4) by (simp_all add: fresh_node_def)
  obtain thr where thr: "getApplicationParameter (j_get_u64 J) ''measurementsSaveThreshold'' f = Some thr"
    using deployed_threshold [OF ready(2) sels(2)] by blast
  have "getApplicationParameter (j_get_string J) ''sourceTextFileName'' f = Some name"
    using ready(5,6) by (simp add: getApplicationParameter_def sels(2))
  from text2lines_started [OF sels(1) thr this, of "''text2lines''" "start_disk E"]
    f ready(4,7) show ?thesis by (intro exI conjI)
qed

text \<open>
  The threads of a process: they begin with the node and the lines to push, and after any turns the
  process is live with the node they share.
\<close>

definition threads_process ::
    "('ps, 'n) ndn_ops \<Rightarrow> 'j json_ops \<Rightarrow> ('ps \<Rightarrow> bool) \<Rightarrow> ('ps \<Rightarrow> u32 \<rightharpoonup> 'n \<times> callback) \<Rightarrow> ('ps \<Rightarrow> 'n publication list)
       \<Rightarrow> ('ps, 'j, unit) IceFlow \<Rightarrow> byte list list
       \<Rightarrow> ('n turn list \<Rightarrow> ('ps, 'j) text2lines_threads process) \<Rightarrow> ('ps, 'j) text2lines_threads
       \<Rightarrow> (string \<times> byte list \<times> example_state) list \<Rightarrow> bool" where
  "threads_process S J invar subs pubs f ls main t0 pushes \<longleftrightarrow>
     node t0 = f \<and> threads_trace S invar subs pubs f pushes 0 t0 \<and> list_all (has_producer f) pushes \<and>
     map (fst \<circ> snd) pushes = ls \<and>
     (\<forall>turns t. threadTurns S J turns t0 = Some t \<longrightarrow> m_running (node t) = loop_begun t \<longrightarrow>
        (\<exists>t'. main turns = Live t' \<and> node t' = node t))"

lemma text2lines_threads_process:
  fixes S :: "('ps, 'n) ndn_ops" and J :: "'j json_ops"
  assumes "svs S invar used subs pubs store" and "text2lines_ready J E turns argv d n text"
  shows "\<exists>(f :: ('ps, 'j, unit) IceFlow) t0 pushes.
    newIceFlowFromFile S J (dag_files E) (node_uuid E) (seed_time E) (start_time E) (argv ! 1)
        ''text2lines'' None = Inr f \<and> fresh_node S invar used subs pubs (node_uuid E) d n f \<and>
    threads_process S J invar subs pubs f (map bytes_of_string (getlines text))
      (\<lambda>turns. text2lines_main S J E turns argv) t0 pushes"
proof -
  obtain f :: "('ps, 'j, unit) IceFlow" and down downs name thr where
    f: "newIceFlowFromFile S J (dag_files E) (node_uuid E) (seed_time E) (start_time E) (argv ! 1)
        ''text2lines'' None = Inr f" "fresh_node S invar used subs pubs (node_uuid E) d n f"
    and down: "downstream n = down # downs" and src: "text_files E name = Some text"
    and start: "text2lines_start J ''text2lines'' f (start_disk E) =
      Inr (edge_id down, name, start_state ''text2lines'' (m_nodePrefix f) thr (start_disk E))"
    using text2lines_startup [OF assms] by (elim exE conjE)
  have ready: "length argv = 2" "\<not> use_grpc E" using assms(2) by (simp_all add: text2lines_ready_def)
  have sels: "set (producer_edges f) = edge_id ` set (downstream n)" "\<not> m_running f" "invar (m_svsPubSub f)"
    using f(2) by (auto simp: fresh_node_def)
  let ?s = "start_state ''text2lines'' (m_nodePrefix f) thr (start_disk E)"
  obtain pushes r s' where script: "text2lines (wall_clock E) (edge_id down) (Some text) ?s = (pushes, r, s')"
    by (rule prod_cases3)
  then have data: "map (\<lambda>(e, d, _). (e, d)) pushes = map (\<lambda>l. (edge_id down, bytes_of_string l)) (getlines text)"
    using text2lines_pushes [of "wall_clock E" "edge_id down" "text" ?s] by (simp add: push_data_def)
  from arg_cong [OF this, of "map snd"] have out: "map (fst \<circ> snd) pushes = map bytes_of_string (getlines text)"
    by (simp add: comp_def split_beta)
  have has: "list_all (has_producer f) pushes"
    by (rule pushes_to_producer [OF data]) (use sels(1) down in simp)
  let ?t = "\<lparr>node = f, app_state = ?s, loop_begun = False, pending = pushes\<rparr>"
  have trace: "threads_trace S invar subs pubs f pushes 0 ?t"
    using sels(2,3) by (simp add: threads_trace_def evolves_refl)
  have "\<exists>t'. text2lines_main S J E turns argv = Live t' \<and> node t' = node t"
    if "threadTurns S J turns ?t = Some t" and "m_running (node t) = loop_begun t" for turns t
    using that ready src f(1) start script
    by (intro exI [of _ "if pending t = [] then t\<lparr>app_state := s'\<rparr> else t"])
      (simp add: text2lines_main_def text2lines_run_def startGrpc_def Let_def)
  with trace has out have "threads_process S J invar subs pubs f (map bytes_of_string (getlines text))
      (\<lambda>turns. text2lines_main S J E turns argv) ?t pushes"
    by (simp add: threads_process_def)
  with f show ?thesis by blast
qed

lemma threads_process_turns:
  assumes "svs S invar used subs pubs store" and "m_iceflowConsumers f = []"
    and "threads_process S J invar subs pubs f ls main t0 pushes" and "list_all (turn_undisturbed J) turns"
  shows "\<exists>t t'. threadTurns S J turns t0 = Some t \<and> threads_trace S invar subs pubs f pushes (pushes_in turns) t \<and>
    main turns = Live t' \<and> node t' = node t"
proof -
  have p: "threads_trace S invar subs pubs f pushes 0 t0" "list_all (has_producer f) pushes"
    using assms(3) by (simp_all add: threads_process_def)
  from threads_trace_turns [OF assms(1,2) p(2,1) assms(4)] obtain t where
    t: "threadTurns S J turns t0 = Some t" "threads_trace S invar subs pubs f pushes (pushes_in turns) t"
    by auto
  moreover have "m_running (node t) = loop_begun t" using t(2) by (simp add: threads_trace_def)
  ultimately show ?thesis using assms(3) unfolding threads_process_def by blast
qed

lemma text2lines_run_trace:
  fixes S :: "('ps, 'n) ndn_ops" and J :: "'j json_ops"
  assumes "svs S invar used subs pubs store" and "text2lines_ready J E turns argv d n text"
  shows "\<exists>t. text2lines_main S J E turns argv = Live t \<and>
    unit_payloads (pubs (m_svsPubSub (node t))) = take (pushes_in turns) (map bytes_of_string (getlines text)) \<and>
    acknowledgements (pubs (m_svsPubSub (node t))) = []"
proof -
  obtain f :: "('ps, 'j, unit) IceFlow" and t0 pushes where
    f: "fresh_node S invar used subs pubs (node_uuid E) d n f"
    and p: "threads_process S J invar subs pubs f (map bytes_of_string (getlines text))
      (\<lambda>turns. text2lines_main S J E turns argv) t0 pushes"
    using text2lines_threads_process [OF assms] by blast
  have sels: "m_iceflowConsumers f = []" "pubs (m_svsPubSub f) = []" and ok: "list_all (turn_undisturbed J) turns"
    using f assms(2) by (auto simp: fresh_node_def text2lines_ready_def)
  from threads_process_turns [OF assms(1) sels(1) p ok] p sels(2) show ?thesis
    by (auto simp: threads_trace_def threads_process_def)
qed

section \<open>From lines to counts\<close>

lemma counted_words:
  assumes "mset ls = mset (map bytes_of_string (getlines text))" and "mset ws = mset (concat (map words_out ls))"
  shows "mset (map (map tolower) (concat (map (words \<circ> string_of_bytes) ws))) = mset (map (map tolower) (words text))"
proof -
  have "concat (map words_out (map bytes_of_string ts)) = map bytes_of_string (concat (map words ts))" for ts
    by (simp add: map_concat comp_def)
  then have "concat (map words_out (map bytes_of_string (getlines text))) = map bytes_of_string (words text)"
    by (simp only: words_getlines)
  with assms(2) mset_concat_map [OF assms(1), of words_out] have
    "mset ws = mset (map bytes_of_string (words text))" by metis
  then have "mset (concat (map (words \<circ> string_of_bytes) ws)) =
      mset (concat (map (words \<circ> string_of_bytes) (map bytes_of_string (words text))))"
    by (rule mset_concat_map)
  also have "concat (map (words \<circ> string_of_bytes) (map bytes_of_string vs)) = vs"
    if vs: "\<forall>w \<in> set vs. words w = [w]" for vs
    using vs by (induction vs) simp_all
  then have "concat (map (words \<circ> string_of_bytes) (map bytes_of_string (words text))) = words text"
    using words_of_word by blast
  finally show ?thesis by (simp only: mset_map)
qed

section \<open>The application of the repository\<close>

text \<open>
  An environment with the DAG of the repository and a text of two lines. The reference JSON
  operations do not parse documents: the contents of the DAG file are given their meaning here.
\<close>

definition dag_contents :: "byte list" where
  "dag_contents = bytes_of_string ''{...}''"

definition word_count_json :: "jval json_ops" where
  "word_count_json = ref_json\<lparr>j_read := (\<lambda>bs. if bs = dag_contents then Inr word_count_document else jval_read bs)\<rparr>"

definition two_lines :: string where
  "two_lines = ''a The'' @ newline @ ''the''"

definition word_count_env :: environment where
  "word_count_env =
     \<lparr>dag_files = [''../application-DAG.json'' \<mapsto> dag_contents], text_files = [''sourcetext.txt'' \<mapsto> two_lines],
      start_disk = empty_fs, node_uuid = ''u'', seed_time = (\<lambda>_. 7), start_time = (\<lambda>_. 0),
      wall_clock = (\<lambda>_. 0), use_grpc = False\<rparr>"

lemma parse_independent:
  "fromJson (J\<lparr>j_read := p\<rparr>) j = fromJson J j"
proof -
  have str: "at_string (J\<lparr>j_read := p\<rparr>) = at_string J" and num: "at_u32 (J\<lparr>j_read := p\<rparr>) = at_u32 J"
    by (simp_all add: fun_eq_iff at_string_def at_u32_def)
  have emplace: "emplaceStrings (J\<lparr>j_read := p\<rparr>) kvs acc = emplaceStrings J kvs acc" for kvs acc
    by (induction J kvs acc rule: emplaceStrings.induct) (simp_all cong: bindE_cong)
  have edge: "parseEdge (J\<lparr>j_read := p\<rparr>) = parseEdge J"
    by (simp add: fun_eq_iff parseEdge_def str num)
  have container: "parseContainer (J\<lparr>j_read := p\<rparr>) = parseContainer J"
    by (simp add: fun_eq_iff parseContainer_def str num emplace)
  have down: "parseDownstream (J\<lparr>j_read := p\<rparr>) = parseDownstream J"
    by (simp add: fun_eq_iff parseDownstream_def edge)
  have "parseNode (J\<lparr>j_read := p\<rparr>) = parseNode J"
    by (simp add: fun_eq_iff parseNode_def str num container down)
  then show ?thesis by (simp add: fromJson_def str)
qed

lemma word_count_parse:
  "parseFromFile word_count_json (dag_files word_count_env) ''../application-DAG.json'' = Inr word_count_dag"
  using ref_json.schema_application_parsed [OF word_count_schema]
  by (simp add: parseFromFile_def word_count_json_def word_count_env_def parse_independent)

lemma word_count_edges:
  "findUpstreamEdges word_count_dag (word_count_nodes ! 0) = []"
  "map snd (findUpstreamEdges word_count_dag (word_count_nodes ! 1)) = [plain_edge ''t2l'' 3 ''2'']"
  "map snd (findUpstreamEdges word_count_dag (word_count_nodes ! 2)) = [plain_edge ''l2w'' 1 ''3'']"
  by (simp_all add: findUpstreamEdges_def findUpstreamEdgesOfTask_def word_count_nodes_def task_node_def)

lemma word_count_deployable:
  "deployable word_count_json word_count_env ''../application-DAG.json'' ''text2lines'' word_count_dag (word_count_nodes ! 0)"
  "deployable word_count_json word_count_env ''../application-DAG.json'' ''lines2words'' word_count_dag (word_count_nodes ! 1)"
  "deployable word_count_json word_count_env ''../application-DAG.json'' ''wordcount'' word_count_dag (word_count_nodes ! 2)"
  unfolding deployable_def word_count_parse
  by (simp_all add: findNodeByName_def word_count_nodes_def task_node_def word_count_json_def word_count_env_def)

lemma stoi_examples: "stoi ''1'' = Inr 1" "stoi ''2'' = Inr 2" "stoi ''-1'' = Inr (- 1)"
  "stoi ''two'' = Inl (Invalid_argument ''stoi'')"
  by (simp_all add: stoi_def is_space_def digit_value_def)

abbreviation unit_event :: "string \<Rightarrow> string \<Rightarrow> u64 \<Rightarrow> component list face_event" where
  "unit_event e s q \<equiv> Arrived (Consumer_callback e) \<lparr>sub_name = [], sub_data = bytes_of_string s, sub_seqNo = q\<rparr> 0"

lemma example_ready:
  "list_all (turn_undisturbed word_count_json) turns \<Longrightarrow>
     text2lines_ready word_count_json word_count_env turns [''text2lines'', ''../application-DAG.json'']
       word_count_dag (word_count_nodes ! 0) two_lines"
  "list_all (list_all (undisturbed word_count_json ''t2l'')) batches \<Longrightarrow> stoi i = Inr k \<Longrightarrow>
     lines2words_ready word_count_json word_count_env batches [''lines2words'', ''../application-DAG.json'', i, ''2'']
       word_count_dag (word_count_nodes ! 1) (plain_edge ''t2l'' 3 ''2'') k"
  "list_all (list_all (undisturbed word_count_json ''l2w'')) batches \<Longrightarrow>
     wordcount_ready word_count_json word_count_env batches [''wordcount'', ''../application-DAG.json'']
       word_count_dag (word_count_nodes ! 2) (plain_edge ''l2w'' 1 ''3'')"
  using word_count_deployable word_count_edges stoi_examples
  by (simp_all add: text2lines_ready_def lines2words_ready_def wordcount_ready_def)
    (simp_all add: word_count_nodes_def task_node_def word_count_json_def word_count_env_def)

lemma lower_chars:
  "tolower (CHR ''T'') = CHR ''t''" "tolower (CHR ''t'') = CHR ''t''" "tolower (CHR ''h'') = CHR ''h''"
  "tolower (CHR ''e'') = CHR ''e''" "tolower (CHR ''a'') = CHR ''a''"
  by (simp_all add: tolower_def char_of_def bit_0)

lemma two_lines_parts:
  "getlines two_lines = [''a The'', ''the'']" "words ''a The'' = [''a'', ''The'']" "words ''the'' = [''the'']"
  "words two_lines = [''a'', ''The'', ''the'']"
  by (simp_all add: two_lines_def getlines_def newline_def words_def is_space_def)

section \<open>Partitions by parity\<close>

lemma instance_parity:
  fixes p m :: u32
  shows "1 \<le> p \<and> p \<le> m \<and> (unat p - unat (word_of_int 1 :: u32)) mod 2 = 0 \<longleftrightarrow> p \<le> m \<and> 0 < p \<and> odd (unat p)"
    and "word_of_int 2 \<le> p \<and> p \<le> m \<and> (unat p - unat (word_of_int 2 :: u32)) mod 2 = 0 \<longleftrightarrow>
      p \<le> m \<and> 0 < p \<and> even (unat p)"
proof -
  have odd: "1 \<le> k \<and> (k - 1) mod 2 = 0 \<longleftrightarrow> 0 < k \<and> odd k"
    and even: "2 \<le> k \<and> (k - 2) mod 2 = 0 \<longleftrightarrow> 0 < k \<and> even k" for k :: nat
    by presburger+
  show "1 \<le> p \<and> p \<le> m \<and> (unat p - unat (word_of_int 1 :: u32)) mod 2 = 0 \<longleftrightarrow> p \<le> m \<and> 0 < p \<and> odd (unat p)"
    using odd [of "unat p"] by (simp add: word_le_nat_alt word_less_nat_alt) argo
  show "word_of_int 2 \<le> p \<and> p \<le> m \<and> (unat p - unat (word_of_int 2 :: u32)) mod 2 = 0 \<longleftrightarrow>
      p \<le> m \<and> 0 < p \<and> even (unat p)"
    using even [of "unat p"] by (simp add: word_le_nat_alt word_less_nat_alt) argo
qed

section \<open>Properties\<close>

text \<open>
  What \<open>text2lines\<close> publishes. Started on a DAG it can be deployed from, with a source file that
  can be opened, the process comes up, and however its two threads interleave (the loop handling
  acknowledgements), the units it has published after \<open>k\<close> pushes are the first \<open>k\<close> lines of the
  file, in order, once each; it acknowledges nothing.
\<close>

theorem text2lines_process_publishes:
  assumes "svs S invar used subs pubs store" and "text2lines_ready J E turns argv d n text"
  shows "\<exists>t. text2lines_main S J E turns argv = Live t \<and>
    unit_payloads (pubs (m_svsPubSub (node t))) = take (pushes_in turns) (map bytes_of_string (getlines text)) \<and>
    acknowledgements (pubs (m_svsPubSub (node t))) = []"
  by (rule text2lines_run_trace [OF assms])

theorem text2lines_process_publishes_witness:
  "\<exists>t. text2lines_main ref_ndn word_count_json word_count_env [Push_turn, Loop_turn [], Push_turn]
      [''text2lines'', ''../application-DAG.json''] = Live t \<and>
    unit_payloads (rs_pubs (m_svsPubSub (node t))) = [bytes_of_string ''a The'', bytes_of_string ''the'']"
proof -
  have "list_all (turn_undisturbed word_count_json) [Push_turn, Loop_turn [], Push_turn :: component list turn]"
    by simp
  from text2lines_process_publishes [OF ref_svs.svs_axioms example_ready(1) [OF this]]
  show ?thesis by (auto simp: pushes_in_def two_lines_parts)
qed

text \<open>
  C24: what \<open>lines2words\<close> reads and publishes. Started with two numbers on a DAG it can be deployed
  from, the process comes up; after any undisturbed batches it has published the words of the
  delivered lines in the order of delivery, and one acknowledgement per line with its number; it
  reads every second partition from the instance number, converted to 32 bits, to
  \<open>maxPartitions\<close>, whatever number of instances it was told.
\<close>

theorem lines2words_process:
  assumes "svs S invar used subs pubs store" and "lines2words_ready J E batches argv d n up i"
  shows "\<exists>f s. lines2words_main S J E batches argv = Live (f, s) \<and>
    unit_payloads (pubs (m_svsPubSub f)) =
      map bytes_of_string (concat (map (words \<circ> string_of_bytes) (delivered batches))) \<and>
    acknowledgements (pubs (m_svsPubSub f)) =
      map (\<lambda>u. (backName S (m_applicationName d) (edge_id up), ackPayload J (sub_seqNo u))) (units_of (concat batches)) \<and>
    reads S subs (edge_id up) f =
      Some {p. word_of_int i \<le> p \<and> p \<le> maxPartitions up \<and> (unat p - unat (word_of_int i :: u32)) mod 2 = 0}"
  using lines2words_run_trace [OF assms] by (simp add: map_concat comp_def)

theorem lines2words_process_witness:
  "\<exists>f s. lines2words_main ref_ndn word_count_json word_count_env [[unit_event ''t2l'' ''a The'' 5]]
      [''lines2words'', ''../application-DAG.json'', ''-1'', ''2''] = Live (f, s) \<and>
    unit_payloads (rs_pubs (m_svsPubSub f)) = [bytes_of_string ''a'', bytes_of_string ''The''] \<and>
    reads ref_ndn ref_subs ''t2l'' f = Some {}"
proof -
  have "list_all (list_all (undisturbed word_count_json ''t2l'')) [[unit_event ''t2l'' ''a The'' 5]]" by simp
  from lines2words_process [OF ref_svs.svs_axioms example_ready(2) [OF this stoi_examples(3)]] obtain f s where
    f: "lines2words_main ref_ndn word_count_json word_count_env [[unit_event ''t2l'' ''a The'' 5]]
      [''lines2words'', ''../application-DAG.json'', ''-1'', ''2''] = Live (f, s)"
    "unit_payloads (rs_pubs (m_svsPubSub f)) = [bytes_of_string ''a'', bytes_of_string ''The'']"
    "reads ref_ndn ref_subs ''t2l'' f = Some {p. word_of_int (- 1) \<le> p \<and> p \<le> 3 \<and>
       (unat p - unat (word_of_int (- 1) :: u32)) mod 2 = 0}"
    by (auto simp: two_lines_parts)
  have "\<not> (word_of_int (- 1) \<le> p \<and> p \<le> (3 :: u32))" for p :: u32
    by (auto simp: word_le_nat_alt unsigned_minus_1_eq_mask mask_eq_exp_minus_1)
  then have "reads ref_ndn ref_subs ''t2l'' f = Some {}" unfolding f(3) by blast
  with f show ?thesis by blast
qed

text \<open>
  What \<open>wordcount\<close> counts. Started on a DAG it can be deployed from, the process comes up, reads
  partition 0 only, and after any undisturbed batches the count of every word is the number of its
  occurrences, in lower case, in the units delivered; it publishes no unit and acknowledges
  every unit once, in order.
\<close>

theorem wordcount_process_counts:
  assumes "svs S invar used subs pubs store" and "wordcount_ready J E batches argv d n up"
  shows "\<exists>f s. wordcount_main S J E batches argv = Live (f, s) \<and>
    (\<forall>w. count_of (wordCountMap s) w =
       int (count (mset (map (map tolower) (concat (map (words \<circ> string_of_bytes) (delivered batches))))) w)) \<and>
    unit_payloads (pubs (m_svsPubSub f)) = [] \<and>
    acknowledgements (pubs (m_svsPubSub f)) =
      map (\<lambda>u. (backName S (m_applicationName d) (edge_id up), ackPayload J (sub_seqNo u))) (units_of (concat batches)) \<and>
    reads S subs (edge_id up) f = Some {0}"
  by (rule wordcount_run_trace [OF assms])

theorem wordcount_process_counts_witness:
  "\<exists>f s. wordcount_main ref_ndn word_count_json word_count_env
      [[unit_event ''l2w'' ''The'' 1], [unit_event ''l2w'' ''a'' 2, unit_event ''l2w'' ''the'' 3]]
      [''wordcount'', ''../application-DAG.json''] = Live (f, s) \<and> count_of (wordCountMap s) ''the'' = 2"
proof -
  let ?b = "[[unit_event ''l2w'' ''The'' 1], [unit_event ''l2w'' ''a'' 2, unit_event ''l2w'' ''the'' 3]]"
  have "list_all (list_all (undisturbed word_count_json ''l2w'')) ?b" by simp
  from wordcount_process_counts [OF ref_svs.svs_axioms example_ready(3) [OF this]] obtain f s where
    f: "wordcount_main ref_ndn word_count_json word_count_env ?b [''wordcount'', ''../application-DAG.json''] = Live (f, s)"
    and counts: "\<forall>w. count_of (wordCountMap s) w = int (count (mset (map (map tolower) (concat (map (words \<circ> string_of_bytes)
      (delivered ?b))))) w)"
    by blast
  from counts have "count_of (wordCountMap s) ''the'' = 2"
    by (simp add: words_def is_space_def lower_chars)
  with f show ?thesis by blast
qed

text \<open>
  C2: the application counts the words of the text. Run one \<open>text2lines\<close>, two \<open>lines2words\<close> and one
  \<open>wordcount\<close> process from their command lines. If the first one has pushed every line, its units
  were delivered to the two next ones once each, in any order and split in any way, and the units of
  these two to the last one once each, then that process has counted every word of the source
  file exactly as often as it occurs, in lower case. (A count is an \<open>int\<close> in the code: the statement
  is about texts in which no word occurs \<open>2 ^ 31\<close> times.)
\<close>

theorem word_count_processes:
  assumes "svs S invar used subs pubs store"
    and "text2lines_ready J E\<^sub>1 turns argv\<^sub>1 d\<^sub>1 n\<^sub>1 text" and "length (getlines text) \<le> pushes_in turns"
    and "lines2words_ready J E\<^sub>2 batches\<^sub>2 argv\<^sub>2 d\<^sub>2 n\<^sub>2 up\<^sub>2 i\<^sub>2"
    and "lines2words_ready J E\<^sub>3 batches\<^sub>3 argv\<^sub>3 d\<^sub>3 n\<^sub>3 up\<^sub>3 i\<^sub>3"
    and "wordcount_ready J E\<^sub>4 batches\<^sub>4 argv\<^sub>4 d\<^sub>4 n\<^sub>4 up\<^sub>4"
    and "\<And>t. text2lines_main S J E\<^sub>1 turns argv\<^sub>1 = Live t \<Longrightarrow>
      mset (delivered batches\<^sub>2 @ delivered batches\<^sub>3) = mset (unit_payloads (pubs (m_svsPubSub (node t))))"
    and "\<And>f s g t. lines2words_main S J E\<^sub>2 batches\<^sub>2 argv\<^sub>2 = Live (f, s) \<Longrightarrow>
      lines2words_main S J E\<^sub>3 batches\<^sub>3 argv\<^sub>3 = Live (g, t) \<Longrightarrow>
      mset (delivered batches\<^sub>4) =
        mset (unit_payloads (pubs (m_svsPubSub f)) @ unit_payloads (pubs (m_svsPubSub g)))"
  shows "\<exists>f s. wordcount_main S J E\<^sub>4 batches\<^sub>4 argv\<^sub>4 = Live (f, s) \<and>
    (\<forall>w. count_of (wordCountMap s) w = int (count (mset (map (map tolower) (words text))) w))"
proof -
  obtain t where "text2lines_main S J E\<^sub>1 turns argv\<^sub>1 = Live t"
    and "unit_payloads (pubs (m_svsPubSub (node t))) = map bytes_of_string (getlines text)"
    using text2lines_run_trace [OF assms(1,2)] assms(3) by auto
  with assms(7) have lines: "mset (delivered batches\<^sub>2 @ delivered batches\<^sub>3) = mset (map bytes_of_string (getlines text))"
    by simp
  obtain f s where f: "lines2words_main S J E\<^sub>2 batches\<^sub>2 argv\<^sub>2 = Live (f, s)"
    "unit_payloads (pubs (m_svsPubSub f)) = concat (map words_out (delivered batches\<^sub>2))"
    using lines2words_run_trace [OF assms(1,4)] by (elim exE conjE)
  obtain g t where g: "lines2words_main S J E\<^sub>3 batches\<^sub>3 argv\<^sub>3 = Live (g, t)"
    "unit_payloads (pubs (m_svsPubSub g)) = concat (map words_out (delivered batches\<^sub>3))"
    using lines2words_run_trace [OF assms(1,5)] by (elim exE conjE)
  have "mset (delivered batches\<^sub>4) = mset (concat (map words_out (delivered batches\<^sub>2 @ delivered batches\<^sub>3)))"
    using assms(8) [OF f(1) g(1)] unfolding f(2) g(2) by simp
  from counted_words [OF lines this] wordcount_run_trace [OF assms(1,6)] show ?thesis
    by (elim exE conjE) (intro exI conjI, assumption, simp)
qed

theorem word_count_processes_witness:
  "\<exists>f s. wordcount_main ref_ndn word_count_json word_count_env
      [[unit_event ''l2w'' ''The'' 1], [unit_event ''l2w'' ''a'' 2, unit_event ''l2w'' ''the'' 3]]
      [''wordcount'', ''../application-DAG.json''] = Live (f, s) \<and> count_of (wordCountMap s) ''the'' = 2"
proof -
  let ?t = "[Push_turn, Push_turn :: component list turn]"
  let ?b2 = "[[unit_event ''t2l'' ''the'' 2]]" and ?b3 = "[[unit_event ''t2l'' ''a The'' 1]]"
    and ?b4 = "[[unit_event ''l2w'' ''The'' 1], [unit_event ''l2w'' ''a'' 2, unit_event ''l2w'' ''the'' 3]]"
  have "list_all (turn_undisturbed word_count_json) ?t"
    "list_all (list_all (undisturbed word_count_json ''t2l'')) ?b2"
    "list_all (list_all (undisturbed word_count_json ''t2l'')) ?b3"
    "list_all (list_all (undisturbed word_count_json ''l2w'')) ?b4" by simp_all
  note ready = example_ready(1) [OF this(1)] example_ready(2) [OF this(2) stoi_examples(1)]
    example_ready(2) [OF this(3) stoi_examples(2)] example_ready(3) [OF this(4)]
  have len: "length (getlines two_lines) \<le> pushes_in ?t" by (simp add: two_lines_parts pushes_in_def)
  have t2l: "mset (delivered ?b2 @ delivered ?b3) = mset (unit_payloads (rs_pubs (m_svsPubSub (node t))))"
    if t: "text2lines_main ref_ndn word_count_json word_count_env ?t [''text2lines'', ''../application-DAG.json''] = Live t" for t
    using text2lines_run_trace [OF ref_svs.svs_axioms ready(1)] t
    by (auto simp: pushes_in_def two_lines_parts)
  have l2w: "mset (delivered ?b4) = mset (unit_payloads (rs_pubs (m_svsPubSub f)) @ unit_payloads (rs_pubs (m_svsPubSub g)))"
    if f: "lines2words_main ref_ndn word_count_json word_count_env ?b2
        [''lines2words'', ''../application-DAG.json'', ''1'', ''2''] = Live (f, s)"
      and g: "lines2words_main ref_ndn word_count_json word_count_env ?b3
        [''lines2words'', ''../application-DAG.json'', ''2'', ''2''] = Live (g, t)" for f s g t
    using lines2words_run_trace [OF ref_svs.svs_axioms ready(2)] lines2words_run_trace [OF ref_svs.svs_axioms ready(3)] f g
    by (auto simp: two_lines_parts)
  have "\<exists>f s. wordcount_main ref_ndn word_count_json word_count_env ?b4 [''wordcount'', ''../application-DAG.json''] =
      Live (f, s) \<and> (\<forall>w. count_of (wordCountMap s) w = int (count (mset (map (map tolower) (words two_lines))) w))"
    by (rule word_count_processes [OF ref_svs.svs_axioms ready(1) len ready(2-4)])
      (erule t2l, erule (1) l2w)
  then obtain f s where
    "wordcount_main ref_ndn word_count_json word_count_env ?b4 [''wordcount'', ''../application-DAG.json''] = Live (f, s)"
    and counts: "\<forall>w. count_of (wordCountMap s) w = int (count (mset (map (map tolower) (words two_lines))) w)"
    by blast
  moreover from counts have "count_of (wordCountMap s) ''the'' = 2" by (simp add: two_lines_parts lower_chars)
  ultimately show ?thesis by blast
qed

text \<open>
  C38: the two instances started by the scripts leave partition 0 unread. The scripts
  \<open>start_lines2words1.sh\<close> and \<open>start_lines2words2.sh\<close> start the instances 1 and 2. Both come up;
  every partition from 1 to \<open>maxPartitions\<close> is read by exactly one of them and partition 0 by
  neither, while the producer draws from 0 to \<open>maxPartitions - 1\<close>.
\<close>

theorem start_scripts_skip_partition_zero:
  assumes "svs S invar used subs pubs store"
    and "lines2words_ready J E\<^sub>1 batches\<^sub>1 argv\<^sub>1 d n up 1" and "lines2words_ready J E\<^sub>2 batches\<^sub>2 argv\<^sub>2 d n up 2"
  shows "\<exists>f s g t R\<^sub>1 R\<^sub>2. lines2words_main S J E\<^sub>1 batches\<^sub>1 argv\<^sub>1 = Live (f, s) \<and>
    lines2words_main S J E\<^sub>2 batches\<^sub>2 argv\<^sub>2 = Live (g, t) \<and>
    reads S subs (edge_id up) f = Some R\<^sub>1 \<and> reads S subs (edge_id up) g = Some R\<^sub>2 \<and>
    R\<^sub>1 \<union> R\<^sub>2 = {p. 0 < p \<and> p \<le> maxPartitions up} \<and> R\<^sub>1 \<inter> R\<^sub>2 = {}"
proof -
  obtain f s where f: "lines2words_main S J E\<^sub>1 batches\<^sub>1 argv\<^sub>1 = Live (f, s)"
    "reads S subs (edge_id up) f = Some {p. p \<le> maxPartitions up \<and> 0 < p \<and> odd (unat p)}"
    using lines2words_run_trace [OF assms(1,2)] instance_parity(1) by auto
  obtain g t where g: "lines2words_main S J E\<^sub>2 batches\<^sub>2 argv\<^sub>2 = Live (g, t)"
    "reads S subs (edge_id up) g = Some {p. p \<le> maxPartitions up \<and> 0 < p \<and> even (unat p)}"
    using lines2words_run_trace [OF assms(1,3)] instance_parity(2) by auto
  show ?thesis by (intro exI conjI, rule f(1), rule g(1), rule f(2), rule g(2)) blast+
qed

theorem start_scripts_skip_partition_zero_witness:
  "\<exists>f s g t R\<^sub>1 R\<^sub>2. lines2words_main ref_ndn word_count_json word_count_env []
       [''lines2words'', ''../application-DAG.json'', ''1'', ''2''] = Live (f, s) \<and>
     lines2words_main ref_ndn word_count_json word_count_env []
       [''lines2words'', ''../application-DAG.json'', ''2'', ''2''] = Live (g, t) \<and>
     reads ref_ndn ref_subs ''t2l'' f = Some R\<^sub>1 \<and> reads ref_ndn ref_subs ''t2l'' g = Some R\<^sub>2 \<and>
     R\<^sub>1 \<union> R\<^sub>2 = {p. 0 < p \<and> p \<le> 3}"
proof -
  have "list_all (list_all (undisturbed word_count_json ''t2l'')) ([] :: component list face_event list list)" by simp
  from start_scripts_skip_partition_zero [OF ref_svs.svs_axioms example_ready(2) [OF this stoi_examples(1)]
      example_ready(2) [OF this stoi_examples(2)]]
  show ?thesis by auto
qed

end
