(* ===== verification/Process_Ends.thy ===== *)
theory Process_Ends
  imports Processes
begin

text \<open>
  How the processes of the word count example end: their exit statuses, what a build with gRPC does
  without the path it needs, and what an interrupt leaves on disk.
\<close>

section \<open>Invariants of the application state\<close>

text \<open>A property of the application state that every callback keeps, at each of its pushes too.\<close>

definition app_keeps :: "('a \<Rightarrow> bool) \<Rightarrow> ('u, 'a) application \<Rightarrow> bool" where
  "app_keeps I app \<longleftrightarrow> (\<forall>u d a. I a \<longrightarrow> I (snd (run_plain app u d a)) \<and>
     I (snd (snd (run_prosumer app u d a))) \<and> list_all (\<lambda>x. I (snd (snd x))) (fst (run_prosumer app u d a)))"

lemma runScript_keeps:
  "I a \<Longrightarrow> list_all (\<lambda>x. I (snd (snd x))) pushes \<Longrightarrow> I (snd (snd (runScript S pushes r a f)))"
  by (induction S pushes r a f rule: runScript.induct) (auto split: prod.split sum.split)

lemma invokeCallback_keeps:
  assumes "app_keeps I app" and "I a"
  shows "I (snd (snd (invokeCallback S app cb d (f, a))))"
proof (cases cb)
  case (Plain u)
  with assms show ?thesis by (simp add: app_keeps_def split_beta)
next
  case (Prosumer u)
  have "I (snd (snd (run_prosumer app u d a)))"
    and "list_all (\<lambda>x. I (snd (snd x))) (fst (run_prosumer app u d a))"
    using assms by (simp_all add: app_keeps_def)
  with Prosumer show ?thesis by (simp add: split_beta runScript_keeps)
qed

lemma handleEvent_keeps:
  assumes "app_keeps I app" and "I a"
  shows "I (snd (snd (handleEvent S J app ev (f, a))))"
proof (cases ev)
  case (Arrived b d now)
  show ?thesis
  proof (cases b)
    case (Consumer_callback e)
    have "I (snd (snd (onConsumerData S J app e d now (f, a))))"
      using invokeCallback_keeps [OF assms] assms(2)
      by (auto simp: onConsumerData_def subscribeCallBack_def Let_def split_beta
          split: option.split prod.split sum.split)
    with Arrived Consumer_callback show ?thesis by simp
  next
    case (Backchannel_handler np sp)
    with Arrived assms(2) show ?thesis by (simp add: split_beta)
  qed
qed (use assms(2) in simp_all)

lemma processEvents_keeps:
  assumes "app_keeps I app" and "I a"
  shows "I (snd (snd (processEvents S J app evs (f, a))))"
  using assms(2)
proof (induction evs arbitrary: f a)
  case (Cons ev evs)
  obtain r g b where ev: "handleEvent S J app ev (f, a) = (r, g, b)" by (rule prod_cases3)
  with handleEvent_keeps [OF assms(1) Cons.prems, of S J ev f] have "I b" by simp
  with ev Cons.IH [of b g] show ?case by (cases r) simp_all
qed simp

lemma eventLoop_keeps:
  assumes "app_keeps I app" and "I a"
  shows "I (snd (snd (eventLoop S J app batches (f, a))))"
  using assms(2)
proof (induction batches arbitrary: f a)
  case (Cons batch batches)
  obtain r g b where ev: "processEvents S J app batch (f, a) = (r, g, b)" by (rule prod_cases3)
  with processEvents_keeps [OF assms(1) Cons.prems, of S J batch f] have "I b" by simp
  with ev Cons show ?case by (cases r) simp_all
qed simp

lemma runNode_keeps:
  assumes "app_keeps I app" and "I a" and "runNode S J app batches f a = Executing (g, b)"
  shows "I b"
proof -
  obtain r h c where loop: "eventLoop S J app batches (f\<lparr>m_running := True\<rparr>, a) = (r, h, c)"
    by (rule prod_cases3)
  with eventLoop_keeps [OF assms(1,2), of S J batches "f\<lparr>m_running := True\<rparr>"] have "I c" by simp
  with loop assms(3) show ?thesis
    by (cases r) (auto simp: runNode_def Event_Loop.run_def split: if_splits)
qed

section \<open>Measurements under a node prefix\<close>

text \<open>
  The state of a measurement that will never write: its node name has a slash, and the disk, which
  has no folder below the measurements folder, is the given one.
\<close>

definition writes_nowhere :: "file_system \<Rightarrow> 's example_state_scheme \<Rightarrow> bool" where
  "writes_nowhere D s \<longleftrightarrow> CHR ''/'' \<in> set (m_nodeName (measurementHandler s)) \<and> disk s = D \<and> no_subfolder D"

lemma field_nowhere [simp]: "writes_nowhere D s \<Longrightarrow> writes_nowhere D (field clock n s)"
proof -
  assume s: "writes_nowhere D s"
  let ?e = "\<lparr>interest = to_string (nat (m_computeCounter s)), entryname = n, timestamp = clock (readings s), entry_size = 0\<rparr>"
  have "setField (clock (readings s)) (to_string (nat (m_computeCounter s))) n 0 (measurementHandler s) (disk s) =
      foldl setEntry (measurementHandler s, disk s) [?e]"
    by (simp add: setEntry_def)
  with setEntries_blocked [of "measurementHandler s" "disk s" "[?e]"] s show ?thesis
    by (simp add: field_def writes_nowhere_def split_beta)
qed

lemma count_up_nowhere [simp]: "writes_nowhere D (count_up s) \<longleftrightarrow> writes_nowhere D s"
  by (simp add: writes_nowhere_def count_up_def)

lemma splitWords_nowhere:
  "writes_nowhere D s \<Longrightarrow> writes_nowhere D (snd (splitWords clock edge ws s)) \<and>
     list_all (\<lambda>x. writes_nowhere D (snd (snd x))) (fst (splitWords clock edge ws s))"
  by (induction clock edge ws s rule: splitWords.induct) (simp_all add: Let_def split_beta)

lemma splitLines_nowhere:
  "writes_nowhere D s \<Longrightarrow> writes_nowhere D (snd (splitLines clock edge ls s)) \<and>
     list_all (\<lambda>x. writes_nowhere D (snd (snd x))) (fst (splitLines clock edge ls s))"
  by (induction clock edge ls s rule: splitLines.induct) (simp_all add: Let_def split_beta)

lemma countWords_nowhere: "writes_nowhere D s \<Longrightarrow> writes_nowhere D (countWords clock ws s)"
proof (induction clock ws s rule: countWords.induct)
  case (2 clock w ws s)
  have "writes_nowhere D (s\<lparr>wordCountMap := m\<rparr>)" for m using 2 by (simp add: writes_nowhere_def)
  with 2 show ?case by (simp add: Let_def)
qed simp

lemma apps_keep:
  "app_keeps (writes_nowhere D) (lines2words_app clock down)"
  "app_keeps (writes_nowhere D) (wordcount_app clock)"
  using splitWords_nowhere countWords_nowhere
  by (auto simp: app_keeps_def lines2words_app_def wordcount_app_def lines2words_def countWord_def split_beta)

lemma start_nowhere:
  assumes "newIceFlowFromFile S J fs uuid time now file nodeName r = Inr f" and "no_subfolder disk0"
  shows "writes_nowhere (createMeasurementFolder disk0) (start_state nodeName' (m_nodePrefix f) thr disk0)"
proof -
  obtain d where "newIceFlow S uuid time now d nodeName r = Inr f"
    using assms(1) by (auto simp: newIceFlowFromFile_def bindE_Inr_iff)
  then have "m_nodePrefix f = ''/node-'' @ m_applicationName d @ ''/'' @ uuid"
    using newIceFlow_state by blast
  moreover have "no_subfolder (createMeasurementFolder disk0)"
    using assms(2) by (auto simp: no_subfolder_def createMeasurementFolder_def)
  ultimately show ?thesis by (simp add: writes_nowhere_def newMeasurement_def)
qed

lemma interrupted_nowhere:
  assumes "writes_nowhere (createMeasurementFolder disk0) s"
  shows "files (disk s) = files disk0"
    and "signalCallbackHandler signum (Some (measurementHandler s)) (disk s) = Some (signum, disk s)"
  using assms recordToFile_blocked [of "measurementHandler s" "disk s"]
  by (auto simp: writes_nowhere_def signalCallbackHandler_def createMeasurementFolder_def)

lemma lines2words_start_state:
  assumes "lines2words_start S J nodeName k n f fs = Some (Inr (f', s))"
  shows "\<exists>thr. s = start_state nodeName (m_nodePrefix f) thr fs"
  using assms
  by (auto simp: lines2words_start_def bindE_Inr_iff bind_eq_Some_conv Let_def split_beta newMeasurement_disk
      split: sum.splits)

lemma wordcount_start_state:
  assumes "wordcount_start S J nodeName f fs = Inr (f', s)"
  shows "\<exists>thr. s = example_state.extend (start_state nodeName (m_nodePrefix f) thr fs) (wordcount_state.fields [])"
  using assms
  by (auto simp: wordcount_start_def bindE_Inr_iff Let_def split_beta newMeasurement_disk
      example_state.extend_def wordcount_state.fields_def)

lemma text2lines_start_state:
  assumes "text2lines_start J nodeName f fs = Inr (e, name, s)"
  shows "\<exists>thr. s = start_state nodeName (m_nodePrefix f) thr fs"
  using assms
  by (auto simp: text2lines_start_def bindE_Inr_iff Let_def split_beta newMeasurement_disk)

lemma lines2words_nowhere:
  assumes "lines2words_main S J E batches argv = Live (f, s)" and "no_subfolder (start_disk E)"
  shows "writes_nowhere (createMeasurementFolder (start_disk E)) s"
proof -
  obtain i k where "lines2words_run S J E batches ''lines2words'' (argv ! 1) i k = Executing (f, s)"
    using assms(1) by (auto simp: lines2words_main_def dest!: main_live split: if_splits sum.splits)
  then obtain f0 f1 s1 down where
    f0: "newIceFlowFromFile S J (dag_files E) (node_uuid E) (seed_time E) (start_time E)
      (argv ! 1) ''lines2words'' None = Inr f0"
    and start: "lines2words_start S J ''lines2words'' i k f0 (start_disk E) = Some (Inr (f1, s1))"
    and run: "runNode S J (lines2words_app (wall_clock E) down) batches f1 s1 = Executing (f, s)"
    by (auto simp: lines2words_run_def split: sum.splits option.splits)
  obtain thr where "s1 = start_state ''lines2words'' (m_nodePrefix f0) thr (start_disk E)"
    using lines2words_start_state [OF start] by blast
  then have "writes_nowhere (createMeasurementFolder (start_disk E)) s1"
    using start_nowhere [OF f0 assms(2)] by simp
  from runNode_keeps [OF apps_keep(1) this run] show ?thesis .
qed

lemma wordcount_nowhere:
  assumes "wordcount_main S J E batches argv = Live (f, s)" and "no_subfolder (start_disk E)"
  shows "writes_nowhere (createMeasurementFolder (start_disk E)) s"
proof -
  have "wordcount_run S J E batches ''wordcount'' (argv ! 1) = Executing (f, s)"
    using assms(1) by (auto simp: wordcount_main_def dest!: main_live split: if_splits)
  then obtain f0 f1 s1 where
    f0: "newIceFlowFromFile S J (dag_files E) (node_uuid E) (seed_time E) (start_time E)
      (argv ! 1) ''wordcount'' None = Inr f0"
    and start: "wordcount_start S J ''wordcount'' f0 (start_disk E) = Inr (f1, s1)"
    and run: "runNode S J (wordcount_app (wall_clock E)) batches f1 s1 = Executing (f, s)"
    by (auto simp: wordcount_run_def bindE_Inr_iff split: sum.splits)
  obtain thr where "s1 = example_state.extend
      (start_state ''wordcount'' (m_nodePrefix f0) thr (start_disk E)) (wordcount_state.fields [])"
    using wordcount_start_state [OF start] by blast
  then have "writes_nowhere (createMeasurementFolder (start_disk E)) s1"
    using start_nowhere [OF f0 assms(2)]
    by (simp add: writes_nowhere_def example_state.extend_def)
  from runNode_keeps [OF apps_keep(2) this run] show ?thesis .
qed

definition threads_nowhere :: "file_system \<Rightarrow> ('ps, 'j) text2lines_threads \<Rightarrow> bool" where
  "threads_nowhere D t \<longleftrightarrow> writes_nowhere D (app_state t) \<and> list_all (\<lambda>x. writes_nowhere D (snd (snd x))) (pending t)"

lemma threadTurn_nowhere:
  assumes "threads_nowhere D t" and "threadTurn S J turn t = Some t'"
  shows "threads_nowhere D t'"
proof (cases turn)
  case (Loop_turn batch)
  then have "app_state t' = app_state t \<and> pending t' = pending t"
    using assms(2) by (auto simp: Let_def split: if_splits prod.splits sum.splits)
  with assms(1) show ?thesis by (simp add: threads_nowhere_def)
next
  case Push_turn
  with assms show ?thesis
    by (auto simp: threads_nowhere_def split: list.splits prod.splits sum.splits)
qed

lemma threadTurns_nowhere:
  "threads_nowhere D t \<Longrightarrow> threadTurns S J turns t = Some t' \<Longrightarrow> threads_nowhere D t'"
  by (induction S J turns t rule: threadTurns.induct) (auto simp: bind_eq_Some_conv intro: threadTurn_nowhere)

lemma text2lines_nowhere:
  assumes "text2lines_main S J E turns argv = Live t" and "no_subfolder (start_disk E)"
  shows "writes_nowhere (createMeasurementFolder (start_disk E)) (app_state t)"
proof -
  let ?D = "createMeasurementFolder (start_disk E)"
  have "text2lines_run S J E turns ''text2lines'' (argv ! 1) = Executing t"
    using assms(1) by (auto simp: text2lines_main_def dest!: main_live split: if_splits)
  then obtain f down name s pushes r s' t1 where
    f: "newIceFlowFromFile S J (dag_files E) (node_uuid E) (seed_time E) (start_time E)
      (argv ! 1) ''text2lines'' None = Inr f"
    and start: "text2lines_start J ''text2lines'' f (start_disk E) = Inr (down, name, s)"
    and script: "text2lines (wall_clock E) down (text_files E name) s = (pushes, r, s')"
    and turns: "threadTurns S J turns \<lparr>node = f, app_state = s, loop_begun = False, pending = pushes\<rparr> = Some t1"
    and t: "t = (if pending t1 = [] then t1\<lparr>app_state := s'\<rparr> else t1)"
    by (auto simp: text2lines_run_def Let_def split: sum.splits option.splits prod.splits if_splits)
  obtain thr where "s = start_state ''text2lines'' (m_nodePrefix f) thr (start_disk E)"
    using text2lines_start_state [OF start] by blast
  then have s: "writes_nowhere ?D s" using start_nowhere [OF f assms(2)] by simp
  then have "writes_nowhere ?D (s\<lparr>m_computeCounter := 0\<rparr>)" by (simp add: writes_nowhere_def)
  with s have "writes_nowhere ?D s' \<and> list_all (\<lambda>x. writes_nowhere ?D (snd (snd x))) pushes"
    using script splitLines_nowhere [of ?D "s\<lparr>m_computeCounter := 0\<rparr>" "wall_clock E" down]
    by (auto simp: text2lines_def split_beta Let_def split: option.splits)
  with s threadTurns_nowhere [OF _ turns, of ?D] t show ?thesis by (auto simp: threads_nowhere_def)
qed

section \<open>Starting without a path for gRPC\<close>

lemma no_path:
  assumes "m_node f = n" and "map_of (node_applicationConfiguration n) ''grpcPath'' = None"
  shows "startGrpc J (E\<lparr>use_grpc := True\<rparr>) f = Inl Bad_optional_access"
  using assms by (simp add: startGrpc_def getApplicationParameter_def valueE_def)

lemma subscribed_config:
  "fresh_node S invar used subs pubs uuid d n f \<Longrightarrow> subscribed_node S invar subs pubs cb e r f f' \<Longrightarrow> m_node f' = n"
  by (simp add: fresh_node_def subscribed_node_def)

section \<open>Properties\<close>

text \<open>
  C39: the programs never write a measurement. When the disk has no folder below \<open>measurements\<close>,
  a process of any of the three programs that is up, whatever it was sent (exceptions of the face
  and shutdowns included), has written no file; an interrupt makes it leave with the number of the
  signal, still without having written one: the entries are lost.
\<close>

theorem measurements_never_written:
  assumes "no_subfolder (start_disk E)"
  shows "(case lines2words_main S J E batches argv of
      Live (f, s) \<Rightarrow> files (disk s) = files (start_disk E) \<and>
        signalCallbackHandler signum (Some (measurementHandler s)) (disk s) = Some (signum, disk s)
    | _ \<Rightarrow> True) \<and>
   (case wordcount_main S J E batches argv of
      Live (f, s) \<Rightarrow> files (disk s) = files (start_disk E) \<and>
        signalCallbackHandler signum (Some (measurementHandler s)) (disk s) = Some (signum, disk s)
    | _ \<Rightarrow> True) \<and>
   (case text2lines_main S J E turns argv of
      Live t \<Rightarrow> files (disk (app_state t)) = files (start_disk E) \<and>
        signalCallbackHandler signum (Some (measurementHandler (app_state t))) (disk (app_state t)) =
          Some (signum, disk (app_state t))
    | _ \<Rightarrow> True)"
proof (intro conjI)
  show "case lines2words_main S J E batches argv of
      Live (f, s) \<Rightarrow> files (disk s) = files (start_disk E) \<and>
        signalCallbackHandler signum (Some (measurementHandler s)) (disk s) = Some (signum, disk s)
    | _ \<Rightarrow> True"
    using interrupted_nowhere [OF lines2words_nowhere [OF _ assms]]
    by (auto split: process.split)
  show "case wordcount_main S J E batches argv of
      Live (f, s) \<Rightarrow> files (disk s) = files (start_disk E) \<and>
        signalCallbackHandler signum (Some (measurementHandler s)) (disk s) = Some (signum, disk s)
    | _ \<Rightarrow> True"
    using interrupted_nowhere [OF wordcount_nowhere [OF _ assms]]
    by (auto split: process.split)
  show "case text2lines_main S J E turns argv of
      Live t \<Rightarrow> files (disk (app_state t)) = files (start_disk E) \<and>
        signalCallbackHandler signum (Some (measurementHandler (app_state t))) (disk (app_state t)) =
          Some (signum, disk (app_state t))
    | _ \<Rightarrow> True"
    using interrupted_nowhere [OF text2lines_nowhere [OF _ assms]]
    by (auto split: process.split)
qed

theorem measurements_never_written_witness:
  "\<exists>f s. lines2words_main ref_ndn word_count_json word_count_env [[unit_event ''t2l'' ''a The'' 5]]
      [''lines2words'', ''../application-DAG.json'', ''1'', ''2''] = Live (f, s) \<and>
    files (disk s) = Map.empty \<and>
    signalCallbackHandler 2 (Some (measurementHandler s)) (disk s) = Some (2, disk s)"
proof -
  have "list_all (list_all (undisturbed word_count_json ''t2l'')) [[unit_event ''t2l'' ''a The'' 5]]" by simp
  from lines2words_run_trace [OF ref_svs.svs_axioms example_ready(2) [OF this stoi_examples(1)]] obtain f s where
    f: "lines2words_main ref_ndn word_count_json word_count_env [[unit_event ''t2l'' ''a The'' 5]]
      [''lines2words'', ''../application-DAG.json'', ''1'', ''2''] = Live (f, s)"
    by (elim exE conjE)
  have "start_disk word_count_env = empty_fs" by (simp add: word_count_env_def)
  moreover from this have "no_subfolder (start_disk word_count_env)" by (simp add: no_subfolder_def empty_fs_def)
  note measurements_never_written [OF this, where S = ref_ndn and J = word_count_json and
      batches = "[[unit_event ''t2l'' ''a The'' 5]]" and signum = 2 and
      argv = "[''lines2words'', ''../application-DAG.json'', ''1'', ''2'']", unfolded f]
  ultimately show ?thesis using f by (auto simp: empty_fs_def)
qed

text \<open>
  A start that fails does not show in the exit status: when \<open>lines2words\<close> leaves, its status is 1 for
  a wrong number of arguments and 0 otherwise; so it is for an argument that is no number and for a
  DAG file that cannot be opened.
\<close>

theorem exit_status:
  "(lines2words_main S J E batches argv = Exited c \<longrightarrow> c = (if length argv = 4 then 0 else 1)) \<and>
   (length argv = 4 \<and> stoi (argv ! 2) = Inl e \<longrightarrow> lines2words_main S J E batches argv = Exited 0) \<and>
   (length argv = 4 \<and> stoi (argv ! 2) = Inr i \<and> stoi (argv ! 3) = Inr k \<and> dag_files E (argv ! 1) = None \<longrightarrow>
      lines2words_main S J E batches argv = Exited 0)"
proof -
  have "mainProcess r = Exited c \<longrightarrow> c = 0" for r :: "(('a, 'b, unit) IceFlow \<times> example_state) run_outcome"
    by (cases r) auto
  moreover have "stoi s = Inl e \<Longrightarrow> is_std_exception e" for s
    by (auto simp: stoi_def Let_def split: if_splits)
  ultimately show ?thesis
    by (auto simp: lines2words_main_def lines2words_run_def newIceFlowFromFile_def parseFromFile_def)
qed

text \<open>
  C40: a build with gRPC does not run the application of the repository. Take programs that come up
  without gRPC, on DAG nodes without the parameter \<open>grpcPath\<close>. Built with gRPC, \<open>lines2words\<close> and
  \<open>wordcount\<close> leave with exit status 0 before their event loop has begun, and \<open>text2lines\<close> is
  terminated, as its threads are running when the exception is thrown.
\<close>

theorem grpc_build_needs_path:
  assumes "svs S invar used subs pubs store"
    and "lines2words_ready J E batches argv d n up i" and "map_of (node_applicationConfiguration n) ''grpcPath'' = None"
    and "wordcount_ready J E' batches' argv' d' n' up'" and "map_of (node_applicationConfiguration n') ''grpcPath'' = None"
    and "text2lines_ready J E'' turns argv'' d'' n'' text"
    and "map_of (node_applicationConfiguration n'') ''grpcPath'' = None"
  shows "lines2words_main S J (E\<lparr>use_grpc := True\<rparr>) batches argv = Exited 0 \<and>
    wordcount_main S J (E'\<lparr>use_grpc := True\<rparr>) batches' argv' = Exited 0 \<and>
    text2lines_main S J (E''\<lparr>use_grpc := True\<rparr>) turns argv'' = Aborted"
proof (intro conjI)
  obtain f :: "('a, 'c, unit) IceFlow" and f' down k thr where
    f: "newIceFlowFromFile S J (dag_files E) (node_uuid E) (seed_time E) (start_time E) (argv ! 1)
        ''lines2words'' None = Inr f" "fresh_node S invar used subs pubs (node_uuid E) d n f"
    and k: "stoi (argv ! 3) = Inr k"
    and start: "lines2words_start S J ''lines2words'' (word_of_int i) (word_of_int k) f (start_disk E) =
      Some (Inr (f', start_state ''lines2words'' (m_nodePrefix f) thr (start_disk E)))"
    and sub: "subscribed_node S invar subs pubs (Prosumer ()) (edge_id up)
      {p. word_of_int i \<le> p \<and> p \<le> maxPartitions up \<and> (unat p - unat (word_of_int i :: u32)) mod 2 = 0} f f'"
    using lines2words_startup [OF assms(1,2)] by (elim exE conjE)
  have "length argv = 4" "stoi (argv ! 2) = Inr i" using assms(2) by (simp_all add: lines2words_ready_def)
  with f(1) k start no_path [OF subscribed_config [OF f(2) sub] assms(3)]
  show "lines2words_main S J (E\<lparr>use_grpc := True\<rparr>) batches argv = Exited 0"
    by (simp add: lines2words_main_def lines2words_run_def)
next
  obtain f :: "('a, 'c, unit) IceFlow" and f' thr where
    f: "newIceFlowFromFile S J (dag_files E') (node_uuid E') (seed_time E') (start_time E') (argv' ! 1)
        ''wordcount'' None = Inr f" "fresh_node S invar used subs pubs (node_uuid E') d' n' f"
    and start: "wordcount_start S J ''wordcount'' f (start_disk E') = Inr (f', example_state.extend
      (start_state ''wordcount'' (m_nodePrefix f) thr (start_disk E')) (wordcount_state.fields []))"
    and sub: "subscribed_node S invar subs pubs (Plain ()) (edge_id up') {0} f f'"
    using wordcount_startup [OF assms(1,4)] by (elim exE conjE)
  have "length argv' = 2" using assms(4) by (simp add: wordcount_ready_def)
  with f(1) start no_path [OF subscribed_config [OF f(2) sub] assms(5)]
  show "wordcount_main S J (E'\<lparr>use_grpc := True\<rparr>) batches' argv' = Exited 0"
    by (simp add: wordcount_main_def wordcount_run_def)
next
  obtain f :: "('a, 'c, unit) IceFlow" and down :: "'c Edge" and name thr where
    f: "newIceFlowFromFile S J (dag_files E'') (node_uuid E'') (seed_time E'') (start_time E'') (argv'' ! 1)
        ''text2lines'' None = Inr f" "fresh_node S invar used subs pubs (node_uuid E'') d'' n'' f"
    and start: "text2lines_start J ''text2lines'' f (start_disk E'') =
      Inr (edge_id down, name, start_state ''text2lines'' (m_nodePrefix f) thr (start_disk E''))"
    using text2lines_startup [OF assms(1,6)] by (elim exE conjE)
  have "length argv'' = 2" using assms(6) by (simp add: text2lines_ready_def)
  moreover have "m_node f = n''" using f(2) by (simp add: fresh_node_def)
  ultimately show "text2lines_main S J (E''\<lparr>use_grpc := True\<rparr>) turns argv'' = Aborted"
    using f(1) start
    by (simp add: text2lines_main_def text2lines_run_def split_beta Let_def no_path [OF _ assms(7)])
qed

theorem grpc_build_needs_path_witness:
  "lines2words_main ref_ndn word_count_json (word_count_env\<lparr>use_grpc := True\<rparr>) []
     [''lines2words'', ''../application-DAG.json'', ''1'', ''2''] = Exited 0 \<and>
   text2lines_main ref_ndn word_count_json (word_count_env\<lparr>use_grpc := True\<rparr>) []
     [''text2lines'', ''../application-DAG.json''] = Aborted"
proof -
  have b: "list_all (list_all (undisturbed word_count_json e)) ([] :: component list face_event list list)"
    "list_all (turn_undisturbed word_count_json) ([] :: component list turn list)" for e by simp_all
  have "list_all (\<lambda>n. map_of (node_applicationConfiguration n) ''grpcPath'' = None) word_count_nodes"
    by (simp add: word_count_nodes_def task_node_def)
  then have "map_of (node_applicationConfiguration (word_count_nodes ! k)) ''grpcPath'' = None"
    if "k < length word_count_nodes" for k
    using that by (simp add: list_all_length)
  from this [of 0] this [of 1] this [of 2] show ?thesis
    using grpc_build_needs_path [OF ref_svs.svs_axioms example_ready(2) [OF b(1) stoi_examples(1)] _
        example_ready(3) [OF b(1)] _ example_ready(1) [OF b(2)]]
    by (simp add: word_count_nodes_def)
qed

end
