(* ===== verification/Ring_Buffer.thy ===== *)
theory Ring_Buffer
  imports Prelude "HOL-Library.Sublist"
begin

text \<open>
  \<open>RingBuffer<T>\<close>: \<open>include/iceflow/ringbuffer.hpp\<close>. \<open>boost::circular_buffer\<close> is outside the
  repository: a parameter, with its documented behaviour as a locale. Each operation runs its
  critical section under the mutex, so it is a function of the queue; waiting, unlocking before
  \<open>notify_all\<close>, and spurious wake-ups are steps of a transition relation between threads. The
  members that call \<open>m_queue.pop()\<close>, which \<open>boost::circular_buffer\<close> does not have, are in \<open>Ring_Pops\<close>.
\<close>

section \<open>The circular buffer\<close>

record ('q, 'a) buffer_ops =
  cb_new :: "nat \<Rightarrow> 'q"
  cb_push_back :: "'q \<Rightarrow> 'a \<Rightarrow> 'q"
  cb_front :: "'q \<Rightarrow> 'a"
  cb_pop_front :: "'q \<Rightarrow> 'q"
  cb_size :: "'q \<Rightarrow> nat"

locale circular_buffer =
  fixes B :: "('q, 'a) buffer_ops"
    and contents :: "'q \<Rightarrow> 'a list"
    and capacity :: "'q \<Rightarrow> nat"
  assumes new: "contents (cb_new B n) = []" "capacity (cb_new B n) = n"
    and push_back:
      "0 < capacity q \<Longrightarrow> contents (cb_push_back B q x) =
         (if length (contents q) < capacity q then contents q else tl (contents q)) @ [x]"
    and push_back_capacity: "capacity (cb_push_back B q x) = capacity q"
    and front: "contents q \<noteq> [] \<Longrightarrow> cb_front B q = hd (contents q)"
    and pop_front: "contents q \<noteq> [] \<Longrightarrow> contents (cb_pop_front B q) = tl (contents q)"
    and pop_front_capacity: "capacity (cb_pop_front B q) = capacity q"
    and size: "cb_size B q = length (contents q)"
begin

lemma push_back_bounded:
  "0 < capacity q \<Longrightarrow> length (contents q) \<le> capacity q \<Longrightarrow>
     length (contents (cb_push_back B q x)) \<le> capacity q"
  by (auto simp: push_back)

lemma push_back_room:
  "length (contents q) < capacity q \<Longrightarrow> contents (cb_push_back B q x) = contents q @ [x]"
  by (cases "0 < capacity q") (auto simp: push_back)

lemma push_back_subseq:
  "0 < capacity q \<Longrightarrow> subseq (contents (cb_push_back B q x)) (contents q @ [x])"
proof -
  have "subseq (tl xs) xs" for xs :: "'a list" by (cases xs) auto
  then show "0 < capacity q \<Longrightarrow> ?thesis" by (auto simp: push_back list_emb_append_mono)
qed

end

text \<open>A reference instance: the capacity and the elements, oldest first.\<close>

definition ref_buffer :: "(nat \<times> 'a list, 'a) buffer_ops" where
  "ref_buffer =
     \<lparr>cb_new = (\<lambda>n. (n, [])),
      cb_push_back = (\<lambda>(n, xs) x.
        (n, if n = 0 then [] else (if length xs < n then xs else tl xs) @ [x])),
      cb_front = (\<lambda>(n, xs). hd xs), cb_pop_front = (\<lambda>(n, xs). (n, tl xs)),
      cb_size = (\<lambda>(n, xs). length xs)\<rparr>"

lemma ref_buffer_sels [simp]:
  "cb_new ref_buffer n = (n, [])"
  "cb_push_back ref_buffer (n, xs) x =
     (n, if n = 0 then [] else (if length xs < n then xs else tl xs) @ [x])"
  "cb_front ref_buffer (n, xs) = hd xs"
  "cb_pop_front ref_buffer (n, xs) = (n, tl xs)"
  "cb_size ref_buffer (n, xs) = length xs"
  by (simp_all add: ref_buffer_def)

interpretation ref_buffer: circular_buffer ref_buffer snd fst
  by unfold_locales (auto simp: ref_buffer_def)

section \<open>The operations\<close>

text \<open>The default constructor allocates 10000 slots; the copy constructor takes the queue over.\<close>

definition newRingBuffer :: "('q, 'a) buffer_ops \<Rightarrow> 'q" where
  "newRingBuffer B = cb_new B 10000"

definition copyRingBuffer :: "'q \<Rightarrow> 'q" where
  "copyRingBuffer other = other"

definition rb_size :: "('q, 'a) buffer_ops \<Rightarrow> 'q \<Rightarrow> int" where
  "rb_size B q = sint (word_of_nat (cb_size B q) :: 32 word)"

definition rb_empty :: "('q, 'a) buffer_ops \<Rightarrow> 'q \<Rightarrow> bool" where
  "rb_empty B q \<longleftrightarrow> cb_size B q = 0"

definition rb_push :: "('q, 'a) buffer_ops \<Rightarrow> 'a \<Rightarrow> 'q \<Rightarrow> 'q" where
  "rb_push B value q = cb_push_back B q value"

text \<open>
  \<open>m_queue.size() >= threshold\<close> compares \<open>size_t\<close> with \<open>int\<close>: the threshold is converted to
  64 unsigned bits. \<open>None\<close> is a call that has to wait.
\<close>

definition size_t_of_int :: "32 word \<Rightarrow> u64" where
  "size_t_of_int threshold = scast threshold"

definition rb_pushData :: "('q, 'a) buffer_ops \<Rightarrow> 'a \<Rightarrow> 32 word \<Rightarrow> 'q \<Rightarrow> 'q option" where
  "rb_pushData B value threshold q =
     (if unat (size_t_of_int threshold) \<le> cb_size B q then None else Some (cb_push_back B q value))"

definition rb_waitAndPopValue :: "('q, 'a) buffer_ops \<Rightarrow> 'q \<Rightarrow> ('a \<times> 'q) option" where
  "rb_waitAndPopValue B q =
     (if rb_empty B q then None else Some (cb_front B q, cb_pop_front B q))"

section \<open>Threads\<close>

text \<open>
  A thread is idle, about to enter its critical section, asleep on the condition variable, or
  past the critical section with \<open>notify_all\<close> still to come. The histories record what was
  pushed and what was returned, in the order of the critical sections.
\<close>

datatype 'a op = Push 'a | PushData 'a "32 word" | Pop

datatype 'a phase = Idle | Ready "'a op" | Asleep "'a op" | Notifying

record ('q, 'a) ring =
  m_queue :: 'q
  threads :: "nat \<Rightarrow> 'a phase"
  pushed :: "'a list"
  popped :: "'a list"

definition newRing :: "('q, 'a) buffer_ops \<Rightarrow> ('q, 'a) ring" where
  "newRing B = \<lparr>m_queue = newRingBuffer B, threads = (\<lambda>_. Idle), pushed = [], popped = []\<rparr>"

fun wake :: "'a phase \<Rightarrow> 'a phase" where
  "wake (Asleep x) = Ready x"
| "wake p = p"

inductive ring_step :: "('q, 'a) buffer_ops \<Rightarrow> ('q, 'a) ring \<Rightarrow> ('q, 'a) ring \<Rightarrow> bool" for B where
  call: "threads s t = Idle \<Longrightarrow> ring_step B s (s\<lparr>threads := (threads s)(t := Ready x)\<rparr>)"
| push: "threads s t = Ready (Push v) \<Longrightarrow>
     ring_step B s (s\<lparr>m_queue := rb_push B v (m_queue s), threads := (threads s)(t := Notifying),
                      pushed := pushed s @ [v]\<rparr>)"
| pushData: "threads s t = Ready (PushData v n) \<Longrightarrow> rb_pushData B v n (m_queue s) = Some q \<Longrightarrow>
     ring_step B s (s\<lparr>m_queue := q, threads := (threads s)(t := Notifying), pushed := pushed s @ [v]\<rparr>)"
| pushData_waits: "threads s t = Ready (PushData v n) \<Longrightarrow> rb_pushData B v n (m_queue s) = None \<Longrightarrow>
     ring_step B s (s\<lparr>threads := (threads s)(t := Asleep (PushData v n))\<rparr>)"
| pop: "threads s t = Ready Pop \<Longrightarrow> rb_waitAndPopValue B (m_queue s) = Some (v, q) \<Longrightarrow>
     ring_step B s (s\<lparr>m_queue := q, threads := (threads s)(t := Notifying), popped := popped s @ [v]\<rparr>)"
| pop_waits: "threads s t = Ready Pop \<Longrightarrow> rb_waitAndPopValue B (m_queue s) = None \<Longrightarrow>
     ring_step B s (s\<lparr>threads := (threads s)(t := Asleep Pop)\<rparr>)"
| notify_all: "threads s t = Notifying \<Longrightarrow>
     ring_step B s (s\<lparr>threads := (\<lambda>u. wake (((threads s)(t := Idle)) u))\<rparr>)"
| spurious: "threads s t = Asleep x \<Longrightarrow> ring_step B s (s\<lparr>threads := (threads s)(t := Ready x)\<rparr>)"

inductive_cases ring_stepE: "ring_step B s s'"

abbreviation ring_reach :: "('q, 'a) buffer_ops \<Rightarrow> ('q, 'a) ring \<Rightarrow> bool" where
  "ring_reach B \<equiv> (ring_step B)\<^sup>*\<^sup>* (newRing B)"

section \<open>Invariants\<close>

text \<open>The operation a sleeping thread waits to complete can be completed on the queue.\<close>

fun can_finish :: "('q, 'a) buffer_ops \<Rightarrow> 'a op \<Rightarrow> 'q \<Rightarrow> bool" where
  "can_finish B (Push v) q = True"
| "can_finish B (PushData v n) q = (rb_pushData B v n q \<noteq> None)"
| "can_finish B Pop q = (rb_waitAndPopValue B q \<noteq> None)"

text \<open>A sleeper that could go on has a wake-up coming.\<close>

definition no_lost_wakeup :: "('q, 'a) buffer_ops \<Rightarrow> ('q, 'a) ring \<Rightarrow> bool" where
  "no_lost_wakeup B s \<longleftrightarrow>
     ((\<exists>t x. threads s t = Asleep x \<and> can_finish B x (m_queue s)) \<longrightarrow> (\<exists>t. threads s t = Notifying))"

lemma wake_asleep [simp]: "wake p \<noteq> Asleep x"
  by (cases p) simp_all

lemma no_lost_wakeup_frame:
  assumes "no_lost_wakeup B s"
    and "\<And>u x. threads s' u = Asleep x \<Longrightarrow> can_finish B x (m_queue s') \<Longrightarrow>
      threads s u = Asleep x \<and> can_finish B x (m_queue s)"
    and "\<And>u. threads s u = Notifying \<Longrightarrow> threads s' u = Notifying"
  shows "no_lost_wakeup B s'"
  using assms unfolding no_lost_wakeup_def by blast

lemma no_lost_wakeup_notifying: "threads s t = Notifying \<Longrightarrow> no_lost_wakeup B s"
  unfolding no_lost_wakeup_def by blast

lemma no_lost_wakeup_step:
  assumes "ring_step B s s'" and "no_lost_wakeup B s"
  shows "no_lost_wakeup B s'"
  using assms(1)
proof (cases rule: ring_step.cases)
  case (call t x)
  show ?thesis by (rule no_lost_wakeup_frame [OF assms(2)]) (use call in \<open>auto split: if_splits\<close>)
next
  case (push t v)
  show ?thesis by (rule no_lost_wakeup_notifying [of _ t]) (simp add: push)
next
  case (pushData t v n q)
  show ?thesis by (rule no_lost_wakeup_notifying [of _ t]) (simp add: pushData)
next
  case (pushData_waits t v n)
  show ?thesis
    by (rule no_lost_wakeup_frame [OF assms(2)]) (use pushData_waits in \<open>auto split: if_splits\<close>)
next
  case (pop t v q)
  show ?thesis by (rule no_lost_wakeup_notifying [of _ t]) (simp add: pop)
next
  case (pop_waits t)
  show ?thesis
    by (rule no_lost_wakeup_frame [OF assms(2)]) (use pop_waits in \<open>auto split: if_splits\<close>)
next
  case (notify_all t)
  then show ?thesis by (simp add: no_lost_wakeup_def)
next
  case (spurious t x)
  show ?thesis by (rule no_lost_wakeup_frame [OF assms(2)]) (use spurious in \<open>auto split: if_splits\<close>)
qed

definition histories :: "('q \<Rightarrow> 'a list) \<Rightarrow> ('q \<Rightarrow> nat) \<Rightarrow> ('q, 'a) ring \<Rightarrow> bool" where
  "histories contents capacity s \<longleftrightarrow>
     capacity (m_queue s) = 10000 \<and> length (contents (m_queue s)) \<le> 10000 \<and>
     subseq (popped s @ contents (m_queue s)) (pushed s)"


text \<open>While every push waits for room, nothing is overwritten.\<close>

definition only_bounded :: "('q, 'a) ring \<Rightarrow> bool" where
  "only_bounded s \<longleftrightarrow> (\<forall>t x. threads s t = Ready x \<or> threads s t = Asleep x \<longrightarrow>
     (case x of Push v \<Rightarrow> False | PushData v n \<Rightarrow> unat (size_t_of_int n) \<le> 10000 | Pop \<Rightarrow> True))"

context circular_buffer
begin

lemma pushData_Some:
  "rb_pushData B v n q = Some q' \<longleftrightarrow>
     length (contents q) < unat (size_t_of_int n) \<and> q' = cb_push_back B q v"
  by (auto simp: rb_pushData_def size)

lemma pop_Some:
  "rb_waitAndPopValue B q = Some (v, q') \<longleftrightarrow>
     contents q \<noteq> [] \<and> v = hd (contents q) \<and> q' = cb_pop_front B q"
  by (auto simp: rb_waitAndPopValue_def rb_empty_def size front)

lemma subseq_push:
  assumes "subseq (ps @ contents q) hist" and "0 < capacity q"
  shows "subseq (ps @ contents (cb_push_back B q v)) (hist @ [v])"
proof -
  have "subseq (ps @ contents (cb_push_back B q v)) (ps @ contents q @ [v])"
    by (rule list_emb_append_mono [OF _ push_back_subseq [OF assms(2)]]) simp
  also have "subseq (ps @ contents q @ [v]) (hist @ [v])"
    using list_emb_append_mono [OF assms(1), of "[v]" "[v]"] by simp
  finally show ?thesis .
qed

lemma histories_step:
  assumes "ring_step B s s'" and "histories contents capacity s"
  shows "histories contents capacity s'"
  using assms(1)
proof (cases rule: ring_step.cases)
  case (push t v)
  with assms(2) show ?thesis
    using subseq_push push_back_bounded [of "m_queue s" v]
    by (simp add: histories_def rb_push_def push_back_capacity)
next
  case (pushData t v n q)
  with assms(2) show ?thesis
    using subseq_push push_back_bounded [of "m_queue s" v]
    by (simp add: histories_def pushData_Some push_back_capacity)
next
  case (pop t v q)
  then have q: "contents (m_queue s) = v # contents q" "capacity q = capacity (m_queue s)"
    by (auto simp: pop_Some pop_front pop_front_capacity)
  with assms(2) pop show ?thesis by (simp add: histories_def)
qed (use assms(2) in \<open>simp_all add: histories_def\<close>)

lemma reach_histories: "ring_reach B s \<Longrightarrow> histories contents capacity s"
proof (induction rule: rtranclp_induct)
  case base
  show ?case by (simp add: histories_def newRing_def newRingBuffer_def new)
next
  case (step s s')
  then show ?case by (blast intro: histories_step)
qed

lemma exact_step:
  assumes "ring_step B s s'" and "only_bounded s" and "histories contents capacity s"
    and "popped s @ contents (m_queue s) = pushed s"
  shows "popped s' @ contents (m_queue s') = pushed s'"
  using assms(1)
proof (cases rule: ring_step.cases)
  case (push t v)
  with assms(2) show ?thesis by (force simp: only_bounded_def)
next
  case (pushData t v n q)
  with assms(2) have "unat (size_t_of_int n) \<le> 10000" by (force simp: only_bounded_def)
  with pushData assms(3,4) show ?thesis
    by (simp add: histories_def pushData_Some push_back_room flip: append_assoc)
next
  case (pop t v q)
  then have "contents (m_queue s) = v # contents q" by (auto simp: pop_Some pop_front)
  with assms(4) pop show ?thesis by simp
qed (use assms(4) in simp_all)


lemma reach_exact:
  assumes "(\<lambda>s s'. ring_step B s s' \<and> only_bounded s')\<^sup>*\<^sup>* (newRing B) s"
  shows "popped s @ contents (m_queue s) = pushed s"
proof -
  have "only_bounded (newRing B)" by (simp add: only_bounded_def newRing_def)
  with assms have "popped s @ contents (m_queue s) = pushed s \<and> only_bounded s \<and>
      histories contents capacity s"
  proof (induction rule: rtranclp_induct)
    case base
    then show ?case by (simp add: histories_def newRing_def newRingBuffer_def new)
  next
    case (step s s')
    then show ?case using exact_step histories_step by blast
  qed
  then show ?thesis by blast
qed

end

lemma reach_no_lost_wakeup: "ring_reach B s \<Longrightarrow> no_lost_wakeup B s"
proof (induction rule: rtranclp_induct)
  case base
  show ?case by (simp add: no_lost_wakeup_def newRing_def)
next
  case (step s s')
  then show ?case by (blast intro: no_lost_wakeup_step)
qed

lemma len64: "LENGTH(64) = 64"
  by simp

lemma size_t_of_int_cases:
  "int (unat (size_t_of_int n)) = (if 0 \<le> sint n then sint n else 2 ^ 64 + sint n)"
proof -
  have range: "- (2 ^ 31) \<le> sint n" "sint n < 2 ^ 31"
    using sint_greater_eq [of n] sint_less [of n] by simp_all
  have "int (unat (size_t_of_int n)) = sint n mod 2 ^ 64"
  proof -
    have "(word_of_int (sint n) :: u64) = size_t_of_int n" by (simp add: size_t_of_int_def)
    moreover have "uint (word_of_int (sint n) :: u64) = sint n mod 2 ^ LENGTH(64)"
      by (rule uint_word_of_int)
    ultimately have "uint (size_t_of_int n) = sint n mod 2 ^ 64" by (simp only: len64)
    then show ?thesis by simp
  qed
  also have "\<dots> = (if 0 \<le> sint n then sint n else 2 ^ 64 + sint n)"
  proof (cases "0 \<le> sint n")
    case True
    with range show ?thesis by simp
  next
    case False
    then have "sint n mod 2 ^ 64 = (sint n + 2 ^ 64) mod 2 ^ 64" by simp
    also have "\<dots> = sint n + 2 ^ 64" using False range by (intro mod_pos_pos_trivial) simp_all
    finally show ?thesis using False by simp
  qed
  finally show ?thesis .
qed

section \<open>Properties\<close>

text \<open>
  C32: the buffer is a queue. In every reachable state, under any interleaving of any number of
  threads, what was popped followed by what is still in the buffer is a subsequence of what was
  pushed, in push order: nothing is invented, duplicated or reordered; and at most 10000
  elements are held.
\<close>

theorem ring_fifo:
  assumes "circular_buffer B contents capacity" and "ring_reach B s"
  shows "subseq (popped s @ contents (m_queue s)) (pushed s) \<and> length (contents (m_queue s)) \<le> 10000"
  using circular_buffer.reach_histories [OF assms] by (simp add: histories_def)

definition example_ring :: "(nat \<times> nat list, nat) ring" where
  "example_ring = (newRing ref_buffer)\<lparr>m_queue := (10000, [7]),
     threads := (\<lambda>_. Idle)(0 := Asleep Pop, 1 := Notifying), pushed := [7]\<rparr>"

lemma example_ring_reach:
  "(\<lambda>s s'. ring_step ref_buffer s s' \<and> only_bounded s')\<^sup>*\<^sup>* (newRing ref_buffer) example_ring"
  "ring_reach ref_buffer example_ring"
proof -
  let ?n = "newRing ref_buffer :: (nat \<times> nat list, nat) ring"
  let ?s1 = "?n\<lparr>threads := (\<lambda>_. Idle)(0 := Ready Pop)\<rparr>"
  let ?s2 = "?n\<lparr>threads := (\<lambda>_. Idle)(0 := Asleep Pop)\<rparr>"
  let ?s3 = "?n\<lparr>threads := (\<lambda>_. Idle)(0 := Asleep Pop, 1 := Ready (PushData 7 5))\<rparr>"
  have q: "m_queue ?n = (10000, [])" "threads ?n = (\<lambda>_. Idle)" "pushed ?n = []"
    by (simp_all add: newRing_def newRingBuffer_def)
  have "ring_step ref_buffer ?n ?s1" using ring_step.call [of ?n 0 ref_buffer Pop] by (simp add: q)
  moreover have "ring_step ref_buffer ?s1 ?s2"
    using ring_step.pop_waits [of ?s1 0 ref_buffer]
    by (simp add: q rb_waitAndPopValue_def rb_empty_def)
  moreover have "ring_step ref_buffer ?s2 ?s3"
    using ring_step.call [of ?s2 1 ref_buffer "PushData 7 5"] by (simp add: q)
  moreover have "size_t_of_int 5 = 5" by code_simp
  then have five: "unat (size_t_of_int 5) \<le> 10000"
    and room: "rb_pushData ref_buffer 7 5 (m_queue ?s3) = Some (10000, [7])"
    by (simp_all add: rb_pushData_def q)
  have "threads ?s3 1 = Ready (PushData 7 5)" by simp
  from ring_step.pushData [OF this room]
  have "ring_step ref_buffer ?s3 example_ring"
    by (simp add: example_ring_def q)
  moreover have "only_bounded ?s1" "only_bounded ?s2" "only_bounded ?s3" "only_bounded example_ring"
    using five by (auto simp: only_bounded_def q example_ring_def split: if_splits)
  ultimately show "(\<lambda>s s'. ring_step ref_buffer s s' \<and> only_bounded s')\<^sup>*\<^sup>* ?n example_ring"
    and "ring_reach ref_buffer example_ring"
    by (blast intro: converse_rtranclp_into_rtranclp)+
qed

theorem ring_fifo_witness:
  "subseq (popped example_ring @ snd (m_queue example_ring)) [7]"
  using ring_fifo [OF ref_buffer.circular_buffer_axioms example_ring_reach(2)]
  by (simp add: example_ring_def)

text \<open>
  C31: nothing is lost when every producer uses \<open>pushData\<close> with a threshold of at most 10000
  (and not negative). Then in every reachable state the elements popped and the elements in the
  buffer are exactly the elements pushed, in order.
\<close>

theorem ring_no_loss:
  assumes "circular_buffer B contents capacity"
    and "(\<lambda>s s'. ring_step B s s' \<and> only_bounded s')\<^sup>*\<^sup>* (newRing B) s"
  shows "popped s @ contents (m_queue s) = pushed s"
  using circular_buffer.reach_exact [OF assms] .

theorem ring_no_loss_witness:
  "popped example_ring @ snd (m_queue example_ring) = [7]"
  using ring_no_loss [OF ref_buffer.circular_buffer_axioms example_ring_reach(1)]
  by (simp add: example_ring_def)

text \<open>
  C30: no wake-up is lost. Whenever a sleeping call could go on (a pop with data in the buffer, or a
  \<open>pushData\<close> with room below its threshold), some thread is about to call \<open>notify_all\<close>, and
  that step makes the sleeper ready again.
\<close>

theorem ring_no_lost_wakeup:
  assumes "ring_reach B s" and "threads s t = Asleep x" and "can_finish B x (m_queue s)"
  shows "\<exists>u s'. threads s u = Notifying \<and> ring_step B s s' \<and> m_queue s' = m_queue s \<and>
    threads s' t = Ready x"
proof -
  obtain u where u: "threads s u = Notifying"
    using reach_no_lost_wakeup [OF assms(1)] assms(2,3) unfolding no_lost_wakeup_def by blast
  have "wake (((threads s)(u := Idle)) t) = Ready x" using u assms(2) by auto
  then show ?thesis
    by (intro exI [of _ u] exI [of _ "s\<lparr>threads := (\<lambda>v. wake (((threads s)(u := Idle)) v))\<rparr>"]
        conjI u ring_step.notify_all [OF u]) simp_all
qed

theorem ring_no_lost_wakeup_witness:
  "\<exists>s'. ring_step ref_buffer example_ring s' \<and> threads s' 0 = Ready Pop"
proof -
  have "threads example_ring 0 = Asleep Pop"
    and "can_finish ref_buffer Pop (m_queue example_ring)"
    by (simp_all add: example_ring_def rb_waitAndPopValue_def rb_empty_def)
  from ring_no_lost_wakeup [OF example_ring_reach(2) this] show ?thesis by blast
qed

text \<open>
  When \<open>pushData\<close> waits. For a threshold that is not negative it waits exactly when the
  buffer holds at least that many elements (so with threshold 0 always); a negative threshold is
  converted to a huge unsigned number, so it never waits, and on a full buffer the oldest element
  is overwritten.
\<close>

theorem pushData_waits_iff:
  assumes "circular_buffer B contents capacity" and "length (contents q) \<le> 10000" and "capacity q = 10000"
  shows "(rb_pushData B v n q = None \<longleftrightarrow> 0 \<le> sint n \<and> nat (sint n) \<le> length (contents q)) \<and>
    (rb_pushData B v n q = Some q' \<longrightarrow>
       contents q' = (if length (contents q) = 10000 then tl (contents q) else contents q) @ [v])"
proof -
  have range: "- (2 ^ 31) \<le> sint n" "sint n < 2 ^ 31"
    using sint_greater_eq [of n] sint_less [of n] by simp_all
  have size: "cb_size B q = length (contents q)" by (rule circular_buffer.size [OF assms(1)])
  have "unat (size_t_of_int n) \<le> length (contents q) \<longleftrightarrow>
      int (unat (size_t_of_int n)) \<le> int (length (contents q))"
    by (simp only: of_nat_le_iff)
  also have "\<dots> \<longleftrightarrow> 0 \<le> sint n \<and> nat (sint n) \<le> length (contents q)"
    unfolding size_t_of_int_cases using range assms(2) by auto
  finally have "unat (size_t_of_int n) \<le> length (contents q) \<longleftrightarrow>
      0 \<le> sint n \<and> nat (sint n) \<le> length (contents q)" .
  then show ?thesis
    using circular_buffer.push_back [OF assms(1), of q v] assms(2,3) by (auto simp: rb_pushData_def size)
qed

theorem pushData_waits_iff_witness:
  "rb_pushData ref_buffer 5 0 (10000, [1 :: nat]) = None \<and>
   rb_pushData ref_buffer 5 (-1) (10000, [1 :: nat]) \<noteq> None"
  using pushData_waits_iff [OF ref_buffer.circular_buffer_axioms, of "(10000, [1])" "5 :: nat" 0]
    pushData_waits_iff [OF ref_buffer.circular_buffer_axioms, of "(10000, [1])" "5 :: nat" "-1"]
  by simp

end
