(* ===== verification/Ring_Pops.thy ===== *)
theory Ring_Pops
  imports Ring_Buffer
begin

text \<open>
  The members of \<open>RingBuffer<T>\<close> that call \<open>m_queue.pop()\<close>. \<open>boost::circular_buffer\<close> has no such
  member, so none of them can be instantiated as it is; here \<open>pop\<close> is a parameter. Where a lemma
  assumes something of it, it is that \<open>pop\<close> does what \<open>pop_front\<close> does, which is how the one
  member that compiles, \<open>waitAndPopValue\<close>, removes the element it returns.
\<close>

section \<open>The operations\<close>

text \<open>
  A critical section as a function of the queue. The overloads that take a reference return its
  new value, a \<open>shared_ptr\<close> is an option. \<open>None\<close> around the result is a call that has to wait; for
  \<open>waitForAndPop\<close> it depends on whether the time is up when it holds the mutex.
\<close>

definition rb_tryAndPop ::
    "('q, 'a) buffer_ops \<Rightarrow> ('q \<Rightarrow> 'q) \<Rightarrow> 'a \<Rightarrow> 'q \<Rightarrow> bool \<times> 'a \<times> 'q" where
  "rb_tryAndPop B pop value q =
     (if rb_empty B q then (False, value, q) else (True, cb_front B q, pop q))"

definition rb_tryAndPop_shared :: "('q, 'a) buffer_ops \<Rightarrow> ('q \<Rightarrow> 'q) \<Rightarrow> 'q \<Rightarrow> 'a option \<times> 'q" where
  "rb_tryAndPop_shared B pop q =
     (if rb_empty B q then (None, q) else (Some (cb_front B q), pop q))"

definition rb_waitAndPop :: "('q, 'a) buffer_ops \<Rightarrow> ('q \<Rightarrow> 'q) \<Rightarrow> 'q \<Rightarrow> ('a \<times> 'q) option" where
  "rb_waitAndPop B pop q = (if rb_empty B q then None else Some (cb_front B q, pop q))"

definition rb_waitAndPop_shared :: "('q, 'a) buffer_ops \<Rightarrow> ('q \<Rightarrow> 'q) \<Rightarrow> 'q \<Rightarrow> ('a option \<times> 'q) option" where
  "rb_waitAndPop_shared B pop q = (if rb_empty B q then None else Some (Some (cb_front B q), pop q))"

definition rb_waitForAndPop ::
    "('q, 'a) buffer_ops \<Rightarrow> ('q \<Rightarrow> 'q) \<Rightarrow> bool \<Rightarrow> 'a \<Rightarrow> 'q \<Rightarrow> (bool \<times> 'a \<times> 'q) option" where
  "rb_waitForAndPop B pop timedOut value q =
     (if \<not> rb_empty B q then Some (True, cb_front B q, pop q)
      else if timedOut then Some (False, value, q) else None)"

definition rb_waitForAndPop_shared ::
    "('q, 'a) buffer_ops \<Rightarrow> ('q \<Rightarrow> 'q) \<Rightarrow> bool \<Rightarrow> 'q \<Rightarrow> ('a option \<times> 'q) option" where
  "rb_waitForAndPop_shared B pop timedOut q =
     (if \<not> rb_empty B q then Some (Some (cb_front B q), pop q)
      else if timedOut then Some (None, q) else None)"

lemmas pop_defs =
  rb_tryAndPop_def rb_tryAndPop_shared_def rb_waitAndPop_def rb_waitAndPop_shared_def
  rb_waitForAndPop_def rb_waitForAndPop_shared_def

text \<open>
  The six agree with \<open>waitAndPopValue\<close>: where that would wait, they report an empty buffer, wait or
  time out, without touching the queue; otherwise they return its value and leave its queue.
\<close>

lemma pops_wait:
  assumes "rb_waitAndPopValue B q = None"
  shows "rb_tryAndPop B pop v q = (False, v, q)" and "rb_tryAndPop_shared B pop q = (None, q)"
    and "rb_waitAndPop B pop q = None" and "rb_waitAndPop_shared B pop q = None"
    and "rb_waitForAndPop B pop timedOut v q = (if timedOut then Some (False, v, q) else None)"
    and "rb_waitForAndPop_shared B pop timedOut q = (if timedOut then Some (None, q) else None)"
  using assms by (auto simp: rb_waitAndPopValue_def pop_defs split: if_splits)

lemma pops_return:
  assumes "rb_waitAndPopValue B q = Some (x, q')" and "pop q = cb_pop_front B q"
  shows "rb_tryAndPop B pop v q = (True, x, q')" and "rb_tryAndPop_shared B pop q = (Some x, q')"
    and "rb_waitAndPop B pop q = Some (x, q')" and "rb_waitAndPop_shared B pop q = Some (Some x, q')"
    and "rb_waitForAndPop B pop timedOut v q = Some (True, x, q')"
    and "rb_waitForAndPop_shared B pop timedOut q = Some (Some x, q')"
  using assms by (auto simp: rb_waitAndPopValue_def pop_defs split: if_splits)

section \<open>Without a notification\<close>

text \<open>
  Unlike \<open>waitAndPopValue\<close>, none of them calls \<open>notify_all\<close>: the thread is idle again when it has
  left the critical section, and a \<open>pushData\<close> that sleeps until there is room sleeps on.
\<close>

inductive quiet_step :: "('q, 'a) buffer_ops \<Rightarrow> ('q \<Rightarrow> 'q) \<Rightarrow> ('q, 'a) ring \<Rightarrow> ('q, 'a) ring \<Rightarrow> bool"
  for B pop where
  loud: "ring_step B s s' \<Longrightarrow> quiet_step B pop s s'"
| quiet_pop: "threads s t = Ready Pop \<Longrightarrow> rb_waitAndPop B pop (m_queue s) = Some (v, q) \<Longrightarrow>
     quiet_step B pop s (s\<lparr>m_queue := q, threads := (threads s)(t := Idle), popped := popped s @ [v]\<rparr>)"

text \<open>A quiet pop leaves what was popped and what is left in order, like a loud one.\<close>

context circular_buffer
begin

lemma quiet_histories:
  assumes "quiet_step B (cb_pop_front B) s s'" and "histories contents capacity s"
  shows "histories contents capacity s'"
  using assms(1)
proof cases
  case loud
  then show ?thesis by (rule histories_step [OF _ assms(2)])
next
  case (quiet_pop t v q)
  then have "rb_waitAndPopValue B (m_queue s) = Some (v, q)"
    by (simp add: rb_waitAndPop_def rb_waitAndPopValue_def)
  then have "contents (m_queue s) = v # contents q" "capacity q = capacity (m_queue s)"
    by (auto simp: pop_Some pop_front pop_front_capacity)
  with assms(2) quiet_pop(1) show ?thesis by (simp add: histories_def)
qed

end

text \<open>But it loses the wake-up: a producer waits for room that is there, and nobody will tell it.\<close>

definition all_quiet :: "('q, 'a) buffer_ops \<Rightarrow> ('q, 'a) ring \<Rightarrow> nat \<Rightarrow> bool" where
  "all_quiet B s t \<longleftrightarrow> (\<exists>x. threads s t = Asleep x \<and> can_finish B x (m_queue s)) \<and>
     (\<forall>u. u \<noteq> t \<longrightarrow> threads s u = Idle)"

lemma quiet_pop_loses_wakeup:
  "\<exists>s :: (nat \<times> nat list, nat) ring. (quiet_step ref_buffer (cb_pop_front ref_buffer))\<^sup>*\<^sup>* (newRing ref_buffer) s \<and> all_quiet ref_buffer s 0"
proof -
  let ?step = "quiet_step ref_buffer (cb_pop_front ref_buffer) :: (nat \<times> nat list, nat) ring \<Rightarrow> _"
  let ?n = "newRing ref_buffer :: (nat \<times> nat list, nat) ring"
  let ?r = "\<lambda>q ts out. \<lparr>m_queue = (10000 :: nat, q), threads = ts, pushed = [7 :: nat], popped = out\<rparr>"
  let ?s1 = "?n\<lparr>threads := (\<lambda>_. Idle)(0 := Ready (PushData 7 1))\<rparr> :: (nat \<times> nat list, nat) ring"
  let ?s2 = "?r [7] ((\<lambda>_. Idle)(0 := Notifying)) []"
  let ?s3 = "?r [7] (\<lambda>_. Idle) []"
  let ?s4 = "?r [7] ((\<lambda>_. Idle)(0 := Ready (PushData 8 1))) []"
  let ?s5 = "?r [7] ((\<lambda>_. Idle)(0 := Asleep (PushData 8 1))) []"
  let ?s6 = "?r [7] ((\<lambda>_. Idle)(0 := Asleep (PushData 8 1), 1 := Ready Pop)) []"
  let ?s7 = "?r [] ((\<lambda>_. Idle)(0 := Asleep (PushData 8 1), 1 := Idle)) [7]"
  have one: "unat (size_t_of_int 1) = 1" by (simp add: size_t_of_int_def)
  have n: "m_queue ?n = (10000, [])" "threads ?n = (\<lambda>_. Idle)"
    "pushed ?n = []" "popped ?n = []"
    by (simp_all add: newRing_def newRingBuffer_def)
  have 1: "?step ?n ?s1"
    using ring_step.call [of ?n 0 ref_buffer "PushData 7 1"] n by (intro loud) simp
  have 2: "?step ?s1 ?s2"
    using ring_step.pushData [of ?s1 0 7 1 ref_buffer "(10000, [7])"]
    by (intro loud) (simp add: rb_pushData_def one newRing_def newRingBuffer_def)
  have 3: "?step ?s2 ?s3" using ring_step.notify_all [of ?s2 0 ref_buffer] by (intro loud) simp
  have 4: "?step ?s3 ?s4" using ring_step.call [of ?s3 0 ref_buffer "PushData 8 1"] by (intro loud) simp
  have 5: "?step ?s4 ?s5"
    using ring_step.pushData_waits [of ?s4 0 8 1 ref_buffer] by (intro loud) (simp add: rb_pushData_def one)
  have 6: "?step ?s5 ?s6" using ring_step.call [of ?s5 1 ref_buffer Pop] by (intro loud) simp
  have 7: "?step ?s6 ?s7"
    using quiet_pop [of ?s6 1 ref_buffer "cb_pop_front ref_buffer" 7 "(10000, [])"]
    by (simp add: rb_waitAndPop_def rb_empty_def)
  have quiet: "all_quiet ref_buffer ?s7 0" by (simp add: all_quiet_def rb_pushData_def one)
  note rest = r_into_rtranclp [where r = ?step, OF 7]
  note rest = converse_rtranclp_into_rtranclp [where r = ?step, OF 6 rest]
  note rest = converse_rtranclp_into_rtranclp [where r = ?step, OF 5 rest]
  note rest = converse_rtranclp_into_rtranclp [where r = ?step, OF 4 rest]
  note rest = converse_rtranclp_into_rtranclp [where r = ?step, OF 3 rest]
  note rest = converse_rtranclp_into_rtranclp [where r = ?step, OF 2 rest]
  note rest = converse_rtranclp_into_rtranclp [where r = ?step, OF 1 rest]
  show ?thesis by (rule exI [of _ ?s7]) (rule conjI [OF rest quiet])
qed

end
