(* ===== verification/Packet_Store.thy ===== *)
theory Packet_Store
  imports Network
begin

text \<open>
  The data store of a node: what every operation does to the packets a node keeps for its peers.
  Only the handler of the back channel removes one; every unit a node publishes is stored under
  the node prefix, the sync prefix and its number.
\<close>

section \<open>Growing stores\<close>

definition store_grows ::
    "('ps \<Rightarrow> 'n publication list) \<Rightarrow> ('ps \<Rightarrow> 'n set) \<Rightarrow> ('ps \<Rightarrow> 'n \<Rightarrow> u64 \<Rightarrow> 'n) \<Rightarrow> 'ps \<Rightarrow> 'ps \<Rightarrow> bool" where
  "store_grows pubs store packet ps ps' \<longleftrightarrow> packet ps' = packet ps \<and> store ps \<subseteq> store ps' \<and>
     (\<exists>new. pubs ps' = pubs ps @ new \<and>
        (\<forall>n d w q. (n, d, Some w, q) \<in> set new \<longrightarrow> packet ps w q \<in> store ps'))"

lemma grows_refl [simp, intro]: "store_grows pubs store packet ps ps"
  by (simp add: store_grows_def)

lemma grows_trans [trans]:
  assumes "store_grows pubs store packet ps ps1" and "store_grows pubs store packet ps1 ps2"
  shows "store_grows pubs store packet ps ps2"
proof -
  obtain new1 new2 where "pubs ps1 = pubs ps @ new1" "pubs ps2 = pubs ps1 @ new2"
    and "\<forall>n d w q. (n, d, Some w, q) \<in> set new1 \<longrightarrow> packet ps w q \<in> store ps1"
    and "\<forall>n d w q. (n, d, Some w, q) \<in> set new2 \<longrightarrow> packet ps1 w q \<in> store ps2"
    using assms unfolding store_grows_def by blast
  with assms show ?thesis
    by (intro store_grows_def [THEN iffD2] conjI exI [of _ "new1 @ new2"]) (auto simp: store_grows_def)
qed

lemma grows_same:
  "packet ps' = packet ps \<Longrightarrow> store ps' = store ps \<Longrightarrow> pubs ps' = pubs ps \<Longrightarrow> store_grows pubs store packet ps ps'"
  by (simp add: store_grows_def)

context svs_store
begin

lemma publish_grows:
  assumes "invar ps"
  shows "store_grows pubs store packet ps (snd (svs_publish S ps n d who))"
proof -
  obtain seq ps' where pub: "svs_publish S ps n d who = (seq, ps')" by (rule prod.exhaust)
  have "packet ps w seq \<in> store ps'" if "who = Some w" for w
    using publish_stores [OF assms] pub that by simp
  with pub publish [OF assms pub] publish_packet [OF assms, of n d who] publish_keeps [OF assms, of n d who]
  show ?thesis by (simp add: store_grows_def)
qed

lemma unsubscribe_grows:
  "invar ps \<Longrightarrow> invar (foldl (svs_unsubscribe S) ps hs) \<and>
     used (foldl (svs_unsubscribe S) ps hs) = used ps \<and>
     store_grows pubs store packet ps (foldl (svs_unsubscribe S) ps hs)"
proof (induction hs arbitrary: ps)
  case (Cons h hs)
  have "store_grows pubs store packet ps (svs_unsubscribe S ps h)"
    using Cons.prems by (intro grows_same) (simp_all add: unsubscribe_packet unsubscribe_simps)
  with Cons show ?case by (auto simp: unsubscribe_simps intro: grows_trans)
qed simp

lemma subscribe_grows:
  assumes "invar ps" and "used ps < 2 ^ 32 - 1"
  shows "store_grows pubs store packet ps (snd (svs_subscribe S ps n c))"
    and "invar (snd (svs_subscribe S ps n c))" and "used (snd (svs_subscribe S ps n c)) = Suc (used ps)"
proof -
  obtain h ps' where sub: "svs_subscribe S ps n c = (h, ps')" by (rule prod.exhaust)
  note laws = subscribe [OF assms sub] subscribe_packet [OF assms(1), of n c]
  show "store_grows pubs store packet ps (snd (svs_subscribe S ps n c))"
    and "invar (snd (svs_subscribe S ps n c))" and "used (snd (svs_subscribe S ps n c)) = Suc (used ps)"
    using laws sub by (simp_all add: grows_same)
qed

lemma subscribeAll_grows:
  assumes "invar ps" and "used ps + length partitions < 2 ^ 32"
  shows "\<exists>c' ps'. subscribeAll S this partitions c (Some ps) = (Inr (), c', Some ps') \<and>
    store_grows pubs store packet ps ps'"
  using assms
proof (induction partitions arbitrary: c ps)
  case (Cons p partitions)
  let ?n = "consumer_prepareDataName S c p"
  obtain h ps1 where sub: "svs_subscribe S ps ?n (Consumer_callback this) = (h, ps1)" by (rule prod.exhaust)
  have room: "used ps < 2 ^ 32 - 1" using Cons.prems(2) by simp
  from subscribe_grows [OF Cons.prems(1) room, of ?n "Consumer_callback this"]
  have ps1: "store_grows pubs store packet ps ps1" "invar ps1" "used ps1 = Suc (used ps)"
    by (simp_all add: sub)
  with Cons.prems(2) have room1: "used ps1 + length partitions < 2 ^ 32" by simp
  obtain c' ps' where "subscribeAll S this partitions
      (c\<lparr>m_subscriptionHandles := m_subscriptionHandles c @ [h]\<rparr>) (Some ps1) = (Inr (), c', Some ps')"
    "store_grows pubs store packet ps1 ps'"
    using Cons.IH [OF ps1(2) room1] by blast
  with sub ps1(1) show ?case
    by (auto simp: subscribeToTopicPartition_def intro: grows_trans)
qed auto

lemma destroyed_grows:
  "invar ps \<Longrightarrow> \<exists>ps'. destroyConsumer S c (Some ps) = Some ps' \<and> invar ps' \<and> store_grows pubs store packet ps ps'"
  using unsubscribe_grows by (simp add: destroyConsumer_def unsubscribeFromAllPartitions_def)

lemma statsLoop_grows:
  "invar ps \<Longrightarrow> store_grows pubs store packet ps (snd (consumerStatsLoop S now cs result ps))"
proof (induction cs arbitrary: result ps)
  case (Cons kc cs)
  obtain e c where kc: "kc = (e, c)" by (rule prod.exhaust)
  obtain st c' where st: "getConsumptionStats (now e) c = (st, c')" by (rule prod.exhaust)
  obtain ps1 where "destroyConsumer S c' (Some ps) = Some ps1" "invar ps1" "store_grows pubs store packet ps ps1"
    using destroyed_grows [OF Cons.prems] by blast
  with Cons.IH [of ps1] show ?case by (auto simp: kc st intro: grows_trans)
qed simp

section \<open>The operations of a node\<close>

abbreviation node_grows :: "('ps, 'j, 'u) IceFlow \<Rightarrow> ('ps, 'j, 'u) IceFlow \<Rightarrow> bool" where
  "node_grows f f' \<equiv> store_grows pubs store packet (m_svsPubSub f) (m_svsPubSub f')"

lemma push_grows:
  assumes "invar (m_svsPubSub f)"
  shows "node_grows f (snd (pushData S d e f))"
proof (cases "map_of (m_iceflowProducers f) e")
  case (Some p)
  with publish_grows [OF assms] show ?thesis
    by (simp add: pushData_def producer_pushData_def getNextPartitionNumber_def split_beta Let_def)
qed (simp add: pushData_def)

lemma push_invar:
  assumes "invar (m_svsPubSub f)"
  shows "invar (m_svsPubSub (snd (pushData S d e f)))"
proof (cases "e \<in> set (producer_edges f)")
  case False
  with assms show ?thesis by (simp add: pushData_def map_of_unknown)
next
  case True
  obtain f' where "pushData S d e f = (Inr (), f')" "node_evolves invar subs pubs f f'"
    using pushData_known [OF svs_axioms assms True, of d "()"] by blast
  then show ?thesis using evolves_invar by simp
qed

lemma script_grows:
  "invar (m_svsPubSub f) \<Longrightarrow> node_grows f (fst (snd (runScript S pushes r a f)))"
proof (induction pushes arbitrary: f)
  case (Cons push pushes)
  obtain e d a1 where push: "push = (e, d, a1)" by (rule prod_cases3)
  obtain x f1 where f1: "pushData S d e f = (x, f1)" by (rule prod.exhaust)
  have "node_grows f f1" "invar (m_svsPubSub f1)"
    using push_grows [OF Cons.prems, of d e] push_invar [OF Cons.prems, of d e] f1 by simp_all
  with Cons.IH [of f1] show ?case by (auto simp: push f1 split: sum.split intro: grows_trans)
qed simp

lemma callback_grows:
  "invar (m_svsPubSub f) \<Longrightarrow> node_grows f (fst (snd (invokeCallback S app cb d (f, a))))"
  using script_grows by (cases cb) (simp_all add: split_beta)

lemma consumer_data_grows:
  assumes "invar (m_svsPubSub f)"
  shows "node_grows f (fst (snd (onConsumerData S J app e d now (f, a))))"
proof (cases "\<exists>c cb. map_of (m_iceflowConsumers f) e = Some c \<and> m_consumerCallback c = Some cb")
  case False
  then show ?thesis
    by (auto simp: onConsumerData_def subscribeCallBack_def split: option.split)
next
  case True
  then obtain c cb where c: "map_of (m_iceflowConsumers f) e = Some c" "m_consumerCallback c = Some cb" by blast
  obtain r f1 a1 where run: "invokeCallback S app cb (sub_data d) (f, a) = (r, f1, a1)" by (rule prod_cases3)
  have f1: "node_grows f f1" using callback_grows [OF assms, of app cb "sub_data d" a] run by simp
  note step = invokeCallback_evolves [OF svs_axioms assms run]
  show ?thesis
  proof (cases r)
    case (Inl x)
    with onConsumerData_raised [OF c run [unfolded Inl] step(2)] f1 show ?thesis by simp
  next
    case (Inr u)
    then have run: "invokeCallback S app cb (sub_data d) (f, a) = (Inr (), f1, a1)" using run by simp
    show ?thesis
      using grows_trans [OF f1 publish_grows [OF evolves_invar [OF step(1)]]] onConsumerData_returned [OF c run]
      by simp
  qed
qed

lemma repartition_grows:
  assumes "invar (m_svsPubSub f)" and "used (m_svsPubSub f) + length ps < 2 ^ 32"
  shows "node_grows f (snd (repartitionConsumer S ps e f))"
proof (cases "map_of (m_iceflowConsumers f) e")
  case (Some c)
  let ?ps = "foldl (svs_unsubscribe S) (m_svsPubSub f) (m_subscriptionHandles c)"
  have un: "invar ?ps" "node_grows f (f\<lparr>m_svsPubSub := ?ps\<rparr>)" and "used ?ps = used (m_svsPubSub f)"
    using unsubscribe_grows [OF assms(1)] by simp_all
  with assms(2) have "used ?ps + length ps < 2 ^ 32" by simp
  from subscribeAll_grows [OF un(1) this, of e "c\<lparr>m_subscriptionHandles := []\<rparr>"] grows_trans [OF un(2)] Some
  show ?thesis
    by (auto simp: repartitionConsumer_def repartition_def unsubscribeFromAllPartitions_def Let_def)
qed (simp add: repartitionConsumer_def)

lemma stats_grows: "invar (m_svsPubSub f) \<Longrightarrow> node_grows f (snd (getConsumerStats S now f))"
  using statsLoop_grows by (simp add: getConsumerStats_def split_beta)

lemma producers_grow:
  assumes "invar (m_svsPubSub f)" and "used (m_svsPubSub f) + length es < 2 ^ 32"
    and "constructProducers S time es f = Inr f'"
  shows "node_grows f f'"
  using assms
proof (induction es arbitrary: f)
  case (Cons e es)
  let ?bc = "backchannelName S (m_syncPrefix f @ ''/'' @ edge_id e)"
  let ?h = "Backchannel_handler (m_nodePrefix f) (m_syncPrefix f)"
  obtain h ps where sub: "svs_subscribe S (m_svsPubSub f) ?bc ?h = (h, ps)" by (rule prod.exhaust)
  have room: "used (m_svsPubSub f) < 2 ^ 32 - 1" using Cons.prems(2) by simp
  note ps = subscribe_grows [OF Cons.prems(1) room, of ?bc ?h, unfolded sub snd_conv]
  obtain p where p: "newProducer S (m_nodePrefix f) (m_syncPrefix f) (edge_id e) (maxPartitions e)
      (m_congestionReporter f) (time (edge_id e)) (Some (m_svsPubSub f)) = (Inr p, Some ps)"
    using Cons.prems(3) sub by (auto simp: newProducer_cases Let_def split: if_splits)
  let ?f = "f\<lparr>m_svsPubSub := ps, m_iceflowProducers := emplace (edge_id e) (p\<lparr>m_downstreamEdgeName := Dangling\<rparr>) (m_iceflowProducers f)\<rparr>"
  have "node_grows ?f f'"
    using Cons.IH [of ?f] Cons.prems(2,3) ps p by simp
  with ps(1) show ?case by (auto intro: grows_trans)
qed simp

end

end
