(* ===== verification/Work_Queue.thy ===== *)
theory Work_Queue
  imports Packet_Store
begin

text \<open>
  What a network of nodes promises, as an abstract system of work queues: units are sent on
  channels, a unit can be acknowledged once it was sent, and a process keeps a unit until somebody
  has acknowledged its number on one of the channels the process sends on. The network of
  \<open>Network\<close> implements it.
\<close>

section \<open>The abstract system\<close>

text \<open>A channel is an edge of an application; a unit is a number on a channel.\<close>

type_synonym channel = "string \<times> string"

record work_queue =
  senders :: "(nat \<times> channel) set"
  sent :: "(nat \<times> channel \<times> u64) set"
  acknowledged :: "(nat \<times> channel \<times> u64) set"
  kept :: "(nat \<times> u64) set"

inductive queue_step :: "work_queue \<Rightarrow> work_queue \<Rightarrow> bool" where
  join: "queue_step w (w\<lparr>senders := senders w \<union> C\<rparr>)"
| send:
    "\<forall>i ch q. (i, ch, q) \<in> U \<longrightarrow> (i, ch) \<in> senders w \<and> (i, q) \<in> K \<Longrightarrow> kept w \<subseteq> K \<Longrightarrow>
     queue_step w (w\<lparr>sent := sent w \<union> U, kept := K\<rparr>)"
| acknowledge:
    "\<forall>j ch q. (j, ch, q) \<in> A \<longrightarrow> (\<exists>i. (i, ch, q) \<in> sent w) \<Longrightarrow>
     queue_step w (w\<lparr>acknowledged := acknowledged w \<union> A\<rparr>)"
| release:
    "(j, ch, q) \<in> acknowledged w \<Longrightarrow> (i, ch) \<in> senders w \<Longrightarrow>
     queue_step w (w\<lparr>kept := kept w - {(i, q)}\<rparr>)"

abbreviation queue_steps :: "work_queue \<Rightarrow> work_queue \<Rightarrow> bool" where
  "queue_steps \<equiv> queue_step\<^sup>*\<^sup>*"

lemma send_and_acknowledge:
  assumes "\<And>i ch q. (i, ch, q) \<in> U \<Longrightarrow> (i, ch) \<in> senders w \<and> (i, q) \<in> K" and "kept w \<subseteq> K"
    and "\<And>j ch q. (j, ch, q) \<in> A \<Longrightarrow> \<exists>i. (i, ch, q) \<in> sent w"
  shows "queue_steps w (w\<lparr>sent := sent w \<union> U, acknowledged := acknowledged w \<union> A, kept := K\<rparr>)"
proof -
  let ?w = "w\<lparr>sent := sent w \<union> U, kept := K\<rparr>"
  have 1: "queue_step w ?w" using assms(1,2) by (intro queue_step.send) blast+
  have 2: "queue_step ?w (?w\<lparr>acknowledged := acknowledged ?w \<union> A\<rparr>)"
    using assms(3) by (intro queue_step.acknowledge) (simp, blast)
  have 3: "?w\<lparr>acknowledged := acknowledged ?w \<union> A\<rparr> =
      w\<lparr>sent := sent w \<union> U, acknowledged := acknowledged w \<union> A, kept := K\<rparr>" by (cases w) simp
  show ?thesis
    by (rule subst [OF 3]) (rule rtranclp.rtrancl_into_rtrancl [OF r_into_rtranclp [of queue_step, OF 1] 2])
qed

definition no_work :: work_queue where
  "no_work = \<lparr>senders = {}, sent = {}, acknowledged = {}, kept = {}\<rparr>"

text \<open>Nothing is lost, and nothing is acknowledged that was not sent.\<close>

definition safe_queue :: "work_queue \<Rightarrow> bool" where
  "safe_queue w \<longleftrightarrow>
     (\<forall>i ch q. (i, ch, q) \<in> sent w \<longrightarrow> (i, ch) \<in> senders w \<and>
        ((i, q) \<in> kept w \<or> (\<exists>j ch'. (i, ch') \<in> senders w \<and> (j, ch', q) \<in> acknowledged w))) \<and>
     (\<forall>j ch q. (j, ch, q) \<in> acknowledged w \<longrightarrow> (\<exists>i. (i, ch, q) \<in> sent w))"

lemma queue_step_safe: "queue_step w w' \<Longrightarrow> safe_queue w \<Longrightarrow> safe_queue w'"
proof (induction rule: queue_step.induct)
  case (join w C)
  then show ?case unfolding safe_queue_def by simp blast
next
  case (send U w K)
  then show ?case unfolding safe_queue_def by simp blast
next
  case (acknowledge A w)
  then show ?case unfolding safe_queue_def by simp blast
next
  case (release j ch q w i)
  then show ?case unfolding safe_queue_def by (cases ch) (simp, blast)
qed

lemma queue_steps_safe: "queue_steps w w' \<Longrightarrow> safe_queue w \<Longrightarrow> safe_queue w'"
  by (induction rule: rtranclp_induct) (auto intro: queue_step_safe)

lemma no_work_safe: "safe_queue no_work"
  by (simp add: safe_queue_def no_work_def)

section \<open>The abstraction\<close>

definition per_process :: "(('ps, 'j, 'u) IceFlow \<Rightarrow> 'x set) \<Rightarrow> ('ps, 'j, 'u, 'a) network \<Rightarrow> (nat \<times> 'x) set" where
  "per_process P s = {(i, x). \<exists>f a. s i = Some (f, a) \<and> x \<in> P f}"

lemma per_process_more:
  assumes "s i = Some (f, a)" and "P f' = P f \<union> N"
  shows "per_process P (s(i \<mapsto> (f', a'))) = per_process P s \<union> {i} \<times> N"
  using assms by (auto simp: per_process_def split: if_splits)

lemma per_process_same:
  "s i = Some (f, a) \<Longrightarrow> P f' = P f \<Longrightarrow> per_process P (s(i \<mapsto> (f', a'))) = per_process P s"
  using per_process_more [of s i f a P f' "{}"] by simp

lemma per_process_less:
  fixes P :: "('ps, 'j, 'u) IceFlow \<Rightarrow> 'x set"
  assumes "s i = Some (f, a)" and "P f' = P f - N"
  shows "per_process P (s(i \<mapsto> (f', a'))) = per_process P s - {i} \<times> N"
proof (rule set_eqI)
  fix kx :: "nat \<times> 'x"
  obtain k x where "kx = (k, x)" by (rule prod.exhaust)
  then show "kx \<in> per_process P (s(i \<mapsto> (f', a'))) \<longleftrightarrow> kx \<in> per_process P s - {i} \<times> N"
    using assms by (cases "k = i") (simp_all add: per_process_def)
qed

lemma per_process_new:
  "s i = None \<Longrightarrow> per_process P (s(i \<mapsto> (f, a))) = per_process P s \<union> {i} \<times> P f"
  by (auto simp: per_process_def split: if_splits)

definition channels_of :: "('ps, 'j, 'u) IceFlow \<Rightarrow> channel set" where
  "channels_of f = {m_syncPrefix f} \<times> set (producer_edges f)"

definition units_sent ::
    "('ps, 'j, 'n, 'u, 'a) deployment \<Rightarrow> ('ps, 'j, 'u) IceFlow \<Rightarrow> 'n publication set \<Rightarrow> (channel \<times> u64) set" where
  "units_sent D f X = {((sp, e), q). sp = m_syncPrefix f \<and>
     (\<exists>x \<in> X. data_publication (d_svs D) f e x \<and> q = snd (snd (snd x)))}"

definition numbers_acknowledged ::
    "('ps, 'j, 'n, 'u, 'a) deployment \<Rightarrow> ('ps, 'j, 'u) IceFlow \<Rightarrow> 'n publication set \<Rightarrow> (channel \<times> u64) set" where
  "numbers_acknowledged D f X = {((sp, e), q). sp = m_syncPrefix f \<and>
     (\<exists>x \<in> X. ack_publication (d_svs D) (d_json D) f e q x)}"

definition packets_of ::
    "('ps, 'j, 'n, 'u, 'a) deployment \<Rightarrow> ('ps \<Rightarrow> 'n set) \<Rightarrow> ('ps, 'j, 'u) IceFlow \<Rightarrow> u64 set" where
  "packets_of D store f =
     {q. packetName (d_svs D) (m_nodePrefix f) (m_syncPrefix f) q \<in> store (m_svsPubSub f)}"

definition work_of ::
    "('ps, 'j, 'n, 'u, 'a) deployment \<Rightarrow> ('ps \<Rightarrow> 'n set) \<Rightarrow> ('ps, 'j, 'u, 'a) network \<Rightarrow> work_queue" where
  "work_of D store s =
     \<lparr>senders = per_process channels_of s,
      sent = per_process (\<lambda>f. units_sent D f (set (d_pubs D (m_svsPubSub f)))) s,
      acknowledged = per_process (\<lambda>f. numbers_acknowledged D f (set (d_pubs D (m_svsPubSub f)))) s,
      kept = per_process (packets_of D store) s\<rparr>"

lemma work_of_nothing: "work_of D store Map.empty = no_work"
  by (simp add: work_of_def no_work_def per_process_def)

lemma units_sent_union: "units_sent D f (X \<union> Y) = units_sent D f X \<union> units_sent D f Y"
  by (auto simp: units_sent_def)

lemma numbers_acknowledged_union:
  "numbers_acknowledged D f (X \<union> Y) = numbers_acknowledged D f X \<union> numbers_acknowledged D f Y"
  by (auto simp: numbers_acknowledged_def)

lemma no_publications: "units_sent D f {} = {}" "numbers_acknowledged D f {} = {}"
  by (simp_all add: units_sent_def numbers_acknowledged_def)

lemma frame_work:
  assumes "node_frame f f'"
  shows "channels_of f' = channels_of f" and "units_sent D f' = units_sent D f"
    and "numbers_acknowledged D f' = numbers_acknowledged D f"
proof -
  have sp: "m_syncPrefix f' = m_syncPrefix f" using assms by (simp add: node_frame_def)
  show "channels_of f' = channels_of f" by (simp add: channels_of_def sp frame_producer_edges [OF assms])
  show "units_sent D f' = units_sent D f" "numbers_acknowledged D f' = numbers_acknowledged D f"
    by (simp_all add: units_sent_def numbers_acknowledged_def sp publications_frame [OF assms] fun_eq_iff)
qed

lemma data_no_ack: "data_publication S f e x \<Longrightarrow> \<not> ack_publication S' J g e' q x"
  by (auto simp: data_publication_def ack_publication_def)

text \<open>What the process at \<open>i\<close> adds when its publications grow.\<close>

lemma work_of_update:
  assumes "s i = Some (f, a)" and "node_frame f f'"
    and "d_pubs D (m_svsPubSub f') = d_pubs D (m_svsPubSub f) @ new"
  shows "work_of D store (s(i \<mapsto> (f', a'))) = (work_of D store s)
    \<lparr>sent := sent (work_of D store s) \<union> {i} \<times> units_sent D f (set new),
     acknowledged := acknowledged (work_of D store s) \<union> {i} \<times> numbers_acknowledged D f (set new),
     kept := per_process (packets_of D store) (s(i \<mapsto> (f', a')))\<rparr>"
  using per_process_same [where s = s and i = i and f = f and a = a and f' = f' and a' = a' and P = channels_of]
    per_process_more [where s = s and i = i and f = f and a = a and f' = f' and a' = a' and
      P = "\<lambda>f. units_sent D f (set (d_pubs D (m_svsPubSub f)))" and N = "units_sent D f (set new)"]
    per_process_more [where s = s and i = i and f = f and a = a and f' = f' and a' = a' and
      P = "\<lambda>f. numbers_acknowledged D f (set (d_pubs D (m_svsPubSub f)))" and N = "numbers_acknowledged D f (set new)"]
  by (simp add: work_of_def assms frame_work [OF assms(2)] units_sent_union numbers_acknowledged_union)

section \<open>The simulation\<close>

text \<open>A deployment whose libraries keep a data store, and whose subscriptions match their own name.\<close>

locale storing =
  deployed D invar store of_str of_obj of_arr +
  svs_store "d_svs D" invar "d_used D" "d_subs D" "d_pubs D" store packet
  for D :: "('ps, 'j, 'n, 'u, 'a) deployment" and invar :: "'ps \<Rightarrow> bool" and store :: "'ps \<Rightarrow> 'n set"
    and of_str :: "string \<Rightarrow> 'j" and of_obj :: "(string \<times> 'j) list \<Rightarrow> 'j"
    and of_arr :: "'j list \<Rightarrow> 'j" and packet :: "'ps \<Rightarrow> 'n \<Rightarrow> u64 \<Rightarrow> 'n" +
  assumes matches_refl: "d_matches D n n"
begin

lemma ack_unique:
  assumes "process_ok D invar f" and "ack_publication (d_svs D) (d_json D) f e q x"
    and "ack_publication (d_svs D) (d_json D) f e' q' x"
  shows "e = e' \<and> q = q'"
proof -
  obtain n d who seq where x: "x = (n, d, who, seq)" by (rule prod_cases4)
  have edges: "e \<in> set (consumer_edges f)" "e' \<in> set (consumer_edges f)"
    and names: "backName (d_svs D) (m_syncPrefix f) e = backName (d_svs D) (m_syncPrefix f) e'"
    and pay: "ackPayload (d_json D) q = ackPayload (d_json D) q'"
    using assms(2,3) by (simp_all add: ack_publication_def x)
  have "{(m_syncPrefix f, e), (m_syncPrefix f, e')} \<subseteq> d_topics D"
    using edge_topic [OF assms(1)] edges by simp
  from back_back [OF this] names matches_refl have "e = e'" by simp
  moreover have "(Inr (j_of_u64 (d_json D) q) :: exn + 'j) = Inr (j_of_u64 (d_json D) q')"
    using arg_cong [OF pay [unfolded ackPayload_def], of "j_parse (d_json D)"] unfolding parse_dump_num .
  then have num: "j_of_u64 (d_json D) q = j_of_u64 (d_json D) q'" by (rule sum.inject(2) [THEN iffD1])
  have "(Inr q :: exn + u64) = Inr q'"
    using arg_cong [OF num, of "j_get_u64 (d_json D)"] unfolding get_u64_num .
  then have "q = q'" by (rule sum.inject(2) [THEN iffD1])
  ultimately show ?thesis by simp
qed

text \<open>The store of every node names its packets as the code expects.\<close>

definition packets_named :: "('ps, 'j, 'u, 'a) network \<Rightarrow> bool" where
  "packets_named s \<longleftrightarrow> (\<forall>i f a. s i = Some (f, a) \<longrightarrow> (\<forall>np q.
     packet (m_svsPubSub f) (name_of (d_svs D) np) q = packetName (d_svs D) np (m_syncPrefix f) q))"

lemma unit_packets:
  assumes "packets_named s" and "s i = Some (f, a)" and "node_grows f f'" and "node_frame f f'"
    and "d_pubs D (m_svsPubSub f') = d_pubs D (m_svsPubSub f) @ new"
  shows "(ch, q) \<in> units_sent D f (set new) \<Longrightarrow> ch \<in> channels_of f \<and> q \<in> packets_of D store f'"
    and "packets_of D store f \<subseteq> packets_of D store f'"
proof -
  have same: "m_nodePrefix f' = m_nodePrefix f" "m_syncPrefix f' = m_syncPrefix f"
    using assms(4) by (simp_all add: node_frame_def)
  then show "packets_of D store f \<subseteq> packets_of D store f'"
    using assms(3) by (auto simp: packets_of_def store_grows_def)
  show "ch \<in> channels_of f \<and> q \<in> packets_of D store f'" if unit: "(ch, q) \<in> units_sent D f (set new)"
  proof -
    from unit obtain e n d w where x: "(n, d, w, q) \<in> set new"
      and data: "data_publication (d_svs D) f e (n, d, w, q)" and ch: "ch = (m_syncPrefix f, e)"
      by (auto simp: units_sent_def)
    have w: "w = Some (name_of (d_svs D) (m_nodePrefix f))" using data by (auto simp: data_publication_def)
    have "packet (m_svsPubSub f) (name_of (d_svs D) (m_nodePrefix f)) q \<in> store (m_svsPubSub f')"
      using assms(3,5) x w unfolding store_grows_def by (metis same_append_eq)
    then have "packetName (d_svs D) (m_nodePrefix f) (m_syncPrefix f) q \<in> store (m_svsPubSub f')"
      using assms(1,2) unfolding packets_named_def by simp
    with data_publication_edge [OF data] same ch show ?thesis
      by (auto simp: packets_of_def channels_of_def)
  qed
qed

text \<open>One process makes publications, and its store grows.\<close>

lemma grown_simulated:
  assumes "packets_named s" and "s i = Some (f, a)" and "node_grows f f'" and "node_frame f f'"
    and "d_pubs D (m_svsPubSub f') = d_pubs D (m_svsPubSub f) @ new"
    and "\<And>e q x. x \<in> set new \<Longrightarrow> ack_publication (d_svs D) (d_json D) f e q x \<Longrightarrow> unit_published D s (m_syncPrefix f) e q"
  shows "queue_steps (work_of D store s) (work_of D store (s(i \<mapsto> (f', a'))))"
proof -
  note packets = unit_packets [OF assms(1-5)]
  show ?thesis
    unfolding work_of_update [where s = s and i = i, OF assms(2,4,5)]
  proof (rule send_and_acknowledge)
    fix k ch q assume "(k, ch, q) \<in> {i} \<times> units_sent D f (set new)"
    then show "(k, ch) \<in> senders (work_of D store s) \<and>
        (k, q) \<in> per_process (packets_of D store) (s(i \<mapsto> (f', a')))"
      using packets(1) [of ch q] assms(2) by (auto simp: work_of_def per_process_def)
  next
    show "kept (work_of D store s) \<subseteq> per_process (packets_of D store) (s(i \<mapsto> (f', a')))"
      using subsetD [OF packets(2)] assms(2) by (auto simp: work_of_def per_process_def split: if_splits)
  next
    fix j ch q assume "(j, ch, q) \<in> {i} \<times> numbers_acknowledged D f (set new)"
    then obtain e x where x: "x \<in> set new" "ack_publication (d_svs D) (d_json D) f e q x" "ch = (m_syncPrefix f, e)"
      by (auto simp: numbers_acknowledged_def)
    from assms(6) [OF this(1,2)] obtain k g b y where "s k = Some (g, b)" "m_syncPrefix g = m_syncPrefix f"
      "y \<in> set (d_pubs D (m_svsPubSub g))" "data_publication (d_svs D) g e y" "snd (snd (snd y)) = q"
      unfolding unit_published_def by blast
    then have "(k, ch, q) \<in> sent (work_of D store s)"
      unfolding x(3) by (force simp: work_of_def per_process_def units_sent_def)
    then show "\<exists>k. (k, ch, q) \<in> sent (work_of D store s)" by blast
  qed
qed

text \<open>One process erases the packet of a number that was acknowledged on one of its channels.\<close>

lemma erased_simulated:
  assumes "s i = Some (f, a)" and "node_frame f f'" and "d_pubs D (m_svsPubSub f') = d_pubs D (m_svsPubSub f)"
    and "store (m_svsPubSub f') =
      store (m_svsPubSub f) - {packetName (d_svs D) (m_nodePrefix f) (m_syncPrefix f) q}"
    and "s j = Some (g, b)" and "m_syncPrefix g = m_syncPrefix f" and "e \<in> set (producer_edges f)"
    and "x \<in> set (d_pubs D (m_svsPubSub g))" and "ack_publication (d_svs D) (d_json D) g e q x"
  shows "queue_steps (work_of D store s) (work_of D store (s(i \<mapsto> (f', a'))))"
proof -
  let ?w = "work_of D store s"
  have same: "m_nodePrefix f' = m_nodePrefix f" "m_syncPrefix f' = m_syncPrefix f"
    using assms(2) by (simp_all add: node_frame_def)
  have "packets_of D store f' = packets_of D store f - {q}"
    by (auto simp: packets_of_def same assms(4) packetName_def number_inject)
  then have "per_process (packets_of D store) (s(i \<mapsto> (f', a'))) = kept ?w - {(i, q)}"
    using per_process_less [where s = s and i = i and P = "packets_of D store", OF assms(1)] by (simp add: work_of_def)
  with work_of_update [where s = s and i = i and new = "[]" and D = D and store = store, OF assms(1,2)] assms(3)
  have "work_of D store (s(i \<mapsto> (f', a'))) = ?w\<lparr>kept := kept ?w - {(i, q)}\<rparr>"
    by (simp add: no_publications)
  moreover have "(j, (m_syncPrefix f, e), q) \<in> acknowledged ?w"
    using assms(5,6,8,9) by (force simp: work_of_def per_process_def numbers_acknowledged_def)
  moreover have "(i, m_syncPrefix f, e) \<in> senders ?w"
    using assms(1,7) by (auto simp: work_of_def per_process_def channels_of_def)
  ultimately show ?thesis using queue_step.release [of j _ q ?w i] by (auto intro: r_into_rtranclp)
qed

text \<open>A process joins.\<close>

lemma joined_simulated:
  assumes "s i = None" and "d_pubs D (m_svsPubSub f) = []"
  shows "queue_steps (work_of D store s) (work_of D store (s(i \<mapsto> (f, a))))"
proof -
  let ?w = "work_of D store s" and ?w' = "work_of D store (s(i \<mapsto> (f, a)))"
  let ?w1 = "?w\<lparr>senders := senders ?w \<union> {i} \<times> channels_of f\<rparr>"
  let ?K = "kept ?w \<union> {i} \<times> packets_of D store f"
  have "?w' = ?w1\<lparr>sent := sent ?w1 \<union> {}, kept := ?K\<rparr>"
    using assms by (simp add: work_of_def per_process_new no_publications)
  moreover have "queue_step ?w1 (?w1\<lparr>sent := sent ?w1 \<union> {}, kept := ?K\<rparr>)"
    by (rule queue_step.send) simp_all
  ultimately show ?thesis using queue_step.join [of ?w "{i} \<times> channels_of f"]
    by (metis r_into_rtranclp rtranclp.rtrancl_into_rtrancl)
qed

lemma named_update:
  assumes "packets_named s" and "s i = Some (f, a)" and "packet (m_svsPubSub f') = packet (m_svsPubSub f)"
    and "node_frame f f'"
  shows "packets_named (s(i \<mapsto> (f', a')))"
  using assms unfolding packets_named_def node_frame_def by (auto split: if_splits)

lemma grown_step:
  assumes "packets_named s" and "s i = Some (f, a)" and "node_grows f f'" and "node_frame f f'"
    and "\<And>e q x new. d_pubs D (m_svsPubSub f') = d_pubs D (m_svsPubSub f) @ new \<Longrightarrow> x \<in> set new \<Longrightarrow>
      ack_publication (d_svs D) (d_json D) f e q x \<Longrightarrow> unit_published D s (m_syncPrefix f) e q"
  shows "queue_steps (work_of D store s) (work_of D store (s(i \<mapsto> (f', a')))) \<and>
    packets_named (s(i \<mapsto> (f', a')))"
proof
  obtain new where new: "d_pubs D (m_svsPubSub f') = d_pubs D (m_svsPubSub f) @ new"
    and same: "packet (m_svsPubSub f') = packet (m_svsPubSub f)"
    using assms(3) unfolding store_grows_def by blast
  show "queue_steps (work_of D store s) (work_of D store (s(i \<mapsto> (f', a'))))"
    by (rule grown_simulated [where s = s and i = i, OF assms(1-4) new]) (rule assms(5) [OF new])
  show "packets_named (s(i \<mapsto> (f', a')))"
    by (rule named_update [where s = s and i = i, OF assms(1,2) same assms(4)])
qed

text \<open>A step that leaves the pub/sub instance alone, or only adds units.\<close>

lemma units_step:
  assumes "packets_named s" and "s i = Some (f, a)" and "node_grows f f'" and "node_frame f f'"
    and "d_pubs D (m_svsPubSub f') = d_pubs D (m_svsPubSub f) @ new"
    and "\<forall>x \<in> set new. \<exists>e. data_publication (d_svs D) f e x"
  shows "queue_steps (work_of D store s) (work_of D store (s(i \<mapsto> (f', a')))) \<and>
    packets_named (s(i \<mapsto> (f', a')))"
proof (rule grown_step [where s = s and i = i, OF assms(1-4)])
  fix e q x new'
  assume "d_pubs D (m_svsPubSub f') = d_pubs D (m_svsPubSub f) @ new'" "x \<in> set new'"
    "ack_publication (d_svs D) (d_json D) f e q x"
  with assms(5,6) data_no_ack show "unit_published D s (m_syncPrefix f) e q" by fastforce
qed

lemma joined_step:
  fixes f :: "('ps, 'j, 'u) IceFlow"
  assumes "packets_named s" and "s i = None" and "findNodeByName d nodeName = Inr node"
    and "length (downstream node) < 2 ^ 32" and "newIceFlow (d_svs D) uuid time now d nodeName r = Inr f"
  shows "queue_steps (work_of D store s) (work_of D store (s(i \<mapsto> (f, a)))) \<and> packets_named (s(i \<mapsto> (f, a)))"
proof
  have "d_pubs D (m_svsPubSub f) = []" using newIceFlow_svs [OF svs_axioms assms(3-5)] by blast
  then show "queue_steps (work_of D store s) (work_of D store (s(i \<mapsto> (f, a))))"
    by (rule joined_simulated [where s = s and i = i, OF assms(2)])
  obtain f0 f1 :: "('ps, 'j, 'u) IceFlow" where f1: "constructProducers (d_svs D) time (downstream node) f0 = Inr f1"
    and f0: "m_svsPubSub f0 = svs_new (d_svs D) (name_of (d_svs D) (m_syncPrefix f)) (name_of (d_svs D) (m_nodePrefix f))"
    and f: "m_svsPubSub f = m_svsPubSub f1"
    by (rule newIceFlow_producers [OF assms(3,5)])
  have "packet (m_svsPubSub f) = packet (m_svsPubSub f0)"
    using producers_grow [OF _ _ f1] assms(4) by (simp add: f f0 new_simps store_grows_def)
  then have "packet (m_svsPubSub f) (name_of (d_svs D) np) q = packetName (d_svs D) np (m_syncPrefix f) q" for np q
    by (simp add: f0 new_packet packetName_def)
  with assms(1) show "packets_named (s(i \<mapsto> (f, a)))" unfolding packets_named_def by simp
qed

lemma delivered_step:
  assumes "network_ok D invar s" and "packets_named s" and "s i = Some (f, a)" and "s j = Some (g, b)"
    and "(n, d, who, seq) \<in> set (d_pubs D (m_svsPubSub g))"
    and "(m, cb) \<in> ran (d_subs D (m_svsPubSub f))" and "d_matches D m n"
    and "handleEvent (d_svs D) (d_json D) (d_app D i)
      (Arrived cb \<lparr>sub_name = n, sub_data = d, sub_seqNo = seq\<rparr> now) (f, a) = (r, f', a')"
  shows "queue_steps (work_of D store s) (work_of D store (s(i \<mapsto> (f', a')))) \<and>
    packets_named (s(i \<mapsto> (f', a')))"
proof (cases cb)
  case (Consumer_callback e0)
  note ok = network_process [OF assms(1,3)]
  let ?d = "\<lparr>sub_name = n, sub_data = d, sub_seqNo = seq\<rparr>"
  have ev: "handleEvent (d_svs D) (d_json D) (d_app D i) (Arrived (Consumer_callback e0) ?d now) (f, a) = (r, f', a')"
    using assms(8) Consumer_callback by simp
  then have f': "f' = fst (snd (onConsumerData (d_svs D) (d_json D) (d_app D i) e0 ?d now (f, a)))" by simp
  have pub: "unit_published D s (m_syncPrefix f) e0 seq"
    using delivered_unit [OF assms(1,3,4,5), of m e0] assms(4-7) Consumer_callback
    unfolding unit_published_def by fastforce
  obtain new where new: "d_pubs D (m_svsPubSub f') = d_pubs D (m_svsPubSub f) @ new"
    "\<forall>x \<in> set new. (\<exists>e. data_publication (d_svs D) f e x) \<or>
       ack_publication (d_svs D) (d_json D) f e0 seq x"
    using event_publications [OF svs_axioms ok(2,3) ev] by auto
  show ?thesis
  proof (rule grown_step [where s = s and i = i, OF assms(2,3)])
    show "node_grows f f'" unfolding f' by (rule consumer_data_grows [OF ok(2)])
    show "node_frame f f'" unfolding f' by (rule onConsumerData_frame)
    fix e q x new'
    assume "d_pubs D (m_svsPubSub f') = d_pubs D (m_svsPubSub f) @ new'" "x \<in> set new'"
      and ack: "ack_publication (d_svs D) (d_json D) f e q x"
    with new data_no_ack have "ack_publication (d_svs D) (d_json D) f e0 seq x" by fastforce
    from ack_unique [OF ok(1) ack this] pub show "unit_published D s (m_syncPrefix f) e q" by simp
  qed
next
  case (Backchannel_handler np sp)
  note ok = network_process [OF assms(1,3)]
  let ?d = "\<lparr>sub_name = n, sub_data = d, sub_seqNo = seq\<rparr>"
  have "d_matches D m (fst (n, d, who, seq))" using assms(7) by simp
  from delivered_ack [OF assms(1,3,4,5) assms(6) [unfolded Backchannel_handler] this] obtain e q where
    self: "np = m_nodePrefix f" "sp = m_syncPrefix f" "m_syncPrefix g = m_syncPrefix f"
    and e: "e \<in> set (producer_edges f)" and ack: "ack_publication (d_svs D) (d_json D) g e q (n, d, who, seq)"
    by blast
  have "sub_data ?d = ackPayload (d_json D) q" using ack by (simp add: ack_publication_def)
  from handleBackchannel_ack [OF json_api_axioms svs_axioms ok(2) this, of np sp] obtain ps' where
    ps': "handleBackchannel (d_svs D) (d_json D) np sp ?d (m_svsPubSub f) = (Inr (), ps')"
    "store ps' = store (m_svsPubSub f) - {packetName (d_svs D) np sp q}" "d_pubs D ps' = d_pubs D (m_svsPubSub f)"
    by blast
  have f': "f' = f\<lparr>m_svsPubSub := ps'\<rparr>" using assms(8) Backchannel_handler ps'(1) by simp
  have "packet ps' = packet (m_svsPubSub f)"
    using ps'(1) erase_packet [OF ok(2)]
    by (auto simp: handleBackchannel_def Let_def split: sum.splits if_splits)
  with named_update [where s = s and i = i, OF assms(2,3), of f'] have "packets_named (s(i \<mapsto> (f', a')))"
    by (simp add: f')
  moreover have "queue_steps (work_of D store s) (work_of D store (s(i \<mapsto> (f', a'))))"
    by (rule erased_simulated [where s = s and i = i, OF assms(3) _ _ _ assms(4) self(3) e assms(5) ack])
      (simp_all add: f' ps' self(1,2))
  ultimately show ?thesis by simp
qed

lemma step_simulated:
  assumes "network_ok D invar s" and "packets_named s" and "net_step D s s'"
  shows "queue_steps (work_of D store s) (work_of D store s') \<and> packets_named s'"
  using assms(3)
proof cases
  case (joined i d nodeName node uuid time now r f a)
  then show ?thesis using joined_step [OF assms(2)] by simp
next
  case (pushed i f a payload e r f' a')
  note ok = network_process [OF assms(1) pushed(2)]
  have f': "f' = snd (pushData (d_svs D) payload e f)" using pushed(3) by simp
  obtain new where new: "d_pubs D (m_svsPubSub f') = d_pubs D (m_svsPubSub f) @ new"
    "\<forall>x \<in> set new. \<exists>e. data_publication (d_svs D) f e x"
    using push_publications [OF svs_axioms ok(2,3), of payload e] f' by blast
  have "node_grows f f'" "node_frame f f'"
    unfolding f' by (rule push_grows [OF ok(2)], rule pushData_node_frame)
  from units_step [where s = s and i = i, OF assms(2) pushed(2) this new] show ?thesis unfolding pushed(1) .
next
  case (consumer_repartitioned i f a ps e r f' a')
  note ok = network_process [OF assms(1) consumer_repartitioned(2)]
  have f': "f' = snd (repartitionConsumer (d_svs D) ps e f)" using consumer_repartitioned(4) by simp
  have pubs: "d_pubs D (m_svsPubSub f') = d_pubs D (m_svsPubSub f) @ []"
    using repartitionConsumer_svs [OF svs_axioms ok(2) consumer_repartitioned(3), of e] f' by simp
  have "node_grows f f'" "node_frame f f'"
    unfolding f' by (rule repartition_grows [OF ok(2) consumer_repartitioned(3)], rule repartitionConsumer_frame)
  from units_step [where s = s and i = i, OF assms(2) consumer_repartitioned(2) this pubs]
  show ?thesis unfolding consumer_repartitioned(1) by simp
next
  case (producer_repartitioned i f a n e r f' a')
  have f': "f' = snd (repartitionProducer n e f)" using producer_repartitioned(3) by simp
  have ps: "m_svsPubSub f' = m_svsPubSub f" and frame: "node_frame f f'"
    unfolding f' by (rule repartitionProducer_frame)+
  then have "node_grows f f'" "d_pubs D (m_svsPubSub f') = d_pubs D (m_svsPubSub f) @ []" by simp_all
  from units_step [where s = s and i = i, OF assms(2) producer_repartitioned(2) this(1) frame this(2)]
  show ?thesis unfolding producer_repartitioned(1) by simp
next
  case (callback_registered i f a cb e r f' a')
  have f': "f' = snd (registerConsumerCallback cb e f)" using callback_registered(3) by simp
  have ps: "m_svsPubSub f' = m_svsPubSub f" and frame: "node_frame f f'"
    unfolding f' by (rule registerConsumerCallback_frame)+
  then have "node_grows f f'" "d_pubs D (m_svsPubSub f') = d_pubs D (m_svsPubSub f) @ []" by simp_all
  from units_step [where s = s and i = i, OF assms(2) callback_registered(2) this(1) frame this(2)]
  show ?thesis unfolding callback_registered(1) by simp
next
  case (stats_queried i f a now stats f' a')
  note ok = network_process [OF assms(1) stats_queried(2)]
  have f': "f' = snd (getConsumerStats (d_svs D) now f)" using stats_queried(3) by simp
  have pubs: "d_pubs D (m_svsPubSub f') = d_pubs D (m_svsPubSub f) @ []"
    using consumerStatsLoop_svs [OF svs_axioms ok(2), of now "m_iceflowConsumers f" "[]"] f'
    by (simp add: getConsumerStats_def split_beta)
  have "node_grows f f'" "node_frame f f'"
    unfolding f' by (rule stats_grows [OF ok(2)], rule getConsumerStats_frame)
  from units_step [where s = s and i = i, OF assms(2) stats_queried(2) this pubs]
  show ?thesis unfolding stats_queried(1) by simp
next
  case (started i f a a')
  have "node_grows f (f\<lparr>m_running := True\<rparr>)" "node_frame f (f\<lparr>m_running := True\<rparr>)"
    "d_pubs D (m_svsPubSub (f\<lparr>m_running := True\<rparr>)) = d_pubs D (m_svsPubSub f) @ []" by simp_all
  from units_step [where s = s and i = i, OF assms(2) started(2) this] show ?thesis unfolding started(1) by simp
next
  case (stopped i f a a')
  have "node_grows f (shutdown f)" "node_frame f (shutdown f)"
    "d_pubs D (m_svsPubSub (shutdown f)) = d_pubs D (m_svsPubSub f) @ []" by (simp_all add: shutdown_def)
  from units_step [where s = s and i = i, OF assms(2) stopped(2) this] show ?thesis unfolding stopped(1) by simp
next
  case (delivered i f a j g b n d who seq m cb now r f' a')
  then show ?thesis using delivered_step [OF assms(1,2)] by simp
qed

lemma reach_named: "net_reach D s \<Longrightarrow> packets_named s"
proof (induction rule: rtranclp_induct)
  case base
  then show ?case by (simp add: packets_named_def)
next
  case (step s s')
  then show ?case using step_simulated reach_ok by blast
qed

lemma reach_simulated: "net_reach D s \<Longrightarrow> queue_steps no_work (work_of D store s)"
proof (induction rule: rtranclp_induct)
  case base
  then show ?case by (simp add: work_of_nothing)
next
  case (step s s')
  then show ?case using step_simulated [OF reach_ok reach_named] by (meson rtranclp_trans)
qed

text \<open>No unit is given up before it was acknowledged.\<close>

lemma kept_or_acknowledged:
  assumes "net_reach D s" and "s i = Some (f, a)" and "(n, d, Some w, q) \<in> set (d_pubs D (m_svsPubSub f))"
  shows "packetName (d_svs D) (m_nodePrefix f) (m_syncPrefix f) q \<in> store (m_svsPubSub f) \<or>
    (\<exists>j g b e x. s j = Some (g, b) \<and> m_syncPrefix g = m_syncPrefix f \<and> e \<in> set (producer_edges f) \<and>
       x \<in> set (d_pubs D (m_svsPubSub g)) \<and> ack_publication (d_svs D) (d_json D) g e q x)"
proof -
  let ?w = "work_of D store s"
  have "safe_queue ?w" by (rule queue_steps_safe [OF reach_simulated [OF assms(1)] no_work_safe])
  then have safe: "(i, q) \<in> kept ?w \<or> (\<exists>j ch. (i, ch) \<in> senders ?w \<and> (j, ch, q) \<in> acknowledged ?w)"
    if "(i, ch, q) \<in> sent ?w" for ch using that unfolding safe_queue_def by blast
  have "justified D s f (n, d, Some w, q)"
    using reach_ok [OF assms(1)] assms(2,3) unfolding network_ok_def by blast
  then obtain e where "data_publication (d_svs D) f e (n, d, Some w, q)"
    by (auto simp: justified_def ack_publication_def)
  then have "(i, (m_syncPrefix f, e), q) \<in> sent ?w"
    using assms(2,3) by (force simp: work_of_def per_process_def units_sent_def)
  from safe [OF this] show ?thesis
  proof
    assume "(i, q) \<in> kept ?w"
    with assms(2) show ?thesis by (auto simp: work_of_def per_process_def packets_of_def)
  next
    assume "\<exists>j ch. (i, ch) \<in> senders ?w \<and> (j, ch, q) \<in> acknowledged ?w"
    then obtain j ch where ch: "(i, ch) \<in> senders ?w" "(j, ch, q) \<in> acknowledged ?w" by blast
    from ch(1) assms(2) obtain e where e: "e \<in> set (producer_edges f)" "ch = (m_syncPrefix f, e)"
      by (auto simp: work_of_def per_process_def channels_of_def)
    from ch(2) obtain g b x where "s j = Some (g, b)" "x \<in> set (d_pubs D (m_svsPubSub g))"
      "m_syncPrefix g = m_syncPrefix f" "ack_publication (d_svs D) (d_json D) g e q x"
      by (auto simp: work_of_def per_process_def numbers_acknowledged_def e(2))
    with e(1) show ?thesis by blast
  qed
qed

end

interpretation example_store:
  storing example_deployment ref_inv rs_store JString JObject JArray ref_packet
proof (rule storing.intro)
  show "deployed example_deployment ref_inv rs_store JString JObject JArray" by (rule example_net.deployed_axioms)
  show "svs_store (d_svs example_deployment) ref_inv (d_used example_deployment) (d_subs example_deployment)
      (d_pubs example_deployment) rs_store ref_packet"
    by (simp add: ref_store.svs_store_axioms)
  show "storing_axioms example_deployment" by unfold_locales simp
qed

section \<open>Properties\<close>

text \<open>
  C6: the network implements the work queues. Every reachable state of a deployment abstracts to a
  state that the abstract system of work queues can reach, and every step of the network to a
  sequence of its steps: a unit is only sent by a process with a producer for the channel, who
  keeps it; only numbers of sent units are acknowledged; and a process only gives up a packet
  whose number was acknowledged on one of its channels.
\<close>

theorem network_implements_work_queue:
  assumes "storing D invar store of_str of_obj of_arr packet" and "net_reach D s"
  shows "queue_steps no_work (work_of D store s) \<and>
    (\<forall>s'. net_step D s s' \<longrightarrow> queue_steps (work_of D store s) (work_of D store s'))"
  using storing.reach_simulated [OF assms] storing.step_simulated [OF assms(1) _ storing.reach_named [OF assms]]
    deployed.reach_ok [OF storing.axioms(1) [OF assms(1)] assms(2)] by blast

theorem network_implements_work_queue_witness:
  "queue_steps no_work (work_of example_deployment rs_store
     [0 \<mapsto> (example_upstream, 0), 1 \<mapsto> (example_registered, 0)])"
  using network_implements_work_queue [OF example_store.storing_axioms example_joined] by blast

end
