(* ===== verification/Back_Channels.thy ===== *)
theory Back_Channels
  imports Work_Queue
begin

text \<open>
  The back channels of a node over its whole life: no operation unsubscribes one, also not after
  a statistics query has left the consumers with handles that are no longer theirs. So every unit
  that can be delivered can also be settled.
\<close>

section \<open>Back channels stay\<close>

definition back_ok ::
    "('ps, 'n) ndn_ops \<Rightarrow> ('ps \<Rightarrow> u32 \<rightharpoonup> 'n \<times> callback) \<Rightarrow> ('ps, 'j, 'u) IceFlow \<Rightarrow> bool" where
  "back_ok S subs f \<longleftrightarrow>
     (\<forall>e \<in> set (producer_edges f). (backName S (m_syncPrefix f) e,
        Backchannel_handler (m_nodePrefix f) (m_syncPrefix f)) \<in> ran (subs (m_svsPubSub f))) \<and>
     (\<forall>hs \<in> set (map (m_subscriptionHandles \<circ> snd) (m_iceflowConsumers f)). \<forall>h \<in> set hs. \<forall>n np sp.
        subs (m_svsPubSub f) h \<noteq> Some (n, Backchannel_handler np sp))"

lemma back_ok_same:
  assumes "back_ok S subs f" and "node_frame f f'" and "subs (m_svsPubSub f') = subs (m_svsPubSub f)"
    and "map (m_subscriptionHandles \<circ> snd) (m_iceflowConsumers f') = map (m_subscriptionHandles \<circ> snd) (m_iceflowConsumers f)"
  shows "back_ok S subs f'"
  using assms(1,2) unfolding back_ok_def assms(3,4) frame_producer_edges [OF assms(2)] node_frame_def by simp

lemma evolved_handles:
  assumes "same_handles m m'"
  shows "map (m_subscriptionHandles \<circ> snd) m' = map (m_subscriptionHandles \<circ> snd) m"
  using arg_cong [OF assms [unfolded same_handles_def], of "map (\<lambda>(k, t, hs). hs)"]
  by (simp add: comp_def split_beta)

lemma set_adjust: "y \<in> set (adjust k g m) \<Longrightarrow> y \<in> set m \<or> y \<in> range (\<lambda>v. (k, g v))"
  by (induction m) (auto split: if_splits)

lemma handles_adjust:
  assumes "hs \<in> set (map (m_subscriptionHandles \<circ> snd) (adjust k (\<lambda>_. c) m))"
  shows "hs = m_subscriptionHandles c \<or> hs \<in> set (map (m_subscriptionHandles \<circ> snd) m)"
proof -
  obtain y where "y \<in> set (adjust k (\<lambda>_. c) m)" "hs = m_subscriptionHandles (snd y)" using assms by auto
  with set_adjust [of y k "\<lambda>_. c" m] show ?thesis by auto
qed

lemma back_ok_evolves:
  assumes "back_ok S subs f" and "node_evolves invar subs pubs f f'" and "node_frame f f'"
  shows "back_ok S subs f'"
  using assms(2) by (intro back_ok_same [OF assms(1,3)]) (auto simp: node_evolves_def evolved_handles)

lemma back_ok_new:
  assumes "svs S invar used subs pubs store" and "findNodeByName d nodeName = Inr node"
    and "length (downstream node) < 2 ^ 32" and "newIceFlow S uuid time now d nodeName r = Inr f"
  shows "back_ok S subs f"
proof -
  have "set (producer_edges f) = edge_id ` set (downstream node)"
    and "\<forall>(k, c) \<in> set (m_iceflowConsumers f). c = storedConsumer (m_syncPrefix f) k r (now k)"
    using newIceFlow_state [OF assms(4)] assms(2) by auto
  then show ?thesis
    using newIceFlow_svs [OF assms] by (auto simp: back_ok_def newConsumer_def)
qed

lemma back_ok_repartitioned:
  assumes "svs S invar used subs pubs store" and "invar (m_svsPubSub f)"
    and "used (m_svsPubSub f) + length ps < 2 ^ 32" and "back_ok S subs f"
  shows "back_ok S subs (snd (repartitionConsumer S ps e f))"
proof (cases "map_of (m_iceflowConsumers f) e")
  case None
  with assms(4) show ?thesis by (simp add: repartitionConsumer_def)
next
  case (Some c)
  obtain hs ps' where r: "repartition S e ps c (Some (m_svsPubSub f)) =
      (Inr True, c\<lparr>m_subscriptionHandles := hs\<rparr>, Some ps')"
    and hs: "map (subs ps') hs = map (\<lambda>p. Some (partition_sub S e c p)) ps"
    and frame: "\<And>h. h \<notin> set hs \<Longrightarrow>
       subs ps' h = (if h \<in> set (m_subscriptionHandles c) then None else subs (m_svsPubSub f) h)"
    and fresh: "set hs \<inter> dom (subs (m_svsPubSub f) |` (- set (m_subscriptionHandles c))) = {}"
    using repartition_fresh [OF assms(1-3), of e c] by auto
  let ?c = "c\<lparr>m_subscriptionHandles := hs\<rparr>"
  let ?f = "f\<lparr>m_svsPubSub := ps', m_iceflowConsumers := adjust e (\<lambda>_. ?c) (m_iceflowConsumers f)\<rparr>"
  have new: "snd (repartitionConsumer S ps e f) = ?f" by (simp add: repartitionConsumer_def Some r)
  have consumer: "\<exists>p. subs ps' h = Some (partition_sub S e c p)" if "h \<in> set hs" for h
  proof -
    have "subs ps' h \<in> set (map (subs ps') hs)" using that by simp
    then show ?thesis unfolding hs by auto
  qed
  have old: "subs (m_svsPubSub f) h \<noteq> Some (n, Backchannel_handler np sp)"
    if "hs' \<in> set (map (m_subscriptionHandles \<circ> snd) (m_iceflowConsumers f))" "h \<in> set hs'" for h n np sp hs'
    using assms(4) that unfolding back_ok_def by blast
  have c: "m_subscriptionHandles c \<in> set (map (m_subscriptionHandles \<circ> snd) (m_iceflowConsumers f))"
    using map_of_SomeD [OF Some] by force
  have kept: "subs ps' h = Some (n, Backchannel_handler np sp)"
    if h: "subs (m_svsPubSub f) h = Some (n, Backchannel_handler np sp)" for h n np sp
  proof -
    have "h \<notin> set (m_subscriptionHandles c)" using old [OF c] h by blast
    moreover from this h fresh have "h \<notin> set hs" by (auto simp: restrict_map_def dom_def)
    ultimately show ?thesis using frame [of h] h by simp
  qed
  have none: "subs ps' h \<noteq> Some (n, Backchannel_handler np sp)"
    if "hs' \<in> set (map (m_subscriptionHandles \<circ> snd) (m_iceflowConsumers ?f))" "h \<in> set hs'" for h n np sp hs'
  proof (cases "h \<in> set hs")
    case True
    then show ?thesis using consumer by (fastforce simp: partition_sub_def)
  next
    case False
    from that(1) have "hs' \<in> set (map (m_subscriptionHandles \<circ> snd) (adjust e (\<lambda>_. ?c) (m_iceflowConsumers f)))" by simp
    from handles_adjust [OF this] False that(2)
    have "hs' \<in> set (map (m_subscriptionHandles \<circ> snd) (m_iceflowConsumers f))" by auto
    from old [OF this that(2)] frame [OF False] show ?thesis by (simp split: if_splits)
  qed
  have "(backName S (m_syncPrefix f) e', Backchannel_handler (m_nodePrefix f) (m_syncPrefix f)) \<in> ran (subs ps')"
    if "e' \<in> set (producer_edges f)" for e'
  proof -
    from that assms(4) obtain h where
      "subs (m_svsPubSub f) h = Some (backName S (m_syncPrefix f) e', Backchannel_handler (m_nodePrefix f) (m_syncPrefix f))"
      unfolding back_ok_def ran_def by blast
    from kept [OF this] show ?thesis by (rule ranI)
  qed
  with none show ?thesis unfolding new back_ok_def by simp
qed

lemma back_ok_stats:
  assumes "svs S invar used subs pubs store" and "invar (m_svsPubSub f)" and "back_ok S subs f"
  shows "back_ok S subs (snd (getConsumerStats S now f))"
proof -
  let ?H = "\<Union> (set ` m_subscriptionHandles ` snd ` set (m_iceflowConsumers f))"
  obtain ps' where f': "snd (getConsumerStats S now f) = f\<lparr>m_svsPubSub := ps'\<rparr>"
    and subs: "subs ps' = subs (m_svsPubSub f) |` (- ?H)"
    using consumerStatsLoop_svs [OF assms(1,2), of now "m_iceflowConsumers f" "[]"]
    by (auto simp: getConsumerStats_def split_beta)
  have old: "subs (m_svsPubSub f) h \<noteq> Some (n, Backchannel_handler np sp)" if "h \<in> ?H" for h n np sp
    using assms(3) that unfolding back_ok_def by auto
  have kept: "x \<in> ran (subs ps')"
    if x: "x \<in> ran (subs (m_svsPubSub f))" "snd x = Backchannel_handler np sp" for x np sp
  proof -
    obtain h where h: "subs (m_svsPubSub f) h = Some x" using x(1) unfolding ran_def by blast
    with old [of h "fst x" np sp] x(2) have "h \<notin> ?H" by (cases x) auto
    with h have "subs ps' h = Some x" by (simp add: subs)
    then show ?thesis by (rule ranI)
  qed
  have "(backName S (m_syncPrefix f) e', Backchannel_handler (m_nodePrefix f) (m_syncPrefix f)) \<in> ran (subs ps')"
    if "e' \<in> set (producer_edges f)" for e'
    using assms(3) that unfolding back_ok_def by (intro kept [OF _ snd_conv]) blast
  moreover have "subs ps' h = None" if "h \<in> ?H" for h
    unfolding subs using that by (intro restrict_out) blast
  ultimately show ?thesis unfolding f' back_ok_def by force
qed

section \<open>Over the life of a network\<close>

definition backs_ok :: "('ps, 'j, 'n, 'u, 'a) deployment \<Rightarrow> ('ps, 'j, 'u, 'a) network \<Rightarrow> bool" where
  "backs_ok D s \<longleftrightarrow> (\<forall>i f a. s i = Some (f, a) \<longrightarrow> back_ok (d_svs D) (d_subs D) f)"

lemma backs_ok_update:
  "backs_ok D s \<Longrightarrow> back_ok (d_svs D) (d_subs D) f \<Longrightarrow> backs_ok D (s(i \<mapsto> (f, a)))"
  unfolding backs_ok_def by simp

lemma callback_handles:
  "map (m_subscriptionHandles \<circ> snd) (m_iceflowConsumers (snd (registerConsumerCallback cb e f))) =
     map (m_subscriptionHandles \<circ> snd) (m_iceflowConsumers f)"
proof -
  have "map (m_subscriptionHandles \<circ> snd) (adjust e (setConsumerCallback cb) m) =
      map (m_subscriptionHandles \<circ> snd) m" for m :: "(string \<times> 'a ConsumerCallback IceflowConsumer) list"
    by (induction m) (auto simp: setConsumerCallback_def)
  then show ?thesis by (simp add: registerConsumerCallback_def split: option.split)
qed

context deployed
begin

lemma step_backs:
  assumes "network_ok D invar s" and "backs_ok D s" and "net_step D s s'"
  shows "backs_ok D s'"
proof -
  have each: "back_ok (d_svs D) (d_subs D) f" if "s i = Some (f, a)" for i f a
    using assms(2) that unfolding backs_ok_def by blast
  note ok = network_process [OF assms(1)]
  from assms(3) show ?thesis
  proof cases
    case (joined i d nm node uuid time now r f a)
    then show ?thesis using backs_ok_update [OF assms(2) back_ok_new [OF svs_axioms]] by blast
  next
    case (pushed i f a payload e r f' a')
    have f': "f' = snd (pushData (d_svs D) payload e f)" using pushed(3) by simp
    have "subs (m_svsPubSub f') = subs (m_svsPubSub f)" if "subs = d_subs D" for subs
      using push_publications [OF svs_axioms ok(2,3) [OF pushed(2)], of payload e] that by (auto simp: f')
    then have "back_ok (d_svs D) (d_subs D) f'"
      unfolding f' by (intro back_ok_same [OF each [OF pushed(2)] pushData_node_frame]) simp_all
    from backs_ok_update [OF assms(2) this] show ?thesis unfolding pushed(1) .
  next
    case (consumer_repartitioned i f a ps e r f' a')
    have f': "f' = snd (repartitionConsumer (d_svs D) ps e f)" using consumer_repartitioned(4) by simp
    show ?thesis
      unfolding consumer_repartitioned(1) f'
      by (intro backs_ok_update [OF assms(2)] back_ok_repartitioned [OF svs_axioms
            ok(2) [OF consumer_repartitioned(2)] consumer_repartitioned(3) each [OF consumer_repartitioned(2)]])
  next
    case (producer_repartitioned i f a n e r f' a')
    have f': "f' = snd (repartitionProducer n e f)" using producer_repartitioned(3) by simp
    have "m_iceflowConsumers f' = m_iceflowConsumers f"
      by (simp add: f' repartitionProducer_def split: option.split sum.split)
    then have "back_ok (d_svs D) (d_subs D) f'"
      by (intro back_ok_same [OF each [OF producer_repartitioned(2)]])
        (simp_all add: f' repartitionProducer_frame del: list.map_comp map_map)
    from backs_ok_update [OF assms(2) this] show ?thesis unfolding producer_repartitioned(1) .
  next
    case (callback_registered i f a cb e r f' a')
    have f': "f' = snd (registerConsumerCallback cb e f)" using callback_registered(3) by simp
    have "back_ok (d_svs D) (d_subs D) f'"
      unfolding f' by (rule back_ok_same [OF each [OF callback_registered(2)] registerConsumerCallback_frame(1)])
        (simp add: registerConsumerCallback_frame, rule callback_handles)
    from backs_ok_update [OF assms(2) this] show ?thesis unfolding callback_registered(1) .
  next
    case (stats_queried i f a now stats f' a')
    have f': "f' = snd (getConsumerStats (d_svs D) now f)" using stats_queried(3) by simp
    show ?thesis
      unfolding stats_queried(1) f'
      by (intro backs_ok_update [OF assms(2)] back_ok_stats [OF svs_axioms ok(2) [OF stats_queried(2)]
            each [OF stats_queried(2)]])
  next
    case (started i f a a')
    have "back_ok (d_svs D) (d_subs D) (f\<lparr>m_running := True\<rparr>)" by (rule back_ok_same [OF each [OF started(2)]]) simp_all
    from backs_ok_update [OF assms(2) this] show ?thesis unfolding started(1) .
  next
    case (stopped i f a a')
    have "back_ok (d_svs D) (d_subs D) (shutdown f)"
      by (rule back_ok_same [OF each [OF stopped(2)]]) (simp_all add: shutdown_def)
    from backs_ok_update [OF assms(2) this] show ?thesis unfolding stopped(1) .
  next
    case (delivered i f a j g b n d who seq m cb now r f' a')
    let ?ev = "Arrived cb \<lparr>sub_name = n, sub_data = d, sub_seqNo = seq\<rparr> now"
    have f': "f' = fst (snd (handleEvent (d_svs D) (d_json D) (d_app D i) ?ev (f, a)))" using delivered(7) by simp
    have "node_frame f f'" unfolding f' by (rule handleEvent_frame)
    moreover have "node_evolves invar (d_subs D) (d_pubs D) f f'"
      using handleEvent_evolves [OF svs_axioms ok(2) [OF delivered(2)] delivered(7)] by blast
    ultimately have "back_ok (d_svs D) (d_subs D) f'" by (intro back_ok_evolves [OF each [OF delivered(2)]])
    from backs_ok_update [OF assms(2) this] show ?thesis unfolding delivered(1) .
  qed
qed

lemma reach_backs: "net_reach D s \<Longrightarrow> backs_ok D s"
proof (induction rule: rtranclp_induct)
  case base
  then show ?case by (simp add: backs_ok_def)
next
  case (step s s')
  then show ?case using step_backs reach_ok by blast
qed

end

text \<open>
  Two deliveries settle a unit: it arrives at a consumer whose callback returns, and the
  acknowledgement this publishes arrives back.
\<close>

context storing
begin

lemma settle:
  assumes "net_reach D s" and "s i = Some (f, a)" and "s j = Some (g, b)" and "i \<noteq> j"
    and "(n, d, Some w, q) \<in> set (d_pubs D (m_svsPubSub f))"
    and "(m, Consumer_callback e) \<in> ran (d_subs D (m_svsPubSub g))" and "d_matches D m n"
    and "map_of (m_iceflowConsumers g) e = Some c" and "m_consumerCallback c = Some cb"
    and "invokeCallback (d_svs D) (d_app D j) cb d (g, b) = (Inr (), g1, b1)"
    and "m_running f" and "m_running g"
  shows "\<exists>f' g'. net_step D s (s(j \<mapsto> (g', b1))) \<and>
    net_step D (s(j \<mapsto> (g', b1))) (s(j \<mapsto> (g', b1), i \<mapsto> (f', a))) \<and>
    node_frame f f' \<and> node_frame g g' \<and> d_pubs D (m_svsPubSub f') = d_pubs D (m_svsPubSub f) \<and>
    packetName (d_svs D) (m_nodePrefix f) (m_syncPrefix f) q \<notin> store (m_svsPubSub f')"
proof -
  note ok = reach_ok [OF assms(1)]
  note f = network_process [OF ok assms(2)] and g = network_process [OF ok assms(3)]
  have "d_matches D m (fst (n, d, Some w, q))" using assms(7) by simp
  from delivered_unit [OF ok assms(3,2,5,6) this]
  have sp: "m_syncPrefix f = m_syncPrefix g" and data: "data_publication (d_svs D) f e (n, d, Some w, q)"
    by blast+
  let ?bn = "backName (d_svs D) (m_syncPrefix f) e" and ?ack = "ackPayload (d_json D) q"
  have "m_subTopic c = m_syncPrefix g @ ''/'' @ e"
    using g(3) map_of_SomeD [OF assms(8)] by (auto simp: node_wf_def)
  then have bn: "backchannelName (d_svs D) (m_subTopic c) = ?bn" by (simp add: sp)
  note ev = invokeCallback_evolves [OF svs_axioms g(2) assms(10)]
  have "map_of (m_iceflowConsumers g1) e = Some c" using ev(2) assms(8) by simp
  from ack_published [OF svs_axioms evolves_invar [OF ev(1)] this, where n = ?bn and ack = ?ack and now = 0] obtain k where
    acked: "d_pubs D (snd (svs_publish (d_svs D) (m_svsPubSub g1) ?bn ?ack None)) =
      d_pubs D (m_svsPubSub g1) @ [(?bn, ?ack, None, k)]" by blast
  let ?d = "\<lparr>sub_name = n, sub_data = d, sub_seqNo = q\<rparr>"
  obtain g' where handled: "handleEvent (d_svs D) (d_json D) (d_app D j) (Arrived (Consumer_callback e) ?d 0) (g, b) =
      (Inr (), g', b1)" and pubs: "(?bn, ?ack, None, k) \<in> set (d_pubs D (m_svsPubSub g'))"
    using onConsumerData_returned [OF assms(8,9), of "d_svs D" "d_app D j" ?d b g1 b1 "d_json D" 0] assms(10) acked
    by (simp add: bn)
  let ?s1 = "s(j \<mapsto> (g', b1))"
  have step1: "net_step D s ?s1"
    by (rule net_step.delivered [OF assms(3,2,5,6,7) handled assms(12)])
  have s1: "?s1 i = Some (f, a)" "?s1 j = Some (g', b1)" using assms(2,4) by simp_all
  have "back_ok (d_svs D) (d_subs D) f" using reach_backs [OF assms(1)] assms(2) unfolding backs_ok_def by blast
  then have sub: "(?bn, Backchannel_handler (m_nodePrefix f) (m_syncPrefix f)) \<in> ran (d_subs D (m_svsPubSub f))"
    using data_publication_edge [OF data] unfolding back_ok_def by blast
  let ?a = "\<lparr>sub_name = ?bn, sub_data = ?ack, sub_seqNo = k\<rparr>"
  have "sub_data ?a = ?ack" by simp
  from handleBackchannel_ack [OF json_api_axioms svs_axioms f(2) this, of "m_nodePrefix f" "m_syncPrefix f"] obtain ps'
    where ps': "handleBackchannel (d_svs D) (d_json D) (m_nodePrefix f) (m_syncPrefix f) ?a (m_svsPubSub f) = (Inr (), ps')"
      and gone: "packetName (d_svs D) (m_nodePrefix f) (m_syncPrefix f) q \<notin> store ps'"
        "d_pubs D ps' = d_pubs D (m_svsPubSub f)" by auto
  have "handleEvent (d_svs D) (d_json D) (d_app D i)
      (Arrived (Backchannel_handler (m_nodePrefix f) (m_syncPrefix f)) ?a 0) (f, a) =
      (Inr (), f\<lparr>m_svsPubSub := ps'\<rparr>, a)" using ps' by simp
  from net_step.delivered [OF s1 pubs sub matches_refl this assms(11)]
  have step2: "net_step D ?s1 (?s1(i \<mapsto> (f\<lparr>m_svsPubSub := ps'\<rparr>, a)))" .
  have "g' = fst (snd (onConsumerData (d_svs D) (d_json D) (d_app D j) e ?d 0 (g, b)))" using handled by simp
  then have "node_frame g g'" using onConsumerData_frame by metis
  with step1 step2 gone show ?thesis
    by (intro exI [of _ "f\<lparr>m_svsPubSub := ps'\<rparr>"] exI [of _ g'] conjI) simp_all
qed

end

section \<open>Properties\<close>

text \<open>
  C11: the back channels of a node are never closed. In every reachable state of a deployment, every
  node is subscribed, for each of its downstream edges, to the back channel of the edge with the
  handler that erases what is acknowledged there, whatever repartitioning and statistics queries
  have done to the subscriptions of its consumers.
\<close>

theorem backchannels_stay_subscribed:
  assumes "deployed D invar store of_str of_obj of_arr" and "net_reach D s"
    and "s i = Some (f, a)" and "e \<in> set (producer_edges f)"
  shows "(backName (d_svs D) (m_syncPrefix f) e, Backchannel_handler (m_nodePrefix f) (m_syncPrefix f))
    \<in> ran (d_subs D (m_svsPubSub f))"
  using deployed.reach_backs [OF assms(1,2)] assms(3,4) unfolding backs_ok_def back_ok_def by blast

theorem backchannels_stay_subscribed_witness:
  "(backName ref_ndn ''/app'' ''t2l'', Backchannel_handler (m_nodePrefix example_upstream) ''/app'')
     \<in> ran (ref_subs (m_svsPubSub example_upstream))"
proof -
  have "''t2l'' \<in> set (producer_edges example_upstream)" unfolding example_upstream_state by simp
  with backchannels_stay_subscribed [OF example_net.deployed_axioms example_joined, of 0 example_upstream 0 "''t2l''"]
  show ?thesis by (simp add: example_upstream_state(2) del: list.set_map)
qed

text \<open>
  C9: every unit that can be delivered can be settled. From every reachable state of a deployment in
  which another process is subscribed to the name of a published unit and its callback returns for
  it, both event loops running, two deliveries lead to a state in which the callback has run and the
  producer has erased the unit's packet: the acknowledgement carries the unit's own sequence
  number, on the back channel the producer listens to.
\<close>

theorem unit_can_be_settled:
  assumes "storing D invar store of_str of_obj of_arr packet" and "net_reach D s"
    and "s i = Some (f, a)" and "s j = Some (g, b)" and "i \<noteq> j"
    and "(n, d, Some w, q) \<in> set (d_pubs D (m_svsPubSub f))"
    and "(m, Consumer_callback e) \<in> ran (d_subs D (m_svsPubSub g))" and "d_matches D m n"
    and "map_of (m_iceflowConsumers g) e = Some c" and "m_consumerCallback c = Some cb"
    and "invokeCallback (d_svs D) (d_app D j) cb d (g, b) = (Inr (), g1, b1)"
    and "m_running f" and "m_running g"
  shows "\<exists>s1 s' f' g'. net_step D s s1 \<and> net_step D s1 s' \<and> s' i = Some (f', a) \<and> s' j = Some (g', b1) \<and>
    packetName (d_svs D) (m_nodePrefix f) (m_syncPrefix f) q \<notin> store (m_svsPubSub f')"
proof -
  obtain f' g' where "net_step D s (s(j \<mapsto> (g', b1)))"
    "net_step D (s(j \<mapsto> (g', b1))) (s(j \<mapsto> (g', b1), i \<mapsto> (f', a)))"
    and gone: "packetName (d_svs D) (m_nodePrefix f) (m_syncPrefix f) q \<notin> store (m_svsPubSub f')"
    using storing.settle [OF assms] by blast
  then show ?thesis
    using assms(5) by (intro exI [of _ "s(j \<mapsto> (g', b1))"] exI [of _ "s(j \<mapsto> (g', b1), i \<mapsto> (f', a))"]
        exI [of _ f'] exI [of _ g'] conjI) simp_all
qed

theorem unit_can_be_settled_witness:
  "\<exists>s s1 s' f f' q n w a. net_reach example_deployment s \<and> s 0 = Some (f, a) \<and>
     (n, [42], Some w, q) \<in> set (rs_pubs (m_svsPubSub f)) \<and>
     net_step example_deployment s s1 \<and> net_step example_deployment s1 s' \<and> s' 0 = Some (f', a) \<and>
     packetName ref_ndn (m_nodePrefix f) (m_syncPrefix f) q \<notin> rs_store (m_svsPubSub f')"
proof (rule example_pushed)
  fix s f g c m who seq
  assume run: "net_reach example_deployment s" "s 0 = Some (f, 0)" "s 1 = Some (g, 0)"
    "(m, [42], Some who, seq) \<in> set (rs_pubs (m_svsPubSub f))"
    "(m, Consumer_callback ''t2l'') \<in> ran (ref_subs (m_svsPubSub g))"
    "map_of (m_iceflowConsumers g) ''t2l'' = Some c" "m_consumerCallback c = Some (Plain 0)"
    "m_running f" "m_running g"
  have "invokeCallback (d_svs example_deployment) (d_app example_deployment 1) (Plain 0) [42] (g, 0) = (Inr (), g, 0)"
    by (simp add: example_app_def)
  with unit_can_be_settled [OF example_store.storing_axioms run(1-3), of m "[42]" who seq m "''t2l''" c "Plain 0" g 0] run
  show ?thesis unfolding example_deployment_sels by simp blast
qed

end
