(* ===== verification/Processing.thy ===== *)
theory Processing
  imports Back_Channels
begin

text \<open>
  At-least-once processing: an acknowledgement is only ever published by a step in which a callback
  returned for a unit with the acknowledged number, so a packet only leaves the store of its
  producer after a unit with its number was processed.
\<close>

section \<open>Steps that process a unit\<close>

text \<open>
  From \<open>s\<close> to \<open>s'\<close> a process of the application \<open>sp\<close> has handed the unit \<open>x\<close> of the edge \<open>e\<close>,
  published by some process of the application, to the callback of its consumer, and the callback
  has returned.
\<close>

definition unit_processed ::
    "('ps, 'j, 'n, 'u, 'a) deployment \<Rightarrow> string \<Rightarrow> string \<Rightarrow> 'n publication
       \<Rightarrow> ('ps, 'j, 'u, 'a) network \<Rightarrow> ('ps, 'j, 'u, 'a) network \<Rightarrow> bool" where
  "unit_processed D sp e x s s' \<longleftrightarrow> (\<exists>j g b g' b' c cb g1 i f a.
     s j = Some (g, b) \<and> m_syncPrefix g = sp \<and> s' = s(j \<mapsto> (g', b')) \<and>
     map_of (m_iceflowConsumers g) e = Some c \<and> m_consumerCallback c = Some cb \<and>
     invokeCallback (d_svs D) (d_app D j) cb (fst (snd x)) (g, b) = (Inr (), g1, b') \<and>
     s i = Some (f, a) \<and> m_syncPrefix f = sp \<and> x \<in> set (d_pubs D (m_svsPubSub f)) \<and>
     data_publication (d_svs D) f e x)"

text \<open>Some step of a run to \<open>s\<close> was one.\<close>

definition was_processed ::
    "('ps, 'j, 'n, 'u, 'a) deployment \<Rightarrow> string \<Rightarrow> string \<Rightarrow> 'n publication \<Rightarrow> ('ps, 'j, 'u, 'a) network \<Rightarrow> bool" where
  "was_processed D sp e x s \<longleftrightarrow> (\<exists>s1 s2. net_reach D s1 \<and> net_step D s1 s2 \<and>
     unit_processed D sp e x s1 s2 \<and> (net_step D)\<^sup>*\<^sup>* s2 s)"

lemma was_processed_step: "was_processed D sp e x s \<Longrightarrow> net_step D s s' \<Longrightarrow> was_processed D sp e x s'"
  unfolding was_processed_def by (meson rtranclp.rtrancl_into_rtrancl)

lemma processed_now:
  "net_reach D s \<Longrightarrow> net_step D s s' \<Longrightarrow> unit_processed D sp e x s s' \<Longrightarrow> was_processed D sp e x s'"
  unfolding was_processed_def by blast

text \<open>An event acknowledges only what its callback has returned for.\<close>

lemma acknowledged_returned:
  assumes "svs S invar used subs pubs store" and "invar (m_svsPubSub f)" and "node_wf S f"
    and "onConsumerData S J app e d now (f, a) = (r, f', a')"
    and "pubs (m_svsPubSub f') = pubs (m_svsPubSub f) @ new" and "x \<in> set new"
    and "ack_publication S J f e' q x"
  shows "\<exists>c cb f1. map_of (m_iceflowConsumers f) e = Some c \<and> m_consumerCallback c = Some cb \<and>
    invokeCallback S app cb (sub_data d) (f, a) = (Inr (), f1, a')"
proof (cases "\<exists>c cb. map_of (m_iceflowConsumers f) e = Some c \<and> m_consumerCallback c = Some cb")
  case True
  then obtain c cb where c: "map_of (m_iceflowConsumers f) e = Some c" and cb: "m_consumerCallback c = Some cb"
    by blast
  obtain r1 f1 a1 where inv1: "invokeCallback S app cb (sub_data d) (f, a) = (r1, f1, a1)"
    by (rule prod_cases3)
  show ?thesis
  proof (cases r1)
    case (Inl y)
    note step = invokeCallback_evolves [OF assms(1,2) inv1]
    have "f' = f1" using onConsumerData_raised [OF c cb inv1 [unfolded Inl] step(2)] assms(4) by simp
    with callback_publications [OF assms(1-3) inv1] assms(5,6) obtain e1 where "data_publication S f e1 x" by auto
    with assms(7) show ?thesis by (auto dest: data_no_ack)
  next
    case (Inr u)
    then have inv2: "invokeCallback S app cb (sub_data d) (f, a) = (Inr (), f1, a1)" using inv1 by simp
    have "a1 = a'" using onConsumerData_returned [OF c cb inv2, of J now] assms(4) by simp
    with c cb inv2 show ?thesis by blast
  qed
next
  case False
  with assms(4) have "pubs (m_svsPubSub f') = pubs (m_svsPubSub f)"
    by (auto simp: onConsumerData_def subscribeCallBack_def split: option.splits)
  with assms(5,6) show ?thesis by simp
qed

section \<open>The kinds of steps\<close>

text \<open>
  Seen from outside, a process joins without publications, publishes units only, or hands a unit
  that was delivered to one of its consumers.
\<close>

context deployed
begin

lemma step_kinds:
  assumes "network_ok D invar s" and "net_step D s s'"
  obtains (join) i f a where "s i = None" and "s' = s(i \<mapsto> (f, a))" and "d_pubs D (m_svsPubSub f) = []"
  | (units) i f a f' a' new where "s i = Some (f, a)" and "s' = s(i \<mapsto> (f', a'))" and "node_frame f f'"
      and "d_pubs D (m_svsPubSub f') = d_pubs D (m_svsPubSub f) @ new"
      and "\<forall>x \<in> set new. \<exists>e. data_publication (d_svs D) f e x"
  | (delivery) i f a j g b n d w q m e now r f' a' where "s i = Some (f, a)" and "s j = Some (g, b)"
      and "(n, d, w, q) \<in> set (d_pubs D (m_svsPubSub g))"
      and "(m, Consumer_callback e) \<in> ran (d_subs D (m_svsPubSub f))" and "d_matches D m n"
      and "onConsumerData (d_svs D) (d_json D) (d_app D i) e \<lparr>sub_name = n, sub_data = d, sub_seqNo = q\<rparr> now (f, a)
        = (r, f', a')"
      and "s' = s(i \<mapsto> (f', a'))"
proof -
  note ok = network_process [OF assms(1)]
  from assms(2) show ?thesis
  proof cases
    case (joined i d nm node uuid time now r f a)
    have "d_pubs D (m_svsPubSub f) = []" using newIceFlow_svs [OF svs_axioms joined(3-5)] by blast
    with joined(1,2) show ?thesis by (intro that(1))
  next
    case (pushed i f a payload e r f' a')
    have f': "f' = snd (pushData (d_svs D) payload e f)" using pushed(3) by simp
    obtain new where "d_pubs D (m_svsPubSub f') = d_pubs D (m_svsPubSub f) @ new"
      "\<forall>x \<in> set new. \<exists>e. data_publication (d_svs D) f e x"
      using push_publications [OF svs_axioms ok(2,3) [OF pushed(2)], of payload e] f' by blast
    moreover have "node_frame f f'" unfolding f' by (rule pushData_node_frame)
    ultimately show ?thesis using that(2) [OF pushed(2,1)] by blast
  next
    case (consumer_repartitioned i f a ps e r f' a')
    have f': "f' = snd (repartitionConsumer (d_svs D) ps e f)" using consumer_repartitioned(4) by simp
    have "d_pubs D (m_svsPubSub f') = d_pubs D (m_svsPubSub f) @ []"
      using repartitionConsumer_svs [OF svs_axioms ok(2) [OF consumer_repartitioned(2)] consumer_repartitioned(3), of e] f' by simp
    moreover have "node_frame f f'" unfolding f' by (rule repartitionConsumer_frame)
    ultimately show ?thesis using that(2) [OF consumer_repartitioned(2,1)] by fastforce
  next
    case (producer_repartitioned i f a n e r f' a')
    have f': "f' = snd (repartitionProducer n e f)" using producer_repartitioned(3) by simp
    have "d_pubs D (m_svsPubSub f') = d_pubs D (m_svsPubSub f) @ []" "node_frame f f'"
      unfolding f' by (simp_all add: repartitionProducer_frame)
    then show ?thesis using that(2) [OF producer_repartitioned(2,1)] by fastforce
  next
    case (callback_registered i f a cb e r f' a')
    have f': "f' = snd (registerConsumerCallback cb e f)" using callback_registered(3) by simp
    have "d_pubs D (m_svsPubSub f') = d_pubs D (m_svsPubSub f) @ []" "node_frame f f'"
      unfolding f' by (simp_all add: registerConsumerCallback_frame)
    then show ?thesis using that(2) [OF callback_registered(2,1)] by fastforce
  next
    case (stats_queried i f a now stats f' a')
    have f': "f' = snd (getConsumerStats (d_svs D) now f)" using stats_queried(3) by simp
    have "d_pubs D (m_svsPubSub f') = d_pubs D (m_svsPubSub f) @ []"
      using consumerStatsLoop_svs [OF svs_axioms ok(2) [OF stats_queried(2)], of now "m_iceflowConsumers f" "[]"] f'
      by (simp add: getConsumerStats_def split_beta)
    moreover have "node_frame f f'" unfolding f' by (rule getConsumerStats_frame)
    ultimately show ?thesis using that(2) [OF stats_queried(2,1)] by fastforce
  next
    case (started i f a a')
    have "d_pubs D (m_svsPubSub (f\<lparr>m_running := True\<rparr>)) = d_pubs D (m_svsPubSub f) @ []"
      "node_frame f (f\<lparr>m_running := True\<rparr>)" by simp_all
    then show ?thesis using that(2) [OF started(2,1)] by fastforce
  next
    case (stopped i f a a')
    have "d_pubs D (m_svsPubSub (shutdown f)) = d_pubs D (m_svsPubSub f) @ []" "node_frame f (shutdown f)"
      by (simp_all add: shutdown_def)
    then show ?thesis using that(2) [OF stopped(2,1)] by fastforce
  next
    case (delivered i f a j g b n d w q m cb now r f' a')
    show ?thesis
    proof (cases cb)
      case (Consumer_callback e)
      with delivered show ?thesis by (intro that(3) [of i f a j g b n d w q m e now r f' a']) simp_all
    next
      case (Backchannel_handler np sp)
      let ?ev = "Arrived cb \<lparr>sub_name = n, sub_data = d, sub_seqNo = q\<rparr> now"
      have f': "f' = fst (snd (handleEvent (d_svs D) (d_json D) (d_app D i) ?ev (f, a)))" using delivered(7) by simp
      have frame: "node_frame f f'" unfolding f' by (rule handleEvent_frame)
      obtain new where "d_pubs D (m_svsPubSub f') = d_pubs D (m_svsPubSub f) @ new"
        "\<forall>x \<in> set new. (\<exists>e. data_publication (d_svs D) f e x) \<or>
           (\<exists>e d now. ?ev = Arrived (Consumer_callback e) d now \<and> ack_publication (d_svs D) (d_json D) f e (sub_seqNo d) x)"
        using event_publications [OF svs_axioms ok(2,3) [OF delivered(2)] delivered(7)] by blast
      then show ?thesis
        using Backchannel_handler by (intro that(2) [OF delivered(2,1) frame]) auto
    qed
  qed
qed

end

text \<open>A process stays what it is, and its publications stay.\<close>

context deployed
begin

lemma step_evolves:
  assumes "network_ok D invar s" and "net_step D s s'" and "s k = Some (h, z)"
  shows "\<exists>h' z'. s' k = Some (h', z') \<and> node_frame h h' \<and>
    set (d_pubs D (m_svsPubSub h)) \<subseteq> set (d_pubs D (m_svsPubSub h'))"
  using assms(1,2)
proof (cases rule: step_kinds)
  case (join i f a)
  with assms(3) have "s' k = Some (h, z)" by auto
  then show ?thesis by auto
next
  case (units i f a f' a' new)
  with assms(3) show ?thesis by (cases "k = i") auto
next
  case (delivery i f a j g b n d w p m e0 now r f' a')
  note f = network_process [OF assms(1) delivery(1)]
  let ?ev = "Arrived (Consumer_callback e0) \<lparr>sub_name = n, sub_data = d, sub_seqNo = p\<rparr> now"
  have ev: "handleEvent (d_svs D) (d_json D) (d_app D i) ?ev (f, a) = (r, f', a')" using delivery(6) by simp
  then have f': "f' = fst (snd (handleEvent (d_svs D) (d_json D) (d_app D i) ?ev (f, a)))" by simp
  have "node_frame f f'" unfolding f' by (rule handleEvent_frame)
  moreover have "set (d_pubs D (m_svsPubSub f)) \<subseteq> set (d_pubs D (m_svsPubSub f'))"
    using event_publications [OF svs_axioms f(2,3) ev] by auto
  ultimately show ?thesis using assms(3) delivery(1,7) by (cases "k = i") auto
qed

lemma run_evolves:
  assumes "(net_step D)\<^sup>*\<^sup>* s s'" and "net_reach D s" and "s k = Some (h, z)"
  shows "\<exists>h' z'. s' k = Some (h', z') \<and> node_frame h h' \<and>
    set (d_pubs D (m_svsPubSub h)) \<subseteq> set (d_pubs D (m_svsPubSub h'))"
  using assms(1)
proof (induction rule: rtranclp_induct)
  case base
  show ?case using assms(3) by auto
next
  case (step t t')
  then obtain h1 z1 where h1: "t k = Some (h1, z1)" "node_frame h h1"
    "set (d_pubs D (m_svsPubSub h)) \<subseteq> set (d_pubs D (m_svsPubSub h1))" by blast
  have "net_reach D t" using assms(2) step.hyps(1) by (rule rtranclp_trans)
  from step_evolves [OF reach_ok [OF this] step.hyps(2) h1(1)] h1(2,3) show ?case
    by (meson frame_trans subset_trans)
qed

end

section \<open>Acknowledged means processed\<close>

context storing
begin

lemma acknowledged_by_step:
  assumes "network_ok D invar s" and "net_step D s s'" and "s' k = Some (g', b')"
    and "x \<in> set (d_pubs D (m_svsPubSub g'))" and "ack_publication (d_svs D) (d_json D) g' e q x"
  shows "(\<exists>g b. s k = Some (g, b) \<and> m_syncPrefix g = m_syncPrefix g' \<and> x \<in> set (d_pubs D (m_svsPubSub g)) \<and>
      ack_publication (d_svs D) (d_json D) g e q x) \<or>
    (\<exists>n d w. unit_processed D (m_syncPrefix g') e (n, d, w, q) s s')"
proof (cases "\<exists>b. s k = Some (g', b)")
  case True
  with assms(4,5) show ?thesis by blast
next
  case changed: False
  from assms(1,2) show ?thesis
  proof (cases rule: step_kinds)
    case (join i f a)
    with changed assms(3,4) show ?thesis by (cases "k = i") simp_all
  next
    case (units i f a f' a' new)
    have [simp]: "k = i" using changed assms(3) units(2) by (cases "k = i") auto
    then have g': "g' = f'" using assms(3) units(2) by simp
    have ack: "ack_publication (d_svs D) (d_json D) f e q x"
      using assms(5) publications_frame(2) [OF units(3), of "d_svs D" "d_json D"] by (simp add: g')
    moreover have "x \<notin> set new" using units(5) data_no_ack ack by blast
    then have "x \<in> set (d_pubs D (m_svsPubSub f))" using assms(4) units(4) by (simp add: g')
    moreover have "m_syncPrefix f = m_syncPrefix g'" using units(3) by (simp add: g' node_frame_def)
    ultimately show ?thesis using units(1) by auto
  next
    case (delivery i f a j g b n d w p m e0 now r f' a')
    note f = network_process [OF assms(1) delivery(1)]
    have [simp]: "k = i" using changed assms(3) delivery(7) by (cases "k = i") auto
    then have g': "g' = f'" using assms(3) delivery(7) by simp
    let ?d = "\<lparr>sub_name = n, sub_data = d, sub_seqNo = p\<rparr>"
    have ev: "handleEvent (d_svs D) (d_json D) (d_app D i) (Arrived (Consumer_callback e0) ?d now) (f, a) = (r, f', a')"
      using delivery(6) by simp
    have f': "f' = fst (snd (onConsumerData (d_svs D) (d_json D) (d_app D i) e0 ?d now (f, a)))"
      using delivery(6) by simp
    have frame: "node_frame f f'" unfolding f' by (rule onConsumerData_frame)
    then have sp: "m_syncPrefix f = m_syncPrefix g'" by (simp add: g' node_frame_def)
    have ack: "ack_publication (d_svs D) (d_json D) f e q x"
      using assms(5) publications_frame(2) [OF frame, of "d_svs D" "d_json D"] by (simp add: g')
    obtain new where new: "d_pubs D (m_svsPubSub f') = d_pubs D (m_svsPubSub f) @ new"
      "\<forall>y \<in> set new. (\<exists>e. data_publication (d_svs D) f e y) \<or> ack_publication (d_svs D) (d_json D) f e0 p y"
      using event_publications [OF svs_axioms f(2,3) ev] by auto
    show ?thesis
    proof (cases "x \<in> set new")
      case False
      with new(1) assms(4) have "x \<in> set (d_pubs D (m_svsPubSub f))" by (simp add: g')
      with ack sp delivery(1) show ?thesis by auto
    next
      case True
      with new(2) ack have "ack_publication (d_svs D) (d_json D) f e0 p x" using data_no_ack by blast
      from ack_unique [OF f(1) ack this] have same: "e = e0" "q = p" by simp_all
      obtain c cb f1 where run: "map_of (m_iceflowConsumers f) e0 = Some c" "m_consumerCallback c = Some cb"
        "invokeCallback (d_svs D) (d_app D i) cb d (f, a) = (Inr (), f1, a')"
        using acknowledged_returned [OF svs_axioms f(2,3) delivery(6) new(1) True ack] by auto
      have "d_matches D m (fst (n, d, w, p))" using delivery(5) by simp
      from delivered_unit [OF assms(1) delivery(1,2,3,4) this]
      have "m_syncPrefix g = m_syncPrefix f" "data_publication (d_svs D) g e0 (n, d, w, p)" by blast+
      with run delivery(1,2,3,7) sp have "unit_processed D (m_syncPrefix g') e (n, d, w, q) s s'"
        unfolding unit_processed_def same by (metis fst_conv snd_conv)
      then show ?thesis by blast
    qed
  qed
qed

lemma acknowledged_processed:
  assumes "net_reach D s" and "s j = Some (g, b)" and "x \<in> set (d_pubs D (m_svsPubSub g))"
    and "ack_publication (d_svs D) (d_json D) g e q x"
  shows "\<exists>n d w. was_processed D (m_syncPrefix g) e (n, d, w, q) s"
  using assms
proof (induction arbitrary: g b rule: rtranclp_induct)
  case (step s s')
  from acknowledged_by_step [OF reach_ok [OF step.hyps(1)] step.hyps(2) step.prems] show ?case
  proof
    assume "\<exists>n d w. unit_processed D (m_syncPrefix g) e (n, d, w, q) s s'"
    with processed_now [OF step.hyps] show ?thesis by blast
  next
    assume "\<exists>h b. s j = Some (h, b) \<and> m_syncPrefix h = m_syncPrefix g \<and> x \<in> set (d_pubs D (m_svsPubSub h)) \<and>
      ack_publication (d_svs D) (d_json D) h e q x"
    then obtain h b where h: "s j = Some (h, b)" "x \<in> set (d_pubs D (m_svsPubSub h))"
      "ack_publication (d_svs D) (d_json D) h e q x" and sp: "m_syncPrefix h = m_syncPrefix g" by blast
    from step.IH [OF h] was_processed_step [OF _ step.hyps(2)] show ?thesis unfolding sp by blast
  qed
qed simp

lemma sole_processed:
  assumes "net_reach D s" and "s i = Some (f, a)" and "(n, d, Some w, q) \<in> set (d_pubs D (m_svsPubSub f))"
    and "\<forall>j g b. s j = Some (g, b) \<and> j \<noteq> i \<and> m_syncPrefix g = m_syncPrefix f \<longrightarrow>
      set (producer_edges g) \<inter> set (producer_edges f) = {}"
    and "length (d_pubs D (m_svsPubSub f)) < 2 ^ 64"
    and "packetName (d_svs D) (m_nodePrefix f) (m_syncPrefix f) q \<notin> store (m_svsPubSub f)"
  shows "\<exists>e \<in> set (producer_edges f). was_processed D (m_syncPrefix f) e (n, d, Some w, q) s"
proof -
  let ?x = "(n, d, Some w, q)"
  obtain e n' d' w' where e: "e \<in> set (producer_edges f)"
    and was: "was_processed D (m_syncPrefix f) e (n', d', w', q) s"
    using kept_or_acknowledged [OF assms(1-3)] assms(6) acknowledged_processed [OF assms(1)] by metis
  let ?y = "(n', d', w', q)"
  from was obtain s1 s2 j h z where s1: "net_reach D s1" "net_step D s1 s2" "(net_step D)\<^sup>*\<^sup>* s2 s"
    and h: "s1 j = Some (h, z)" "m_syncPrefix h = m_syncPrefix f" "?y \<in> set (d_pubs D (m_svsPubSub h))"
      "data_publication (d_svs D) h e ?y"
    unfolding was_processed_def unit_processed_def by blast
  have "(net_step D)\<^sup>*\<^sup>* s1 s" using s1(2,3) by (rule converse_rtranclp_into_rtranclp)
  from run_evolves [OF this s1(1) h(1)] obtain h' z' where h': "s j = Some (h', z')" "node_frame h h'"
    "set (d_pubs D (m_svsPubSub h)) \<subseteq> set (d_pubs D (m_svsPubSub h'))" by blast
  have "e \<in> set (producer_edges h')"
    using data_publication_edge [OF h(4)] frame_producer_edges [OF h'(2)] by simp
  moreover have "m_syncPrefix h' = m_syncPrefix f" using h'(2) h(2) by (simp add: node_frame_def)
  ultimately have "j = i" using assms(4) h'(1) e by blast
  with h'(1) assms(2) have [simp]: "h' = f" by simp
  have "justified D s f ?x" using reach_ok [OF assms(1)] assms(2,3) unfolding network_ok_def by blast
  then have "w = name_of (d_svs D) (m_nodePrefix f)"
    by (auto simp: justified_def ack_publication_def data_publication_def)
  moreover have "w' = Some (name_of (d_svs D) (m_nodePrefix f))"
    using h(4) h'(2) by (auto simp: data_publication_def node_frame_def)
  ultimately have "(\<lambda>(n, d, who, seq). (who, seq)) ?y = (\<lambda>(n, d, who, seq). (who, seq)) ?x" by simp
  moreover have "inj_on (\<lambda>(n, d, who, seq). (who, seq)) (set (d_pubs D (m_svsPubSub f)))"
    using publish_numbers [OF network_process(2) [OF reach_ok [OF assms(1)] assms(2)] assms(5)]
    unfolding distinct_map by blast
  moreover have "?y \<in> set (d_pubs D (m_svsPubSub f))" using h(3) h'(3) by auto
  ultimately have "?y = ?x" using assms(3) by (meson inj_onD)
  with e was show ?thesis by auto
qed

end

section \<open>Properties\<close>

text \<open>
  C10: every unit is kept until it was processed. In every reachable state of a deployment, the
  packet of a unit that a process has published is in its store, or on the way to this state some
  process of the application has handed a unit with its number, of one of the first process's
  downstream edges, to a callback that returned. A callback that fails or an acknowledgement that is
  lost leaves the packet where it is.
\<close>

theorem units_kept_until_processed:
  assumes "storing D invar store of_str of_obj of_arr packet" and "net_reach D s"
    and "s i = Some (f, a)" and "(n, d, Some w, q) \<in> set (d_pubs D (m_svsPubSub f))"
  shows "packetName (d_svs D) (m_nodePrefix f) (m_syncPrefix f) q \<in> store (m_svsPubSub f) \<or>
    (\<exists>e \<in> set (producer_edges f). \<exists>n d w. was_processed D (m_syncPrefix f) e (n, d, w, q) s)"
  using storing.kept_or_acknowledged [OF assms] storing.acknowledged_processed [OF assms(1,2)] by metis

theorem units_kept_until_processed_witness:
  "\<exists>s f b w q n. net_reach example_deployment s \<and> s 0 = Some (f, b) \<and>
     (n, [42], Some w, q) \<in> set (rs_pubs (m_svsPubSub f)) \<and>
     (packetName ref_ndn (m_nodePrefix f) (m_syncPrefix f) q \<in> rs_store (m_svsPubSub f) \<or>
      (\<exists>e \<in> set (producer_edges f). \<exists>n d w. was_processed example_deployment (m_syncPrefix f) e (n, d, w, q) s))"
proof (rule example_pushed)
  fix s f g c m who seq
  assume run: "net_reach example_deployment s" "s 0 = Some (f, 0)"
    "(m, [42], Some who, seq) \<in> set (rs_pubs (m_svsPubSub f))"
  then have "(m, [42], Some who, seq) \<in> set (d_pubs example_deployment (m_svsPubSub f))" by simp
  from units_kept_until_processed [OF example_store.storing_axioms run(1,2) this] run
  show ?thesis unfolding example_deployment_sels by blast
qed

text \<open>
  C7: with one process per task, every unit is processed at least once. Let a process be the only
  one of its application that produces its downstream edges, with fewer than \<open>2 ^ 64\<close>
  publications. When the packet of a unit it has published is no longer in its store, then on the
  way to this state exactly this unit was handed to a callback that returned.
\<close>

theorem sole_producer_at_least_once:
  assumes "storing D invar store of_str of_obj of_arr packet" and "net_reach D s"
    and "s i = Some (f, a)" and "(n, d, Some w, q) \<in> set (d_pubs D (m_svsPubSub f))"
    and "\<forall>j g b. s j = Some (g, b) \<and> j \<noteq> i \<and> m_syncPrefix g = m_syncPrefix f \<longrightarrow>
      set (producer_edges g) \<inter> set (producer_edges f) = {}"
    and "length (d_pubs D (m_svsPubSub f)) < 2 ^ 64"
    and "packetName (d_svs D) (m_nodePrefix f) (m_syncPrefix f) q \<notin> store (m_svsPubSub f)"
  shows "\<exists>e \<in> set (producer_edges f). was_processed D (m_syncPrefix f) e (n, d, Some w, q) s"
  by (rule storing.sole_processed [OF assms])

theorem sole_producer_at_least_once_witness:
  "\<exists>s f b m w q. net_reach example_deployment s \<and> s 0 = Some (f, b) \<and>
     (\<exists>e \<in> set (producer_edges f). was_processed example_deployment (m_syncPrefix f) e (m, [42], Some w, q) s)"
proof (rule example_pushed)
  fix s f g c m who seq
  assume run: "net_reach example_deployment s" "s 0 = Some (f, 0)" "s 1 = Some (g, 0)"
    "(m, [42], Some who, seq) \<in> set (rs_pubs (m_svsPubSub f))"
    "(m, Consumer_callback ''t2l'') \<in> ran (ref_subs (m_svsPubSub g))"
    "map_of (m_iceflowConsumers g) ''t2l'' = Some c" "m_consumerCallback c = Some (Plain 0)"
    "m_running f" "m_running g"
    and dom: "dom s = {0, 1}" and frames: "node_frame example_upstream f" "node_frame example_registered g"
    and one: "length (rs_pubs (m_svsPubSub f)) = 1"
  have "invokeCallback (d_svs example_deployment) (d_app example_deployment 1) (Plain 0) [42] (g, 0) = (Inr (), g, 0)"
    by (simp add: example_app_def)
  with storing.settle [OF example_store.storing_axioms run(1-3), of m "[42]" who seq m "''t2l''" c "Plain 0" g 0] run
  obtain f' g' where steps: "net_step example_deployment s (s(1 \<mapsto> (g', 0)))"
    "net_step example_deployment (s(1 \<mapsto> (g', 0))) (s(1 \<mapsto> (g', 0), 0 \<mapsto> (f', 0)))"
    and same: "node_frame f f'" "node_frame g g'" "rs_pubs (m_svsPubSub f') = rs_pubs (m_svsPubSub f)"
    and gone: "packetName ref_ndn (m_nodePrefix f) (m_syncPrefix f) seq \<notin> rs_store (m_svsPubSub f')"
    by auto
  let ?s = "s(1 \<mapsto> (g', 0), 0 \<mapsto> (f', 0))"
  have reach: "net_reach example_deployment ?s" by (rule net_more [OF net_more [OF run(1) steps(1)] steps(2)])
  have f': "set (producer_edges f') = {''t2l''}"
    using frame_producer_edges [OF same(1)] frame_producer_edges [OF frames(1)] example_upstream_state(1) by simp
  have g': "producer_edges g' = [''l2w'']"
    using frame_producer_edges [OF same(2)] frame_producer_edges [OF frames(2)] example_iceflow_edges
    by (simp add: example_registered_def registerConsumerCallback_def split: option.split)
  have sole: "\<forall>j h b. ?s j = Some (h, b) \<and> j \<noteq> 0 \<and> m_syncPrefix h = m_syncPrefix f' \<longrightarrow>
      set (producer_edges h) \<inter> set (producer_edges f') = {}"
  proof (intro allI impI)
    fix j h b assume h: "?s j = Some (h, b) \<and> j \<noteq> 0 \<and> m_syncPrefix h = m_syncPrefix f'"
    then have "j \<in> dom s \<or> j = 1" by (auto split: if_splits)
    with h dom have same_node: "h = g'" by (auto split: if_splits)
    show "set (producer_edges h) \<inter> set (producer_edges f') = {}" unfolding same_node f' g' by simp
  qed
  have "\<exists>e \<in> set (producer_edges f'). was_processed example_deployment (m_syncPrefix f') e (m, [42], Some who, seq) ?s"
    by (rule sole_producer_at_least_once [OF example_store.storing_axioms reach _ _ sole])
      (use run one same gone in \<open>simp_all add: node_frame_def\<close>)
  with reach show ?thesis by (intro exI [of _ ?s] exI [of _ f'] exI [of _ 0] exI conjI) simp_all
qed

end
