(* ===== verification/Scaling.thy ===== *)
theory Scaling
  imports Network
begin

text \<open>
  Scaling out an edge: the executors of several nodes that consume one edge divide its partitions
  between them over gRPC. What a producer then pushes, which node receives it, and what asking the
  nodes for statistics does to the division.
\<close>

section \<open>Who receives a publication\<close>

definition receives ::
    "('ps \<Rightarrow> u32 \<rightharpoonup> 'n \<times> callback) \<Rightarrow> string \<Rightarrow> 'n \<Rightarrow> ('ps, 'j, 'u) IceFlow \<Rightarrow> bool" where
  "receives subs e n g \<longleftrightarrow> (case map_of (m_iceflowConsumers g) e of
       None \<Rightarrow> False
     | Some c \<Rightarrow> list_ex (\<lambda>h. subs (m_svsPubSub g) h = Some (n, Consumer_callback e)) (m_subscriptionHandles c))"

lemma receives_iff:
  "receives subs e n g \<longleftrightarrow> (\<exists>c. map_of (m_iceflowConsumers g) e = Some c \<and>
     Some (n, Consumer_callback e) \<in> set (map (subs (m_svsPubSub g)) (m_subscriptionHandles c)))"
  by (force simp: receives_def list_ex_iff split: option.split)

text \<open>A push makes one publication, on a partition below the number of partitions.\<close>

lemma push_on_partition:
  assumes "svs S invar used subs pubs store" and "node_wf S f" and "invar (m_svsPubSub f)"
    and "e \<in> set (producer_edges f)"
  obtains f' who seq p q where "pushData S d e f = (Inr (), f')"
    and "pubs (m_svsPubSub f') = pubs (m_svsPubSub f) @ [(topicName S (m_syncPrefix f) e q, d, who, seq)]"
    and "map_of (m_iceflowProducers f) e = Some p" and "q < m_numberOfPartitions p"
proof -
  obtain f' x where push: "pushData S d e f = (Inr (), f')"
    "pubs (m_svsPubSub f') = pubs (m_svsPubSub f) @ [x]"
    "published_by S (map_of (m_iceflowProducers f)) (e, d, ()) x"
    using pushData_known [OF assms(1,3,4), of d "()"] by blast
  obtain n d' who seq where x: "x = (n, d', who, seq)" by (rule prod_cases4)
  have "data_publication S f e x" using published_data [OF assms(2) push(3)] by simp
  moreover have "d' = d" using push(3) x by (auto simp: published_by_def)
  ultimately show thesis
    using push(1,2) x by (auto simp: data_publication_def partition_counts_lookup intro: that)
qed

text \<open>A repartitioned consumer receives exactly its partitions.\<close>

lemma repartitioned_receives:
  assumes "svs S invar used subs pubs store" and "node_wf S g" and "invar (m_svsPubSub g)"
    and "node_live S subs g" and "e \<in> set (consumer_edges g)"
    and "used (m_svsPubSub g) + length ps < 2 ^ 32"
  shows "\<exists>g' c. repartitionConsumer S ps e g = (Inr (), g') \<and> map_of (m_iceflowConsumers g') e = Some c \<and>
    node_live S subs g' \<and> (\<forall>q. receives subs e (topicName S (m_syncPrefix g) e q) g' \<longleftrightarrow> q \<in> set ps)"
proof -
  obtain c0 where c0: "map_of (m_iceflowConsumers g) e = Some c0"
    using assms(5) by (metis domD dom_map_of_conv_image_fst list.set_map)
  have sub: "m_subTopic c0 = m_syncPrefix g @ ''/'' @ e"
    using assms(2) map_of_SomeD [OF c0] by (auto simp: node_wf_def)
  obtain g' c where g': "repartitionConsumer S ps e g = (Inr (), g')"
    "map_of (m_iceflowConsumers g') = (map_of (m_iceflowConsumers g))(e \<mapsto> c)"
    "map (subs (m_svsPubSub g')) (m_subscriptionHandles c) = map (\<lambda>p. Some (partition_sub S e c0 p)) ps"
    "node_live S subs g'"
    using repartitionConsumer_keeps_live [OF assms(1,3,6,4) c0] by blast
  have "(topicName S (m_syncPrefix g) e q, Consumer_callback e) = partition_sub S e c0 q" for q
    by (simp add: partition_sub_def consumer_prepareDataName_def topicName_def sub)
  then have "receives subs e (topicName S (m_syncPrefix g) e q) g' \<longleftrightarrow>
      Some (partition_sub S e c0 q) \<in> set (map (subs (m_svsPubSub g')) (m_subscriptionHandles c))" for q
    by (simp add: receives_iff g'(2) del: list.set_map)
  then have "receives subs e (topicName S (m_syncPrefix g) e q) g' \<longleftrightarrow> q \<in> set ps" for q
    unfolding g'(3) by (auto simp: partition_sub_inject [OF assms(1)])
  with g' show ?thesis by (intro exI [of _ g'] exI [of _ c]) simp
qed

section \<open>Dividing the partitions\<close>

text \<open>
  Every executor is given the upper bound of its node and starts where the one before ended; its
  channel to its node neither fails nor loses a call.
\<close>

fun assign_partitions ::
    "('ps, 'n) ndn_ops \<Rightarrow> (string \<Rightarrow> time_point) \<Rightarrow> string \<Rightarrow> u32
       \<Rightarrow> (('ps, 'j, 'u) IceFlow IceflowExecutor \<times> u32 \<times> ('ps, 'j, 'u) IceFlow) list \<Rightarrow> ('ps, 'j, 'u) IceFlow list" where
  "assign_partitions S now e lower [] = []"
| "assign_partitions S now e lower ((x, upper, g) # rest) =
     snd (executor_repartition e lower upper (executor_runGrpcClient (direct_stub S now) x) g)
     # assign_partitions S now e upper rest"

fun upper_bounds :: "('x \<times> u32 \<times> 'g) list \<Rightarrow> u32 list" where
  "upper_bounds [] = []"
| "upper_bounds ((x, upper, g) # rest) = upper # upper_bounds rest"

definition query_all ::
    "('ps, 'n) ndn_ops \<Rightarrow> (string \<Rightarrow> time_point) \<Rightarrow> ('ps, 'j, 'u) IceFlow IceflowExecutor
       \<Rightarrow> ('ps, 'j, 'u) IceFlow list \<Rightarrow> ('ps, 'j, 'u) IceFlow list" where
  "query_all S now x = map (\<lambda>g. snd (queryEdgeStats (executor_runGrpcClient (direct_stub S now) x) g))"

text \<open>A node of the application that can take partitions below the bound.\<close>

definition can_take ::
    "('ps, 'n) ndn_ops \<Rightarrow> ('ps \<Rightarrow> bool) \<Rightarrow> ('ps \<Rightarrow> nat) \<Rightarrow> ('ps \<Rightarrow> u32 \<rightharpoonup> 'n \<times> callback) \<Rightarrow> string \<Rightarrow> string
       \<Rightarrow> u32 \<Rightarrow> ('ps, 'j, 'u) IceFlow \<Rightarrow> bool" where
  "can_take S invar used subs sp e upper g \<longleftrightarrow> node_wf S g \<and> invar (m_svsPubSub g) \<and> node_live S subs g \<and>
     m_syncPrefix g = sp \<and> e \<in> set (consumer_edges g) \<and> used (m_svsPubSub g) + unat upper < 2 ^ 32"

lemma executor_repartition_direct:
  "snd (executor_repartition e lower upper (executor_runGrpcClient (direct_stub S now) x) g) =
     snd (repartitionConsumer S (requestedPartitions lower upper) e g)"
  by (auto simp: executor_repartition_def executor_runGrpcClient_def direct_stub_def service_Repartition_def
      split_beta Let_def split: prod.split sum.split)

lemma query_direct:
  "snd (queryEdgeStats (executor_runGrpcClient (direct_stub S now) x) g) = snd (getConsumerStats S now g)"
  by (simp add: queryEdgeStats_def executor_runGrpcClient_def direct_stub_def service_QueryStats_def
      split_beta Let_def)

text \<open>What an executor does to a process of a network is a step of the network.\<close>

lemma executor_steps:
  assumes "s i = Some (g, b)"
  shows "d_used D (m_svsPubSub g) + length (requestedPartitions lower upper) < 2 ^ 32 \<Longrightarrow>
      net_step D s (s(i \<mapsto>
        (snd (executor_repartition e lower upper (executor_runGrpcClient (direct_stub (d_svs D) now) x) g), b)))"
    and "net_step D s (s(i \<mapsto> (snd (queryEdgeStats (executor_runGrpcClient (direct_stub (d_svs D) now) x) g), b)))"
  unfolding executor_repartition_direct query_direct
  by (rule net_step.consumer_repartitioned [where s = s and i = i, OF assms], assumption, rule prod.collapse [symmetric])
    (rule net_step.stats_queried [where s = s and i = i, OF assms], rule prod.collapse [symmetric])

lemma room_taken:
  assumes "lower \<le> upper" and "used + unat upper < k"
  shows "used + length (requestedPartitions lower upper) < k"
proof -
  have "length (requestedPartitions lower upper) \<le> unat upper"
    using assms(1) by (simp add: requestedPartitions_def unat_sub word_le_nat_alt)
  with assms(2) show ?thesis by simp
qed

lemma taken:
  assumes "svs S invar used subs pubs store" and "can_take S invar used subs sp e upper g" and "lower \<le> upper"
  shows "receives subs e (topicName S sp e q)
      (snd (repartitionConsumer S (requestedPartitions lower upper) e g)) \<longleftrightarrow> lower \<le> q \<and> q < upper"
proof -
  have "used (m_svsPubSub g) + length (requestedPartitions lower upper) < 2 ^ 32"
    using assms(2) room_taken [OF assms(3)] by (simp add: can_take_def)
  moreover have g: "node_wf S g" "invar (m_svsPubSub g)" "node_live S subs g" "e \<in> set (consumer_edges g)"
    and sp: "m_syncPrefix g = sp"
    using assms(2) unfolding can_take_def by blast+
  ultimately obtain g' where "repartitionConsumer S (requestedPartitions lower upper) e g = (Inr (), g')"
    "receives subs e (topicName S sp e q) g' \<longleftrightarrow> q \<in> set (requestedPartitions lower upper)"
    using repartitioned_receives [OF assms(1) g] unfolding sp by blast
  then show ?thesis using assms(3) by (simp add: requestedPartitions_set)
qed

text \<open>How many of the nodes receive a publication: one if its partition was given away at all.\<close>

lemma divided:
  assumes "svs S invar used subs pubs store"
  shows "sorted (lower # upper_bounds nodes) \<Longrightarrow>
     \<forall>(x, upper, g) \<in> set nodes. can_take S invar used subs sp e upper g \<Longrightarrow>
     length (filter (receives subs e (topicName S sp e q)) (assign_partitions S now e lower nodes)) =
       (if lower \<le> q \<and> q < last (lower # upper_bounds nodes) then 1 else 0)"
proof (induction nodes arbitrary: lower)
  case (Cons node nodes)
  obtain x upper g where node: "node = (x, upper, g)" by (rule prod_cases3)
  have le: "lower \<le> upper" and sorted: "sorted (upper # upper_bounds nodes)"
    and g: "can_take S invar used subs sp e upper g"
    using Cons.prems by (auto simp: node)
  have last: "upper \<le> last (upper # upper_bounds nodes)"
    using sorted by (cases "upper_bounds nodes" rule: rev_cases) auto
  have IH: "length (filter (receives subs e (topicName S sp e q)) (assign_partitions S now e upper nodes)) =
      (if upper \<le> q \<and> q < last (upper # upper_bounds nodes) then 1 else 0)"
    by (rule Cons.IH [OF sorted]) (use Cons.prems(2) in simp)
  note here = taken [OF assms g le, of q]
  have "length (filter (receives subs e (topicName S sp e q)) (assign_partitions S now e lower (node # nodes))) =
      (if lower \<le> q \<and> q < upper then 1 else 0) +
      (if upper \<le> q \<and> q < last (upper # upper_bounds nodes) then 1 else 0)"
    unfolding IH [symmetric] by (simp add: node executor_repartition_direct here)
  moreover have "last (lower # upper_bounds (node # nodes)) = last (upper # upper_bounds nodes)"
    by (simp add: node)
  ultimately show ?case using le last by (simp only: split: if_split) auto
qed (auto simp: not_less)

lemma queried_receives_nothing:
  assumes "svs S invar used subs pubs store" and "invar (m_svsPubSub g)"
  shows "\<not> receives subs e n (snd (queryEdgeStats (executor_runGrpcClient (direct_stub S now) x) g))"
proof -
  have "subs (m_svsPubSub (snd (getConsumerStats S now g))) h = None"
    if "map_of (m_iceflowConsumers g) e = Some c" "h \<in> set (m_subscriptionHandles c)" for c h
    using consumerStatsLoop_svs [OF assms, of now "m_iceflowConsumers g" "[]"] map_of_SomeD [OF that(1)] that(2)
    by (force simp: getConsumerStats_def split_beta restrict_map_def)
  then have "\<not> receives subs e n (snd (getConsumerStats S now g))"
    by (auto simp: receives_def list_ex_iff getConsumerStats_def split_beta split: option.split)
  then show ?thesis by (simp add: query_direct)
qed

lemma assigned_invar:
  assumes "svs S invar used subs pubs store"
  shows "\<forall>(x, upper, g) \<in> set nodes. can_take S invar used subs sp e upper g \<Longrightarrow>
     sorted (lower # upper_bounds nodes) \<Longrightarrow> g \<in> set (assign_partitions S now e lower nodes) \<Longrightarrow>
     invar (m_svsPubSub g)"
proof (induction nodes arbitrary: lower)
  case (Cons node nodes)
  obtain x upper h where node: "node = (x, upper, h)" by (rule prod_cases3)
  have h: "can_take S invar used subs sp e upper h" and le: "lower \<le> upper"
    using Cons.prems(1,2) by (auto simp: node)
  have "used (m_svsPubSub h) + length (requestedPartitions lower upper) < 2 ^ 32"
    using h room_taken [OF le] by (simp add: can_take_def)
  from repartitionConsumer_svs [OF assms _ this, of e] h
  have "invar (m_svsPubSub (snd (repartitionConsumer S (requestedPartitions lower upper) e h)))"
    by (simp add: can_take_def)
  moreover have "sorted (upper # upper_bounds nodes)" using Cons.prems(2) by (simp add: node)
  ultimately show ?case
    using Cons.IH [of upper] Cons.prems(1,3) by (auto simp: node executor_repartition_direct)
qed simp

section \<open>Properties\<close>

text \<open>
  C15: dividing the partitions of an edge works, until somebody asks for statistics. Let the
  executors of any number of nodes that consume an edge divide the partitions from 0 up to the
  number of partitions of its producer. Then every unit the producer pushes is received by exactly
  one of the nodes. But after each of the nodes was asked for its statistics once, no node receives
  a unit of the edge.
\<close>

theorem divided_partitions_received_once:
  assumes "svs S invar used subs pubs store" and "node_wf S f" and "invar (m_svsPubSub f)"
    and "map_of (m_iceflowProducers f) e = Some p"
    and "sorted (upper_bounds nodes)" and "last (0 # upper_bounds nodes) = m_numberOfPartitions p"
    and "\<forall>(x, upper, g) \<in> set nodes. can_take S invar used subs (m_syncPrefix f) e upper g"
  shows "\<exists>f' n who seq. pushData S d e f = (Inr (), f') \<and>
    pubs (m_svsPubSub f') = pubs (m_svsPubSub f) @ [(n, d, who, seq)] \<and>
    length (filter (receives subs e n) (assign_partitions S now e 0 nodes)) = 1 \<and>
    filter (receives subs e n) (query_all S now x (assign_partitions S now e 0 nodes)) = []"
proof -
  have "e \<in> set (producer_edges f)" using map_of_SomeD [OF assms(4)] by force
  from push_on_partition [OF assms(1-3) this] obtain f' who seq p' q where
    f': "pushData S d e f = (Inr (), f')"
    "pubs (m_svsPubSub f') = pubs (m_svsPubSub f) @ [(topicName S (m_syncPrefix f) e q, d, who, seq)]"
    and "map_of (m_iceflowProducers f) e = Some p'" "q < m_numberOfPartitions p'" by metis
  with assms(4,6) have q: "q < last (0 # upper_bounds nodes)" by simp
  have "sorted (0 # upper_bounds nodes)" using assms(5) by simp
  from divided [OF assms(1) this assms(7), of q now] q
  have "length (filter (receives subs e (topicName S (m_syncPrefix f) e q)) (assign_partitions S now e 0 nodes)) = 1"
    by simp
  moreover have "\<not> receives subs e n (snd (queryEdgeStats (executor_runGrpcClient (direct_stub S now) x) g))"
    if "g \<in> set (assign_partitions S now e 0 nodes)" for n g
    by (rule queried_receives_nothing [OF assms(1) assigned_invar [OF assms(1,7) _ that]]) (use assms(5) in simp)
  then have "filter (receives subs e (topicName S (m_syncPrefix f) e q))
      (query_all S now x (assign_partitions S now e 0 nodes)) = []"
    by (simp add: query_all_def filter_empty_conv)
  ultimately show ?thesis using f' by blast
qed

theorem divided_partitions_received_once_witness:
  "\<exists>n. length (filter (receives ref_subs ''t2l'' n) (assign_partitions ref_ndn (\<lambda>_. 0) ''t2l'' 0
       [(newExecutor ''a'' ''b'', 2, example_iceflow), (newExecutor ''c'' ''d'', 3, example_registered)])) = 1"
proof -
  let ?nodes = "[(newExecutor ''a'' ''b'' :: (ref_svs, jval, nat) IceFlow IceflowExecutor, 2, example_iceflow),
    (newExecutor ''c'' ''d'', 3 :: u32, example_registered)]"
  have f: "node_wf ref_ndn example_upstream"
    by (rule reach_wf [OF node_reach.created [OF example_upstream_new]])
  obtain p where p: "map_of (m_iceflowProducers example_upstream) ''t2l'' = Some p"
    and three: "m_numberOfPartitions p = 3"
    using example_counts by (auto simp: partition_counts_lookup)
  have "node_wf ref_ndn example_registered"
    unfolding example_registered_def by (rule registerConsumerCallback_wf [OF reach_wf [OF example_reach]])
  moreover have "node_live ref_ndn ref_subs example_registered"
    by (rule node_live_fresh) (simp add: example_registered_sels newConsumer_def)
  moreover have "m_syncPrefix example_registered = ''/app''"
    by (simp add: example_registered_def registerConsumerCallback_def example_iceflow_svs example_iceflow_sync)
  moreover have "node_wf ref_ndn example_iceflow" by (rule reach_wf [OF example_reach])
  ultimately have "\<forall>(x, upper, g) \<in> set ?nodes.
      can_take ref_ndn ref_inv rs_count ref_subs (m_syncPrefix example_upstream) ''t2l'' upper g"
    using example_iceflow_svs example_iceflow_sync
    by (simp add: can_take_def example_upstream_state example_iceflow_sels example_registered_sels)
  moreover have "sorted (upper_bounds ?nodes)" "last (0 # upper_bounds ?nodes) = m_numberOfPartitions p"
    by (simp_all add: three)
  ultimately show ?thesis
    using divided_partitions_received_once [OF ref_svs.svs_axioms f example_upstream_state(3) p, of ?nodes]
    by blast
qed

end
