(* ===== verification/Scaled_Network.thy ===== *)
theory Scaled_Network
  imports Processing Scaling
begin

text \<open>
  Scaling out in a running network, from the executors to the units: processes that consume an
  edge get its partitions divided between them by their executors, and whatever is pushed then can
  be processed and settled.
\<close>

section \<open>Dividing the partitions of a running network\<close>

text \<open>
  Each of the listed processes is repartitioned by its executor, which is given the upper bound and
  starts where the one before ended.
\<close>

fun assigned ::
    "('ps, 'j, 'n, 'u, 'a) deployment \<Rightarrow> (string \<Rightarrow> time_point) \<Rightarrow> string \<Rightarrow> u32
       \<Rightarrow> (nat \<times> ('ps, 'j, 'u) IceFlow IceflowExecutor \<times> u32) list
       \<Rightarrow> ('ps, 'j, 'u, 'a) network \<Rightarrow> ('ps, 'j, 'u, 'a) network" where
  "assigned D now e lower [] s = s"
| "assigned D now e lower ((k, x, upper) # rest) s =
     assigned D now e upper rest
       (case s k of
          None \<Rightarrow> s
        | Some (g, b) \<Rightarrow> s(k \<mapsto>
            (snd (executor_repartition e lower upper (executor_runGrpcClient (direct_stub (d_svs D) now) x) g), b)))"

text \<open>
  A running process of the application that is live, has room in its handle counter and a plain callback
  for the edge that returns for the payload, in the state \<open>after k\<close>.
\<close>

definition can_serve ::
    "('ps, 'j, 'n, 'u, 'a) deployment \<Rightarrow> string \<Rightarrow> string \<Rightarrow> byte list \<Rightarrow> (nat \<Rightarrow> 'a)
       \<Rightarrow> ('ps, 'j, 'u, 'a) network \<Rightarrow> nat \<times> ('ps, 'j, 'u) IceFlow IceflowExecutor \<times> u32 \<Rightarrow> bool" where
  "can_serve D sp e payload after s = (\<lambda>(k, x, upper). \<exists>g b c u.
     s k = Some (g, b) \<and> m_running g \<and> m_syncPrefix g = sp \<and> node_live (d_svs D) (d_subs D) g \<and>
     d_used D (m_svsPubSub g) + unat upper < 2 ^ 32 \<and>
     map_of (m_iceflowConsumers g) e = Some c \<and> m_consumerCallback c = Some (Plain u) \<and>
     run_plain (d_app D k) u payload b = (Inr (), after k))"

lemma can_serve_other: "k' \<noteq> k \<Longrightarrow> can_serve D sp e payload after (s(k \<mapsto> y)) (k', z) = can_serve D sp e payload after s (k', z)"
  by (simp add: can_serve_def)

abbreviation uppers :: "(nat \<times> 'x \<times> u32) list \<Rightarrow> u32 list" where
  "uppers nodes \<equiv> map (snd \<circ> snd) nodes"

context storing
begin

lemma assigned_cons:
  assumes "can_serve D sp e payload after s (k, x, upper)" and "lower \<le> upper"
  obtains g b where "s k = Some (g, b)"
    and "assigned D now e lower ((k, x, upper) # rest) s =
      assigned D now e upper rest (s(k \<mapsto> (snd (repartitionConsumer (d_svs D) (requestedPartitions lower upper) e g), b)))"
    and "net_step D s (s(k \<mapsto> (snd (repartitionConsumer (d_svs D) (requestedPartitions lower upper) e g), b)))"
proof -
  from assms(1) obtain g b where g: "s k = Some (g, b)" "d_used D (m_svsPubSub g) + unat upper < 2 ^ 32"
    unfolding can_serve_def by auto
  show thesis
    by (rule that [OF g(1)])
      (use executor_steps(1) [where s = s and i = k, OF g(1) room_taken [OF assms(2) g(2)], of e now x] g(1)
        in \<open>simp_all add: executor_repartition_direct\<close>)
qed

text \<open>The processes that are not listed stay, and the partition \<open>q\<close> ends up at a listed one.\<close>

lemma assigned_spec:
  assumes "sorted (lower # uppers nodes)" and "distinct (map fst nodes)"
    and "\<forall>node \<in> set nodes. can_serve D sp e payload after s node"
  shows "(net_step D)\<^sup>*\<^sup>* s (assigned D now e lower nodes s) \<and>
    (\<forall>j. j \<notin> fst ` set nodes \<longrightarrow> assigned D now e lower nodes s j = s j) \<and>
    (lower \<le> q \<and> q < last (lower # uppers nodes) \<longrightarrow>
      (\<exists>k x l upper g b. (k, x, upper) \<in> set nodes \<and> l \<le> q \<and> q < upper \<and> s k = Some (g, b) \<and>
        assigned D now e lower nodes s k =
          Some (snd (repartitionConsumer (d_svs D) (requestedPartitions l upper) e g), b)))"
  using assms
proof (induction nodes arbitrary: lower s)
  case Nil
  then show ?case by (simp add: not_less)
next
  case (Cons node nodes)
  obtain k x upper where node: "node = (k, x, upper)" by (rule prod_cases3)
  have le: "lower \<le> upper" and sorted: "sorted (upper # uppers nodes)"
    and dist: "distinct (map fst nodes)" and k: "k \<notin> fst ` set nodes"
    and here: "can_serve D sp e payload after s (k, x, upper)"
    using Cons.prems by (auto simp: node comp_def)
  obtain g b where g: "s k = Some (g, b)"
    and rec: "assigned D now e lower ((k, x, upper) # nodes) s = assigned D now e upper nodes
      (s(k \<mapsto> (snd (repartitionConsumer (d_svs D) (requestedPartitions lower upper) e g), b)))"
    and step: "net_step D s (s(k \<mapsto> (snd (repartitionConsumer (d_svs D) (requestedPartitions lower upper) e g), b)))"
    by (rule assigned_cons [OF here le])
  let ?g = "snd (repartitionConsumer (d_svs D) (requestedPartitions lower upper) e g)"
  have "can_serve D sp e payload after (s(k \<mapsto> (?g, b))) node'" if n: "node' \<in> set nodes" for node'
  proof -
    have "fst node' \<noteq> k" using k n by force
    moreover have "can_serve D sp e payload after s node'" using Cons.prems(3) n by simp
    ultimately show ?thesis by (cases node') (simp add: can_serve_other)
  qed
  then have "\<forall>node \<in> set nodes. can_serve D sp e payload after (s(k \<mapsto> (?g, b))) node" by blast
  note IH = Cons.IH [OF sorted dist this]
  have others: "\<forall>j. j \<notin> fst ` set nodes \<longrightarrow> assigned D now e lower (node # nodes) s j = (s(k \<mapsto> (?g, b))) j"
    using IH unfolding node rec by blast
  have 1: "(net_step D)\<^sup>*\<^sup>* s (assigned D now e lower (node # nodes) s)"
    using converse_rtranclp_into_rtranclp [where r = "net_step D", OF step] IH unfolding node rec by blast
  have 2: "\<exists>k x l upper g b. (k, x, upper) \<in> set (node # nodes) \<and> l \<le> q \<and> q < upper \<and> s k = Some (g, b) \<and>
      assigned D now e lower (node # nodes) s k =
        Some (snd (repartitionConsumer (d_svs D) (requestedPartitions l upper) e g), b)"
    if q: "lower \<le> q" "q < last (lower # uppers (node # nodes))"
  proof (cases "q < upper")
    case True
    have "assigned D now e lower (node # nodes) s k = Some (?g, b)" using others k by simp
    with True q(1) g show ?thesis
      by (intro exI [of _ k] exI [of _ x] exI [of _ lower] exI [of _ upper] exI [of _ g] exI [of _ b] conjI)
        (simp_all add: node del: assigned.simps)
  next
    case False
    then have "upper \<le> q" "q < last (upper # uppers nodes)" using q(2) by (simp_all add: node)
    with IH obtain k' x' l upper' g' b' where found: "(k', x', upper') \<in> set nodes" "l \<le> q" "q < upper'"
      "(s(k \<mapsto> (?g, b))) k' = Some (g', b')" "assigned D now e upper nodes (s(k \<mapsto> (?g, b))) k' =
        Some (snd (repartitionConsumer (d_svs D) (requestedPartitions l upper') e g'), b')" by blast
    have "k' \<noteq> k" using k found(1) by force
    with found show ?thesis
      unfolding node rec
      by (intro exI [of _ k'] exI [of _ x'] exI [of _ l] exI [of _ upper'] exI [of _ g'] exI [of _ b'] conjI) simp_all
  qed
  have 3: "\<forall>j. j \<notin> fst ` set (node # nodes) \<longrightarrow> assigned D now e lower (node # nodes) s j = s j"
    using others by (simp add: node del: assigned.simps)
  from 1 3 2 show ?case by blast
qed

lemma scaled_settles:
  assumes "net_reach D s" and "s i = Some (f, a)" and "map_of (m_iceflowProducers f) e = Some p"
    and "sorted (uppers nodes)" and "last (0 # uppers nodes) = m_numberOfPartitions p"
    and "distinct (map fst nodes)" and "i \<notin> set (map fst nodes)"
    and "\<forall>node \<in> set nodes. can_serve D (m_syncPrefix f) e payload after s node" and "m_running f"
  shows "\<exists>f1 n w q k s3 s4 f2 g2. (net_step D)\<^sup>*\<^sup>* s (assigned D now e 0 nodes s) \<and>
    pushData (d_svs D) payload e f = (Inr (), f1) \<and>
    d_pubs D (m_svsPubSub f1) = d_pubs D (m_svsPubSub f) @ [(n, payload, Some w, q)] \<and>
    net_step D (assigned D now e 0 nodes s) ((assigned D now e 0 nodes s)(i \<mapsto> (f1, a))) \<and>
    net_step D ((assigned D now e 0 nodes s)(i \<mapsto> (f1, a))) s3 \<and> net_step D s3 s4 \<and>
    k \<in> set (map fst nodes) \<and> s4 k = Some (g2, after k) \<and> s4 i = Some (f2, a) \<and>
    packetName (d_svs D) (m_nodePrefix f) (m_syncPrefix f) q \<notin> store (m_svsPubSub f2)"
proof -
  let ?s1 = "assigned D now e 0 nodes s"
  note ok = reach_ok [OF assms(1)]
  note f = network_process [OF ok assms(2)]
  have e: "e \<in> set (producer_edges f)" using map_of_SomeD [OF assms(3)] by force
  obtain f1 x where f1: "pushData (d_svs D) payload e f = (Inr (), f1)"
    "d_pubs D (m_svsPubSub f1) = d_pubs D (m_svsPubSub f) @ [x]"
    "published_by (d_svs D) (map_of (m_iceflowProducers f)) (e, payload, ()) x"
    using pushData_known [OF svs_axioms f(2) e, of payload "()"] by blast
  obtain n d who r where x: "x = (n, d, who, r)" by (rule prod_cases4)
  have "data_publication (d_svs D) f e x" using published_data [OF f(3) f1(3)] by simp
  then obtain q w where n: "n = topicName (d_svs D) (m_syncPrefix f) e q" and w: "who = Some w"
    and q: "q < m_numberOfPartitions p"
    using assms(3) by (auto simp: x data_publication_def partition_counts_lookup)
  have d: "d = payload" using f1(3) x by (auto simp: published_by_def)
  have sorted: "sorted (0 # uppers nodes)" using assms(4) by simp
  note spec = assigned_spec [OF sorted assms(6,8), of now q]
  obtain k y l upper g b where k: "(k, y, upper) \<in> set nodes" and l: "l \<le> q" "q < upper"
    and g: "s k = Some (g, b)"
    and g1: "?s1 k = Some (snd (repartitionConsumer (d_svs D) (requestedPartitions l upper) e g), b)"
    using spec q assms(5) by fastforce
  have "can_serve D (m_syncPrefix f) e payload after s (k, y, upper)" using assms(8) k by blast
  then obtain c u where g': "m_syncPrefix g = m_syncPrefix f" "node_live (d_svs D) (d_subs D) g"
      "d_used D (m_svsPubSub g) + unat upper < 2 ^ 32" "m_running g"
    and c: "map_of (m_iceflowConsumers g) e = Some c" "m_consumerCallback c = Some (Plain u)"
    and run: "run_plain (d_app D k) u payload b = (Inr (), after k)"
    using g unfolding can_serve_def by auto
  note gok = network_process [OF ok g]
  have le: "l \<le> upper" using l by simp
  have room: "d_used D (m_svsPubSub g) + length (requestedPartitions l upper) < 2 ^ 32"
    by (rule room_taken [OF le g'(3)])
  obtain g2 c2 where g2: "repartitionConsumer (d_svs D) (requestedPartitions l upper) e g = (Inr (), g2)"
    and cs: "map_of (m_iceflowConsumers g2) = (map_of (m_iceflowConsumers g))(e \<mapsto> c2)"
    and c2: "c2 = c\<lparr>m_subscriptionHandles := m_subscriptionHandles c2\<rparr>"
    using repartitionConsumer_keeps_live [OF svs_axioms gok(2) room g'(2) c(1)] by blast
  have ec: "e \<in> set (consumer_edges g)" using map_of_SomeD [OF c(1)] by force
  have "q \<in> set (requestedPartitions l upper)" using l le by (simp add: requestedPartitions_set)
  then have "receives (d_subs D) e n g2"
    using repartitioned_receives [OF svs_axioms gok(3,2) g'(2) ec room] g2 unfolding n g'(1) by auto
  then have sub: "(n, Consumer_callback e) \<in> ran (d_subs D (m_svsPubSub g2))"
    unfolding receives_iff by (auto intro: ranI simp: image_iff eq_commute)
  have ki: "k \<noteq> i" using assms(7) k by force
  have s1: "?s1 i = Some (f, a)" using spec assms(2,7) by auto
  have pushed: "net_step D ?s1 (?s1(i \<mapsto> (f1, a)))"
    by (rule net_step.pushed [where s = ?s1 and i = i, OF s1 f1(1)])
  have "net_reach D ?s1" using assms(1) spec by (blast intro: rtranclp_trans)
  from net_more [OF this pushed] have reach: "net_reach D (?s1(i \<mapsto> (f1, a)))" .
  have at: "(?s1(i \<mapsto> (f1, a))) i = Some (f1, a)" "(?s1(i \<mapsto> (f1, a))) k = Some (g2, b)"
    using ki g1 g2 by simp_all
  have unit: "(n, payload, Some w, r) \<in> set (d_pubs D (m_svsPubSub f1))" using f1(2) by (simp add: x w d)
  have running: "m_running f1" "m_running g2"
    using pushData_frame(2) [of "d_svs D" payload e f] f1(1) assms(9)
      operations_running(1) [of "d_svs D" "requestedPartitions l upper" e g] g2 g'(4) by simp_all
  have "map_of (m_iceflowConsumers g2) e = Some c2" using cs by simp
  moreover have "m_consumerCallback c2 = Some (Plain u)"
    using arg_cong [OF c2, of m_consumerCallback] c(2) by simp
  moreover have "invokeCallback (d_svs D) (d_app D k) (Plain u) payload (g2, b) = (Inr (), g2, after k)"
    using run by simp
  ultimately obtain f2 g3 where last: "net_step D (?s1(i \<mapsto> (f1, a))) (?s1(i \<mapsto> (f1, a), k \<mapsto> (g3, after k)))"
    "net_step D (?s1(i \<mapsto> (f1, a), k \<mapsto> (g3, after k))) (?s1(i \<mapsto> (f1, a), k \<mapsto> (g3, after k), i \<mapsto> (f2, a)))"
    "packetName (d_svs D) (m_nodePrefix f1) (m_syncPrefix f1) r \<notin> store (m_svsPubSub f2)"
    using settle [OF reach at ki [symmetric] unit sub matches_refl _ _ _ running] by blast
  have "f1 = snd (pushData (d_svs D) payload e f)" using f1(1) by simp
  then have "node_frame f f1" by (simp add: pushData_node_frame)
  then have same: "m_nodePrefix f1 = m_nodePrefix f" "m_syncPrefix f1 = m_syncPrefix f"
    by (simp_all add: node_frame_def)
  have kin: "k \<in> set (map fst nodes)" using k by force
  show ?thesis
    by (rule exI [of _ f1], rule exI [of _ n], rule exI [of _ w], rule exI [of _ r], rule exI [of _ k],
        rule exI [of _ "?s1(i \<mapsto> (f1, a), k \<mapsto> (g3, after k))"],
        rule exI [of _ "?s1(i \<mapsto> (f1, a), k \<mapsto> (g3, after k), i \<mapsto> (f2, a))"],
        rule exI [of _ f2], rule exI [of _ g3], intro conjI)
      (use spec f1 pushed last kin ki same in \<open>simp_all add: x w d\<close>)
qed

end

section \<open>Properties\<close>

text \<open>
  C8: scaling out works from end to end. In a reachable state, let the executors of any number of
  other processes divide the partitions of one of a process's downstream edges, from 0 up to the
  producer's number of partitions, between processes that can serve the edge, all event loops running.
  This is a run of the network, and whatever the process pushes to the edge then is one publication that two deliveries
  settle: the callback of one of these processes returns for the unit, and the unit's packet is gone.
\<close>

theorem scaled_edge_settles:
  assumes "storing D invar store of_str of_obj of_arr packet" and "net_reach D s"
    and "s i = Some (f, a)" and "map_of (m_iceflowProducers f) e = Some p"
    and "sorted (uppers nodes)" and "last (0 # uppers nodes) = m_numberOfPartitions p"
    and "distinct (map fst nodes)" and "i \<notin> set (map fst nodes)"
    and "\<forall>node \<in> set nodes. can_serve D (m_syncPrefix f) e payload after s node" and "m_running f"
  shows "\<exists>f1 n w q k s3 s4 f2 g2. (net_step D)\<^sup>*\<^sup>* s (assigned D now e 0 nodes s) \<and>
    pushData (d_svs D) payload e f = (Inr (), f1) \<and>
    d_pubs D (m_svsPubSub f1) = d_pubs D (m_svsPubSub f) @ [(n, payload, Some w, q)] \<and>
    net_step D (assigned D now e 0 nodes s) ((assigned D now e 0 nodes s)(i \<mapsto> (f1, a))) \<and>
    net_step D ((assigned D now e 0 nodes s)(i \<mapsto> (f1, a))) s3 \<and> net_step D s3 s4 \<and>
    k \<in> set (map fst nodes) \<and> s4 k = Some (g2, after k) \<and> s4 i = Some (f2, a) \<and>
    packetName (d_svs D) (m_nodePrefix f) (m_syncPrefix f) q \<notin> store (m_svsPubSub f2)"
  by (rule storing.scaled_settles [OF assms])

theorem scaled_edge_settles_witness:
  "\<exists>s s3 s4 f1 f2 g2 w q n. net_reach example_deployment s \<and>
     pushData ref_ndn [42] ''t2l'' (example_upstream\<lparr>m_running := True\<rparr>) = (Inr (), f1) \<and>
     rs_pubs (m_svsPubSub f1) = [(n, [42], Some w, q)] \<and>
     net_step example_deployment (s(0 \<mapsto> (f1, 0))) s3 \<and> net_step example_deployment s3 s4 \<and>
     s4 1 = Some (g2, 0) \<and> s4 0 = Some (f2, 0) \<and>
     packetName ref_ndn (m_nodePrefix example_upstream) (m_syncPrefix example_upstream) q
       \<notin> rs_store (m_svsPubSub f2)"
proof -
  let ?f = "example_upstream\<lparr>m_running := True\<rparr>" and ?g = "example_registered\<lparr>m_running := True\<rparr>"
  let ?s = "[0 \<mapsto> (?f, 0), 1 \<mapsto> (?g, 0)] :: (ref_svs, jval, nat, nat) network"
  let ?nodes = "[(1, newExecutor ''a'' ''b'' :: (ref_svs, jval, nat) IceFlow IceflowExecutor, 3 :: u32)]"
  obtain p where p: "map_of (m_iceflowProducers ?f) ''t2l'' = Some p"
    and three: "m_numberOfPartitions p = 3"
    using example_counts by (auto simp: partition_counts_lookup)
  have live: "node_live ref_ndn ref_subs ?g"
    by (rule node_live_fresh) (simp add: example_registered_sels newConsumer_def)
  have sp: "m_syncPrefix ?g = ''/app''"
    by (simp add: example_registered_def registerConsumerCallback_def example_iceflow_svs example_iceflow_sync)
  have serve: "\<forall>node \<in> set ?nodes. can_serve example_deployment (m_syncPrefix ?f) ''t2l'' [42] (\<lambda>_. 0) ?s node"
    using live sp by (simp add: can_serve_def example_upstream_state example_registered_sels example_iceflow_svs example_app_def)
  have running: "m_running ?f" by simp
  have at: "?s 0 = Some (?f, 0)" by simp
  have bounds: "sorted (uppers ?nodes)" "last (0 # uppers ?nodes) = m_numberOfPartitions p"
    "distinct (map fst ?nodes)" "(0 :: nat) \<notin> set (map fst ?nodes)" by (simp_all add: three)
  obtain s1 where s1: "assigned example_deployment (\<lambda>_. 0) ''t2l'' 0 ?nodes ?s = s1" by blast
  obtain f1 n w q k s3 s4 f2 g2 where run: "(net_step example_deployment)\<^sup>*\<^sup>* ?s s1"
    "pushData ref_ndn [42] ''t2l'' ?f = (Inr (), f1)"
    "rs_pubs (m_svsPubSub f1) = rs_pubs (m_svsPubSub ?f) @ [(n, [42], Some w, q)]"
    "net_step example_deployment (s1(0 \<mapsto> (f1, 0))) s3" "net_step example_deployment s3 s4"
    "k \<in> set (map fst ?nodes)" "s4 k = Some (g2, 0)" "s4 0 = Some (f2, 0)"
    "packetName ref_ndn (m_nodePrefix ?f) (m_syncPrefix ?f) q \<notin> rs_store (m_svsPubSub f2)"
    using scaled_edge_settles [OF example_store.storing_axioms example_started at p bounds serve running, of "\<lambda>_. 0"]
    unfolding s1 example_deployment_sels by (elim exE conjE)
  have reach: "net_reach example_deployment s1" using example_started run(1) by (rule rtranclp_trans)
  have one: "k = 1" using run(6) by simp
  show ?thesis
    by (intro exI conjI, rule reach, rule run(2), use run(3) example_upstream_state(4) in simp, rule run(4), rule run(5),
        use run(7) in \<open>simp only: one\<close>, rule run(8), use run(9) in simp)
qed

end
