(* ===== verification/Congestion.thy ===== *)
theory Congestion
  imports Node_Frame
begin

text \<open>
  A congestion report from where it is noticed to the executor: \<open>reportCongestion\<close> of a node, of
  one of its consumers or producers, the \<open>CongestionReporter\<close> the node was constructed with, which
  is an \<open>IceflowScaler\<close>, its stub, the executor's service and the executor's callback. The edge
  name travels as a reference, and the one a consumer or producer keeps has lost its string.
\<close>

section \<open>Calling the reporter\<close>

text \<open>
  \<open>reporter->reportCongestion(...)\<close> for a call that \<open>reportCongestion\<close> of a node, consumer or
  producer makes; \<open>reporters\<close> holds the scalers the shared pointers lead to. Nothing happens
  without a reporter. \<open>set_edge_name\<close> reads the name before the request is sent, so a dangling
  reference is undefined behaviour.
\<close>

definition callReporter ::
    "(nat \<Rightarrow> 'x IceflowScaler) \<Rightarrow> report_call option \<Rightarrow> 'x \<Rightarrow> Status outcome option \<times> 'x" where
  "callReporter reporters call x =
     (case call of
        None \<Rightarrow> (None, x)
      | Some (r, congestionReason, edgeName) \<Rightarrow>
          (case edgeName of
             Dangling \<Rightarrow> (Some Undefined, x)
           | Refers name \<Rightarrow>
               (let (status, x') = scaler_reportCongestion congestionReason name (reporters r) x
                in (Some status, x'))))"

section \<open>What reports depend on\<close>

text \<open>
  The reporters and the edge name references of a node: no operation and no event changes them.
\<close>

definition report_state ::
    "('ps, 'j, 'u) IceFlow \<Rightarrow> nat option \<times> (string \<times> nat option \<times> string reference) list \<times>
       (string \<times> nat option \<times> string reference) list" where
  "report_state f = (m_congestionReporter f,
     map (\<lambda>(k, c). (k, consumer_congestionReporter c, m_upstreamEdgeName c)) (m_iceflowConsumers f),
     map (\<lambda>(k, p). (k, producer_congestionReporter p, m_downstreamEdgeName p)) (m_iceflowProducers f))"

lemma report_state_simps [simp]:
  "report_state (f\<lparr>m_svsPubSub := ps\<rparr>) = report_state f"
  "report_state (f\<lparr>m_running := b\<rparr>) = report_state f"
  by (simp_all add: report_state_def)

lemma report_state_consumers:
  assumes "\<And>c. map_of (m_iceflowConsumers f) e = Some c \<Longrightarrow>
      consumer_congestionReporter (g c) = consumer_congestionReporter c \<and> m_upstreamEdgeName (g c) = m_upstreamEdgeName c"
  shows "report_state (f\<lparr>m_svsPubSub := ps, m_iceflowConsumers := adjust e g (m_iceflowConsumers f)\<rparr>) = report_state f"
  using map_adjust_same [of "m_iceflowConsumers f" e "\<lambda>c. (consumer_congestionReporter c, m_upstreamEdgeName c)" g] assms
  by (simp add: report_state_def)

lemma report_state_producers:
  assumes "map_of (m_iceflowProducers f) e = Some p" and "producer_congestionReporter p' = producer_congestionReporter p"
    and "m_downstreamEdgeName p' = m_downstreamEdgeName p"
  shows "report_state (f\<lparr>m_svsPubSub := ps, m_iceflowProducers := adjust e (\<lambda>_. p') (m_iceflowProducers f)\<rparr>) = report_state f"
  using map_adjust_same [of "m_iceflowProducers f" e "\<lambda>p. (producer_congestionReporter p, m_downstreamEdgeName p)" "\<lambda>_. p'"] assms
  by (simp add: report_state_def)

lemma pushData_reports: "report_state (snd (pushData S d e f)) = report_state f"
proof (cases "map_of (m_iceflowProducers f) e")
  case None
  then show ?thesis by (simp add: pushData_def)
next
  case (Some p)
  from report_state_producers [OF Some, of "fst (producer_pushData S d p (Some (m_svsPubSub f)))"] Some
  show ?thesis by (simp add: pushData_def pushData_producer split_beta Let_def)
qed

lemma repartitionProducer_reports: "report_state (snd (repartitionProducer n e f)) = report_state f"
proof (cases "map_of (m_iceflowProducers f) e")
  case None
  then show ?thesis by (simp add: repartitionProducer_def)
next
  case (Some p)
  with report_state_producers [OF Some, where ps = "m_svsPubSub f"] show ?thesis
    by (auto simp: repartitionProducer_def setTopicPartitions_eq split: sum.split)
qed

lemma repartition_reports:
  "consumer_congestionReporter (fst (snd (repartition S this ps c lock))) = consumer_congestionReporter c \<and>
   m_upstreamEdgeName (fst (snd (repartition S this ps c lock))) = m_upstreamEdgeName c"
proof -
  have all: "consumer_congestionReporter (fst (snd (subscribeAll S this ps c lock))) = consumer_congestionReporter c \<and>
      m_upstreamEdgeName (fst (snd (subscribeAll S this ps c lock))) = m_upstreamEdgeName c" for c lock
    by (induction S this ps c lock rule: subscribeAll.induct)
      (auto simp: subscribeToTopicPartition_def split: prod.splits sum.splits option.splits)
  obtain c1 l1 where un: "unsubscribeFromAllPartitions S c lock = (c1, l1)"
    and c1: "consumer_congestionReporter c1 = consumer_congestionReporter c" "m_upstreamEdgeName c1 = m_upstreamEdgeName c"
    by (simp add: unsubscribeFromAllPartitions_def)
  obtain r c2 l2 where "subscribeAll S this ps c1 l1 = (r, c2, l2)" by (rule prod_cases3)
  with all [of c1 l1] un c1 show ?thesis by (simp add: repartition_def split: sum.split)
qed

lemma repartitionConsumer_reports: "report_state (snd (repartitionConsumer S ps e f)) = report_state f"
proof (cases "map_of (m_iceflowConsumers f) e")
  case None
  then show ?thesis by (simp add: repartitionConsumer_def)
next
  case (Some c)
  have "report_state (f\<lparr>m_svsPubSub := ps', m_iceflowConsumers := adjust e
      (\<lambda>_. fst (snd (repartition S e ps c (Some (m_svsPubSub f))))) (m_iceflowConsumers f)\<rparr>) = report_state f" for ps'
    by (rule report_state_consumers) (simp add: Some repartition_reports)
  with Some show ?thesis by (simp add: repartitionConsumer_def split_beta Let_def)
qed

lemma registerConsumerCallback_reports: "report_state (snd (registerConsumerCallback cb e f)) = report_state f"
  using report_state_consumers [of f e "setConsumerCallback cb" "m_svsPubSub f"]
  by (simp add: registerConsumerCallback_def setConsumerCallback_def split: option.split)

lemma getConsumerStats_reports: "report_state (snd (getConsumerStats S now f)) = report_state f"
  by (simp add: getConsumerStats_def split_beta)

lemma runScript_reports: "report_state (fst (snd (runScript S pushes r a f))) = report_state f"
proof (induction S pushes r a f rule: runScript.induct)
  case (2 S e d a1 pushes r a f)
  obtain x f1 where push: "pushData S d e f = (x, f1)" by (cases "pushData S d e f")
  with pushData_reports [of S d e f] have "report_state f1 = report_state f" by simp
  with 2 push show ?case by (cases x) simp_all
qed simp

lemma invokeCallback_reports: "report_state (fst (snd (invokeCallback S app cb d (f, a)))) = report_state f"
  using runScript_reports by (cases cb) (simp_all add: split_beta)

lemma onConsumerData_reports: "report_state (fst (snd (onConsumerData S J app e d now (f, a)))) = report_state f"
proof (cases "map_of (m_iceflowConsumers f) e")
  case None
  then show ?thesis by (simp add: onConsumerData_def)
next
  case c: (Some c)
  show ?thesis
  proof (cases "m_consumerCallback c")
    case None
    with c show ?thesis by (simp add: onConsumerData_def subscribeCallBack_def adjust_same)
  next
    case cb: (Some cb)
    obtain r f1 a1 where inv1: "invokeCallback S app cb (sub_data d) (f, a) = (r, f1, a1)"
      by (rule prod_cases3)
    have same: "m_iceflowConsumers f1 = m_iceflowConsumers f"
      using inv1 by (cases cb) (auto split: prod.splits dest: arg_cong [of _ _ "\<lambda>x. m_iceflowConsumers (fst (snd x))"])
    have f1: "report_state f1 = report_state f"
      using invokeCallback_reports [of S app cb "sub_data d" f a] by (simp add: inv1)
    show ?thesis
    proof (cases r)
      case (Inl x)
      with onConsumerData_raised [OF c cb inv1 [unfolded Inl] same] f1 show ?thesis by simp
    next
      case (Inr u)
      have "invokeCallback S app cb (sub_data d) (f, a) = (Inr (), f1, a1)" using inv1 Inr by simp
      from onConsumerData_returned [OF c cb this] show ?thesis
        using report_state_consumers [of f1 e "\<lambda>_. consumer_saveTimestamp now c"] c f1
        by (simp add: same consumer_saveTimestamp_def consumer_cleanUpTimestamps_def)
    qed
  qed
qed

lemma handleEvent_reports: "report_state (fst (snd (handleEvent S J app ev (f, a)))) = report_state f"
proof (cases ev)
  case (Arrived cb d now)
  with onConsumerData_reports [of S J app] show ?thesis by (cases cb) (simp_all add: split_beta)
qed (simp_all add: shutdown_def)

section \<open>The references after construction\<close>

text \<open>Every object has the node's reporter, and a reference whose string is gone.\<close>

definition reporters_dangling :: "('ps, 'j, 'u) IceFlow \<Rightarrow> bool" where
  "reporters_dangling f \<longleftrightarrow>
     (\<forall>(k, c) \<in> set (m_iceflowConsumers f).
        consumer_congestionReporter c = m_congestionReporter f \<and> m_upstreamEdgeName c = Dangling) \<and>
     (\<forall>(k, p) \<in> set (m_iceflowProducers f).
        producer_congestionReporter p = m_congestionReporter f \<and> m_downstreamEdgeName p = Dangling)"

lemma reporters_dangling_state:
  "reporters_dangling f \<longleftrightarrow>
     (case report_state f of (r, cs, ps) \<Rightarrow> \<forall>(k, r', name) \<in> set (cs @ ps). r' = r \<and> name = Dangling)"
  unfolding reporters_dangling_def report_state_def by (simp add: split_beta ball_Un)

lemma constructProducers_dangling:
  assumes "constructProducers S time es f = Inr f'" and "reporters_dangling f"
  shows "reporters_dangling f'"
  using assms
proof (induction es arbitrary: f)
  case (Cons e es)
  obtain p lock where new: "newProducer S (m_nodePrefix f) (m_syncPrefix f) (edge_id e)
      (maxPartitions e) (m_congestionReporter f) (time (edge_id e)) (Some (m_svsPubSub f)) = (Inr p, lock)"
    using Cons.prems(1) by (auto split: prod.splits sum.splits)
  let ?p = "p\<lparr>m_downstreamEdgeName := Dangling\<rparr>"
  let ?Q = "\<lambda>(k :: string, p). producer_congestionReporter p = m_congestionReporter f \<and> m_downstreamEdgeName p = Dangling"
  have "?Q (edge_id e, ?p)"
    using new by (auto simp: newProducer_cases Let_def split: if_splits)
  moreover have "\<forall>x \<in> set (m_iceflowProducers f). ?Q x"
    using Cons.prems(2) unfolding reporters_dangling_def by blast
  ultimately have "\<forall>x \<in> set (emplace (edge_id e) ?p (m_iceflowProducers f)). ?Q x"
    using set_emplace [of "edge_id e" ?p "m_iceflowProducers f"] by blast
  with Cons.prems(2) have "reporters_dangling (f\<lparr>m_svsPubSub := unlocked (m_svsPubSub f) lock,
      m_iceflowProducers := emplace (edge_id e) ?p (m_iceflowProducers f)\<rparr>)"
    unfolding reporters_dangling_def by simp
  with Cons.IH Cons.prems(1) new show ?case by simp
qed simp

lemma construct_frame:
  "m_congestionReporter (constructConsumers S now es f) = m_congestionReporter f"
  "m_iceflowProducers (constructConsumers S now es f) = m_iceflowProducers f"
  "constructProducers S time es f = Inr f' \<Longrightarrow> m_congestionReporter f' = m_congestionReporter f"
proof (induction es arbitrary: f)
  case (Cons e es)
  {
    case 1 then show ?case using Cons.IH(1) by (simp add: Let_def)
  next
    case 2 then show ?case using Cons.IH(2) by (simp add: Let_def)
  next
    case 3 then show ?case using Cons.IH(3) by (fastforce split: prod.splits sum.splits)
  }
qed simp_all

lemma newIceFlow_dangling:
  fixes f :: "('ps, 'j, 'u) IceFlow"
  assumes "newIceFlow S uuid time now d nodeName r = Inr f"
  shows "m_congestionReporter f = r" and "reporters_dangling f"
proof -
  obtain node where node: "findNodeByName d nodeName = Inr node"
    using assms by (auto simp: newIceFlow_def bindE_Inr_iff Let_def)
  let ?np = "generateNodePrefix uuid (m_applicationName d)" and ?es = "map snd (findUpstreamEdges d node)"
  let ?f0 = "\<lparr>m_running = False, m_svsPubSub = svs_new S (name_of S (m_applicationName d)) (name_of S ?np),
      m_nodePrefix = ?np, m_syncPrefix = m_applicationName d,
      m_iceflowProducers = [], m_iceflowConsumers = [], m_congestionReporter = r, m_node = node,
      m_downstreamEdges = downstream node, m_upstreamEdges = ?es\<rparr>"
  obtain f1 where f1: "constructProducers S time (downstream node) ?f0 = Inr f1"
    and f: "f = constructConsumers S now ?es f1"
    using assms node by (auto simp: newIceFlow_def bindE_Inr_iff Let_def)
  have "reporters_dangling ?f0" by (simp add: reporters_dangling_def)
  from constructProducers_dangling [OF f1 this] construct_frame(3) [OF f1]
  have f1: "reporters_dangling f1" "m_congestionReporter f1 = r" by simp_all
  show r: "m_congestionReporter f = r" by (simp add: f construct_frame f1)
  have "\<forall>(k, p) \<in> set (m_iceflowProducers f). producer_congestionReporter p = r \<and> m_downstreamEdgeName p = Dangling"
    using f1 by (simp add: f construct_frame reporters_dangling_def)
  moreover have "\<forall>(k, c) \<in> set (m_iceflowConsumers f). c = storedConsumer (m_syncPrefix f) k r (now k)"
    using newIceFlow_state [OF assms] by blast
  ultimately show "reporters_dangling f" by (auto simp: reporters_dangling_def r newConsumer_def)
qed

lemma reach_dangling: "node_reach S J app f \<Longrightarrow> reporters_dangling f"
proof (induction rule: node_reach.induct)
  case (created uuid time now d nodeName reporter f)
  then show ?case by (rule newIceFlow_dangling(2))
next
  case (pushed f payload e r f')
  then show ?case using pushData_reports [of S payload e f] by (simp add: reporters_dangling_state)
next
  case (consumer_repartitioned f ps e r f')
  then show ?case using repartitionConsumer_reports [of S ps e f] by (simp add: reporters_dangling_state)
next
  case (producer_repartitioned f n e r f')
  then show ?case using repartitionProducer_reports [of n e f] by (simp add: reporters_dangling_state)
next
  case (callback_registered f cb e r f')
  then show ?case using registerConsumerCallback_reports [of cb e f] by (simp add: reporters_dangling_state)
next
  case (stats_queried f now stats f')
  then show ?case using getConsumerStats_reports [of S now f] by (simp add: reporters_dangling_state)
next
  case (event f ev a r f' a')
  then show ?case using handleEvent_reports [of S J app ev f a] by (simp add: reporters_dangling_state)
qed (simp add: reporters_dangling_state)

section \<open>Properties\<close>

text \<open>A report that arrived, and nothing else.\<close>

definition arrived ::
    "'w IceflowExecutor \<Rightarrow> CongestionReason \<Rightarrow> string \<Rightarrow> Status outcome option \<times> 'w IceflowExecutor option" where
  "arrived x congestionReason edgeName =
     (Some (Returned Status_OK), Some (x\<lparr>congestionReports := congestionReports x @ [(congestionReason, edgeName)]\<rparr>))"

text \<open>
  C28: congestion reports of a node reach the executor, those of its consumers and producers cannot.
  Take a node in any state its operations and events lead to, whose congestion reporter is a scaler
  with its client address leading to the executor's service. A report by the node calls the
  executor's congestion callback once, with the given reason and edge, and changes nothing else; when
  the executor is gone, the status is \<open>INTERNAL\<close>. A report by any of its consumers or producers is
  undefined behaviour: the edge name it passes refers to a local string of the constructor, destroyed
  before the constructor returned. (No function of the repository calls these two, so the fault is
  latent.) Without a reporter, nobody reports and nothing is read.
\<close>

theorem congestion_reaches_executor:
  assumes "node_reach S J app f"
    and "newScaler G stubOf server client iceflow mg = (s, mg')" and "stubOf client = service_ReportCongestion"
    and "\<forall>r. m_congestionReporter f = Some r \<longrightarrow> reporters r = s"
  shows "callReporter reporters (reportCongestion e reason f) (Some x) =
      (if m_congestionReporter f = None then (None, Some x) else arrived x reason e) \<and>
    callReporter reporters (reportCongestion e reason f) None =
      (if m_congestionReporter f = None then None
       else Some (Returned (Status_error INTERNAL ''NodeExecutorService has already been shut down'')), None) \<and>
    (\<forall>(k, c) \<in> set (m_iceflowConsumers f). callReporter reporters (consumer_reportCongestion reason c) y =
       (if m_congestionReporter f = None then None else Some Undefined, y)) \<and>
    (\<forall>(k, p) \<in> set (m_iceflowProducers f). callReporter reporters (producer_reportCongestion reason p) y =
       (if m_congestionReporter f = None then None else Some Undefined, y))"
proof -
  note dangling = reach_dangling [OF assms(1), unfolded reporters_dangling_def]
  show ?thesis
  proof (cases "m_congestionReporter f")
    case None
    with dangling show ?thesis
      by (auto simp: callReporter_def reportCongestion_def consumer_reportCongestion_def producer_reportCongestion_def)
  next
    case (Some r')
    have "m_nodeExecutorService (reporters r') = Some service_ReportCongestion"
      using newScaler_stub [OF assms(2)] assms(3,4) Some by simp
    then show ?thesis using dangling Some
      by (auto simp: callReporter_def reportCongestion_def consumer_reportCongestion_def producer_reportCongestion_def
          scaler_reportCongestion_def service_ReportCongestion_def receiveCongestionReport_def arrived_def)
  qed
qed

theorem congestion_reaches_executor_witness:
  "\<exists>(f :: (ref_svs, jval, nat) IceFlow) s.
     newIceFlow ref_ndn ''u'' (\<lambda>_. 7) (\<lambda>_. 0) example_dag ''lines2words'' (Some 0) = Inr f \<and>
     fst (newScaler ref_grpc_ops (\<lambda>_. service_ReportCongestion) ''n'' ''e'' 0 no_objects) = s \<and>
     callReporter (\<lambda>_. s) (reportCongestion ''t2l'' CONGESTION_REASON_NETWORK f)
       (Some (newExecutor ''e'' ''n'' :: unit IceflowExecutor)) =
     arrived (newExecutor ''e'' ''n'') CONGESTION_REASON_NETWORK ''t2l'' \<and>
     set (consumer_edges f) = {''t2l''} \<and>
     (\<forall>(k, c) \<in> set (m_iceflowConsumers f).
        callReporter (\<lambda>_. s) (consumer_reportCongestion CONGESTION_REASON_NETWORK c) None = (Some Undefined, None))"
proof -
  have "\<nexists>x. newIceFlow ref_ndn ''u'' (\<lambda>_. 7) (\<lambda>_. 0) example_dag ''lines2words'' (Some 0) = Inl x"
    unfolding newIceFlow_throws_iff by (simp add: example_dag_def findNodeByName_def example_node_def)
  then obtain f :: "(ref_svs, jval, nat) IceFlow" where
    f: "newIceFlow ref_ndn ''u'' (\<lambda>_. 7) (\<lambda>_. 0) example_dag ''lines2words'' (Some 0) = Inr f"
    by (metis obj_sumE)
  let ?new = "newScaler ref_grpc_ops (\<lambda>_. service_ReportCongestion) ''n'' ''e'' 0 no_objects ::
    unit IceflowExecutor option IceflowScaler \<times> service memory \<times> ref_grpc"
  have s: "?new = (fst ?new, snd ?new)" by simp
  have edges: "set (consumer_edges f) = {''t2l''}"
    using newIceFlow_state [OF f]
    by (auto simp: example_dag_def findNodeByName_def example_node_def findUpstreamEdges_def findUpstreamEdgesOfTask_def)
  have "node_reach ref_ndn ref_json example_app f" by (rule node_reach.created [OF f])
  from congestion_reaches_executor [where reporters = "\<lambda>_. fst ?new" and reason = CONGESTION_REASON_NETWORK
      and y = None and e = "''t2l''" and x = "newExecutor ''e'' ''n''", OF this s refl] newIceFlow_dangling(1) [OF f] f edges
  show ?thesis by simp
qed

end
