(* ===== verification/Application_Calls.thy ===== *)
theory Application_Calls
  imports Back_Channels
begin

text \<open>
  A running node whose public operations are called while it runs. The callbacks of \<open>Event_Loop\<close>
  use the node only to push, which is all the programs of the repository do; but a callback may hold
  on to the \<open>IceFlow\<close> object and call any operation of it, and so may another thread, as the
  handlers of the gRPC service do. This theory runs such applications, shows that the loop of
  \<open>Event_Loop\<close> is the case of callbacks that only push, and what a node keeps in any case.
\<close>

section \<open>Calls\<close>

text \<open>
  The public operations that act on the node or read what changes, and what the caller gets: an
  exception it may catch, or the statistics. The getters return what construction has fixed;
  \<open>reportCongestion\<close> leaves the node alone. Left out are \<open>run\<close>, which throws in a running node, and
  \<open>registerConsumerCallback\<close>, which belongs before \<open>run\<close> (in a callback it would destroy the
  function that is being executed). The clock readings are part of a statistics call.
\<close>

datatype node_call =
    Push_data string "byte list"
  | Repartition_consumer string "u32 list"
  | Repartition_producer string u64
  | Consumer_stats "string \<Rightarrow> time_point"
  | Producer_stats "string \<Rightarrow> time_point"
  | Shut_down

datatype reply =
    Completed
  | Raised exn
  | Consumption "(string \<times> EdgeConsumptionStats) list"
  | Production "(string \<times> EdgeProductionStats) list"

definition reply_of :: "exn + unit \<Rightarrow> reply" where
  "reply_of r = (case r of Inl x \<Rightarrow> Raised x | Inr _ \<Rightarrow> Completed)"

fun perform ::
    "('ps, 'n) ndn_ops \<Rightarrow> node_call \<Rightarrow> ('ps, 'j, 'u) IceFlow \<Rightarrow> reply \<times> ('ps, 'j, 'u) IceFlow" where
  "perform S (Push_data e payload) f = map_prod reply_of id (pushData S payload e f)"
| "perform S (Repartition_consumer e partitions) f = map_prod reply_of id (repartitionConsumer S partitions e f)"
| "perform S (Repartition_producer e n) f = map_prod reply_of id (repartitionProducer n e f)"
| "perform S (Consumer_stats now) f = map_prod Consumption id (getConsumerStats S now f)"
| "perform S (Producer_stats now) f = (Production (getProducerStats now f), f)"
| "perform S Shut_down f = (Completed, shutdown f)"

text \<open>The handlers of the gRPC service act on the node by one such call each.\<close>

lemma service_calls:
  "snd (snd (service_Repartition S request f)) =
     snd (perform S (Repartition_consumer (req_edge_name request)
       (requestedPartitions (req_lower_partition_bound request) (req_upper_partition_bound request))) f)"
  "snd (snd (service_QueryStats S now f)) = snd (perform S (Consumer_stats now) f)"
  by (simp_all add: service_Repartition_def service_QueryStats_def Let_def split_beta split: prod.split sum.split)

text \<open>
  What application code does with the node: it calls an operation and goes on with the reply, or is
  done, with its own state changed.
\<close>

datatype 'a behaviour =
    Return "exn + unit" 'a
  | Call node_call "reply \<Rightarrow> 'a behaviour"

primrec behave ::
    "'a behaviour \<Rightarrow> ('ps, 'n) ndn_ops \<Rightarrow> ('ps, 'j, 'u) IceFlow \<Rightarrow> (exn + unit) \<times> ('ps, 'j, 'u) IceFlow \<times> 'a" where
  "behave (Return r a) S f = (r, f, a)"
| "behave (Call c k) S f = behave (k (fst (perform S c f))) S (snd (perform S c f))"

type_synonym ('u, 'a) calling_application = "'u ConsumerCallback \<Rightarrow> byte list \<Rightarrow> 'a \<Rightarrow> 'a behaviour"

section \<open>The loop with calling callbacks\<close>

text \<open>
  \<open>subscribeCallBack\<close> as in \<open>Consumer\<close>, but the timestamp is saved in the consumer as the callback
  has left it.
\<close>

definition onConsumerCalls ::
    "('ps, 'n) ndn_ops \<Rightarrow> 'j json_ops \<Rightarrow> ('u, 'a) calling_application \<Rightarrow> string \<Rightarrow> 'n SubscriptionData
       \<Rightarrow> time_point \<Rightarrow> ('ps, 'j, 'u) IceFlow \<times> 'a
       \<Rightarrow> (exn + unit) \<times> ('ps, 'j, 'u) IceFlow \<times> 'a" where
  "onConsumerCalls S J app edge subData now fa =
     (case map_of (m_iceflowConsumers (fst fa)) edge of
        None \<Rightarrow> (Inr (), fa)
      | Some c \<Rightarrow>
          (case m_consumerCallback c of
             None \<Rightarrow> (Inr (), fa)
           | Some cb \<Rightarrow>
               (case behave (app cb (sub_data subData) (snd fa)) S (fst fa) of
                  (Inl x, fa1) \<Rightarrow> (Inl x, fa1)
                | (Inr _, f1, a1) \<Rightarrow>
                    (Inr (),
                     f1\<lparr>m_svsPubSub := snd (svs_publish S (m_svsPubSub f1) (backchannelName S (m_subTopic c))
                                              (ackPayload J (sub_seqNo subData)) None),
                        m_iceflowConsumers := adjust edge (consumer_saveTimestamp now) (m_iceflowConsumers f1)\<rparr>,
                     a1))))"

text \<open>
  The events of a batch: those of the face, and calls by other threads, which fall between two
  handlers (the code does not synchronise them).
\<close>

datatype 'n node_event = Face "'n face_event" | Thread_call node_call

fun handleCalls ::
    "('ps, 'n) ndn_ops \<Rightarrow> 'j json_ops \<Rightarrow> ('u, 'a) calling_application \<Rightarrow> 'n node_event
       \<Rightarrow> ('ps, 'j, 'u) IceFlow \<times> 'a \<Rightarrow> (exn + unit) \<times> ('ps, 'j, 'u) IceFlow \<times> 'a" where
  "handleCalls S J app (Face (Arrived (Consumer_callback edge) d now)) fa =
     onConsumerCalls S J app edge d now fa"
| "handleCalls S J app (Face (Arrived (Backchannel_handler np sp) d now)) (f, a) =
     (let (r, ps) = handleBackchannel S J np sp d (m_svsPubSub f)
      in (r, f\<lparr>m_svsPubSub := ps\<rparr>, a))"
| "handleCalls S J app (Face Shutdown) (f, a) = (Inr (), shutdown f, a)"
| "handleCalls S J app (Face (Face_error x)) fa = (Inl x, fa)"
| "handleCalls S J app (Thread_call c) (f, a) = (Inr (), snd (perform S c f), a)"

fun processCalls ::
    "('ps, 'n) ndn_ops \<Rightarrow> 'j json_ops \<Rightarrow> ('u, 'a) calling_application \<Rightarrow> 'n node_event list
       \<Rightarrow> ('ps, 'j, 'u) IceFlow \<times> 'a \<Rightarrow> (exn + unit) \<times> ('ps, 'j, 'u) IceFlow \<times> 'a" where
  "processCalls S J app [] fa = (Inr (), fa)"
| "processCalls S J app (e # es) fa =
     (case handleCalls S J app e fa of
        (Inl x, fa') \<Rightarrow> (Inl x, fa')
      | (Inr _, fa') \<Rightarrow> processCalls S J app es fa')"

fun loopCalls ::
    "('ps, 'n) ndn_ops \<Rightarrow> 'j json_ops \<Rightarrow> ('u, 'a) calling_application \<Rightarrow> 'n node_event list list
       \<Rightarrow> ('ps, 'j, 'u) IceFlow \<times> 'a \<Rightarrow> loop_outcome \<times> ('ps, 'j, 'u) IceFlow \<times> 'a" where
  "loopCalls S J app [] fa = (if m_running (fst fa) then Running else Stopped, fa)"
| "loopCalls S J app (batch # batches) fa =
     (if \<not> m_running (fst fa) then (Stopped, fa)
      else case processCalls S J app batch fa of
             (Inl x, fa') \<Rightarrow>
               (if is_std_exception x then loopCalls S J app batches fa' else (Crashed x, fa'))
           | (Inr _, fa') \<Rightarrow> loopCalls S J app batches fa')"

definition runCalls ::
    "('ps, 'n) ndn_ops \<Rightarrow> 'j json_ops \<Rightarrow> ('u, 'a) calling_application \<Rightarrow> 'n node_event list list
       \<Rightarrow> ('ps, 'j, 'u) IceFlow \<times> 'a
       \<Rightarrow> exn + loop_outcome \<times> ('ps, 'j, 'u) IceFlow \<times> 'a" where
  "runCalls S J app batches fa =
     (if m_running (fst fa) then Inl (Runtime_error ''Iceflow instance is already running!'')
      else Inr (loopCalls S J app batches ((fst fa)\<lparr>m_running := True\<rparr>, snd fa)))"

section \<open>Callbacks that only push\<close>

fun push_behaviour :: "(string \<times> byte list \<times> 'a) list \<Rightarrow> (exn + unit) \<Rightarrow> 'a \<Rightarrow> 'a behaviour" where
  "push_behaviour [] outcome a = Return outcome a"
| "push_behaviour ((edge, data, a1) # pushes) outcome a =
     Call (Push_data edge data)
       (\<lambda>reply. case reply of Raised x \<Rightarrow> Return (Inl x) a1 | _ \<Rightarrow> push_behaviour pushes outcome a)"

fun pushing_app :: "('u, 'a) application \<Rightarrow> ('u, 'a) calling_application" where
  "pushing_app app (Plain u) data a = (let (r, a') = run_plain app u data a in Return r a')"
| "pushing_app app (Prosumer u) data a =
     (let (pushes, outcome, a') = run_prosumer app u data a in push_behaviour pushes outcome a')"

lemma behave_pushes: "behave (push_behaviour pushes r a) S f = runScript S pushes r a f"
  by (induction S pushes r a f rule: runScript.induct)
    (auto simp: reply_of_def map_prod_def split: prod.split sum.split)

lemma behave_pushing: "behave (pushing_app app cb data a) S f = invokeCallback S app cb data (f, a)"
  by (cases cb) (simp_all add: split_beta behave_pushes)

lemma adjust_const: "map_of m k = Some v \<Longrightarrow> adjust k (\<lambda>_. g v) m = adjust k g m"
  by (induction m) (auto split: if_splits)

lemma onConsumerCalls_pushing:
  "onConsumerCalls S J (pushing_app app) e d now (f, a) = onConsumerData S J app e d now (f, a)"
proof (cases "map_of (m_iceflowConsumers f) e")
  case None
  then show ?thesis by (simp add: onConsumerCalls_def onConsumerData_def)
next
  case c: (Some c)
  show ?thesis
  proof (cases "m_consumerCallback c")
    case None
    with c show ?thesis by (simp add: onConsumerCalls_def onConsumerData_def subscribeCallBack_def adjust_same)
  next
    case cb: (Some cb)
    obtain r f1 a1 where inv1: "invokeCallback S app cb (sub_data d) (f, a) = (r, f1, a1)"
      by (rule prod_cases3)
    have same: "m_iceflowConsumers f1 = m_iceflowConsumers f"
      using inv1 by (cases cb) (auto split: prod.splits dest: arg_cong [of _ _ "\<lambda>x. m_iceflowConsumers (fst (snd x))"])
    show ?thesis
    proof (cases r)
      case (Inl x)
      with onConsumerData_raised [OF c cb inv1 [unfolded Inl] same] inv1 c cb show ?thesis
        by (simp add: onConsumerCalls_def behave_pushing)
    next
      case (Inr u)
      have returned: "invokeCallback S app cb (sub_data d) (f, a) = (Inr (), f1, a1)" using inv1 Inr by simp
      from onConsumerData_returned [OF c cb returned] show ?thesis
        using c cb returned adjust_const [OF c, of "consumer_saveTimestamp now"]
        by (simp add: onConsumerCalls_def behave_pushing same)
    qed
  qed
qed

lemma handleCalls_pushing: "handleCalls S J (pushing_app app) (Face ev) (f, a) = handleEvent S J app ev (f, a)"
proof (cases ev)
  case (Arrived cb d now)
  then show ?thesis by (cases cb) (simp_all add: onConsumerCalls_pushing)
qed simp_all

lemma processCalls_pushing: "processCalls S J (pushing_app app) (map Face es) (f, a) = processEvents S J app es (f, a)"
proof (induction es arbitrary: f a)
  case (Cons ev es)
  obtain r f1 a1 where "handleEvent S J app ev (f, a) = (r, f1, a1)" by (rule prod_cases3)
  with Cons.IH show ?case by (cases r) (simp_all add: handleCalls_pushing)
qed simp

lemma loopCalls_pushing:
  "loopCalls S J (pushing_app app) (map (map Face) batches) (f, a) = eventLoop S J app batches (f, a)"
proof (induction batches arbitrary: f a)
  case (Cons batch batches)
  obtain r f1 a1 where "processEvents S J app batch (f, a) = (r, f1, a1)" by (rule prod_cases3)
  with Cons.IH show ?case by (cases r) (simp_all add: processCalls_pushing)
qed simp

text \<open>The loop of \<open>Event_Loop\<close> is the loop here for callbacks that only push and no other thread.\<close>

theorem runCalls_pushing: "runCalls S J (pushing_app app) (map (map Face) batches) (f, a) = run S J app batches (f, a)"
  by (simp add: runCalls_def run_def loopCalls_pushing)

section \<open>How much an application subscribes\<close>

text \<open>
  \<open>within n b\<close>: whatever the replies, \<open>b\<close> subscribes to at most \<open>n\<close> partitions. \<open>calls_only P b\<close>:
  it only makes calls of the kind \<open>P\<close>.
\<close>

fun subscriptions :: "node_call \<Rightarrow> nat" where
  "subscriptions (Repartition_consumer e partitions) = length partitions"
| "subscriptions _ = 0"

primrec within :: "'a behaviour \<Rightarrow> nat \<Rightarrow> bool" where
  "within (Return r a) n \<longleftrightarrow> True"
| "within (Call c k) n \<longleftrightarrow> subscriptions c \<le> n \<and> (\<forall>reply. within (k reply) (n - subscriptions c))"

primrec calls_only :: "(node_call \<Rightarrow> bool) \<Rightarrow> 'a behaviour \<Rightarrow> bool" where
  "calls_only P (Return r a) \<longleftrightarrow> True"
| "calls_only P (Call c k) \<longleftrightarrow> P c \<and> (\<forall>reply. calls_only P (k reply))"

text \<open>The most an event, and a run, can subscribe when each callback subscribes at most \<open>n\<close> times.\<close>

fun demand :: "nat \<Rightarrow> 'n node_event \<Rightarrow> nat" where
  "demand n (Face ev) = n"
| "demand n (Thread_call c) = subscriptions c"

abbreviation demands :: "nat \<Rightarrow> 'n node_event list \<Rightarrow> nat" where
  "demands n es \<equiv> sum_list (map (demand n) es)"

fun allowed :: "(node_call \<Rightarrow> bool) \<Rightarrow> 'n node_event \<Rightarrow> bool" where
  "allowed P (Face ev) \<longleftrightarrow> True"
| "allowed P (Thread_call c) \<longleftrightarrow> P c"

text \<open>The kinds of calls that leave every handle alive, and those that leave all subscriptions as they are.\<close>

fun no_statistics :: "node_call \<Rightarrow> bool" where
  "no_statistics (Consumer_stats _) \<longleftrightarrow> False"
| "no_statistics _ \<longleftrightarrow> True"

fun no_subscriptions :: "node_call \<Rightarrow> bool" where
  "no_subscriptions (Consumer_stats _) \<longleftrightarrow> False"
| "no_subscriptions (Repartition_consumer _ _) \<longleftrightarrow> False"
| "no_subscriptions _ \<longleftrightarrow> True"

section \<open>What calls keep\<close>

definition calls_kept ::
    "('ps, 'n) ndn_ops \<Rightarrow> ('ps \<Rightarrow> bool) \<Rightarrow> ('ps \<Rightarrow> nat) \<Rightarrow> ('ps \<Rightarrow> u32 \<rightharpoonup> 'n \<times> callback) \<Rightarrow> ('ps \<Rightarrow> 'n publication list)
       \<Rightarrow> (node_call \<Rightarrow> bool) \<Rightarrow> nat \<Rightarrow> ('ps, 'j, 'u) IceFlow \<Rightarrow> ('ps, 'j, 'u) IceFlow \<Rightarrow> bool" where
  "calls_kept S invar used subs pubs P n f f' \<longleftrightarrow>
     node_frame f f' \<and> invar (m_svsPubSub f') \<and> used (m_svsPubSub f') \<le> used (m_svsPubSub f) + n \<and>
     (\<exists>new. pubs (m_svsPubSub f') = pubs (m_svsPubSub f) @ new) \<and>
     (back_ok S subs f \<longrightarrow> back_ok S subs f') \<and>
     (P \<le> no_statistics \<longrightarrow> node_live S subs f \<longrightarrow> node_live S subs f') \<and>
     (P \<le> no_subscriptions \<longrightarrow> subs (m_svsPubSub f') = subs (m_svsPubSub f))"

lemma kept_invar: "calls_kept S invar used subs pubs P n f f' \<Longrightarrow> invar (m_svsPubSub f')"
  by (simp add: calls_kept_def)

lemma kept_used: "calls_kept S invar used subs pubs P n f f' \<Longrightarrow> used (m_svsPubSub f') \<le> used (m_svsPubSub f) + n"
  by (simp add: calls_kept_def)

lemma kept_trans:
  "calls_kept S invar used subs pubs P m f g \<Longrightarrow> calls_kept S invar used subs pubs P n g h \<Longrightarrow>
     calls_kept S invar used subs pubs P (m + n) f h"
  unfolding calls_kept_def by (auto intro: frame_trans)

lemma kept_mono: "calls_kept S invar used subs pubs P m f g \<Longrightarrow> m \<le> n \<Longrightarrow> calls_kept S invar used subs pubs P n f g"
  unfolding calls_kept_def by auto

lemma evolves_kept:
  assumes "node_evolves invar subs pubs f f'" and "node_frame f f'"
    and "used (m_svsPubSub f') = used (m_svsPubSub f)"
  shows "calls_kept S invar used subs pubs P 0 f f'"
  using assms back_ok_evolves [OF _ assms(1,2)] evolves_live [OF assms(1)]
  by (auto simp: calls_kept_def node_evolves_def)

lemma kept_refl: "invar (m_svsPubSub f) \<Longrightarrow> calls_kept S invar used subs pubs P n f f"
  by (simp add: calls_kept_def)

lemma consumerStatsLoop_used:
  assumes "svs S invar used subs pubs store" and "invar ps"
  shows "used (snd (consumerStatsLoop S now m acc ps)) = used ps"
  using assms(2)
proof (induction m arbitrary: acc ps)
  case (Cons kc m)
  obtain k c where kc: "kc = (k, c)" by (cases kc)
  note un = svs.unsubscribe_all [OF assms(1) Cons.prems, where hs = "m_subscriptionHandles c"]
  have "snd (consumerStatsLoop S now (kc # m) acc ps) =
      snd (consumerStatsLoop S now m (emplace k (fst (getConsumptionStats (now k) c)) acc)
        (foldl (svs_unsubscribe S) ps (m_subscriptionHandles c)))"
    by (simp add: kc split_beta Let_def destroyConsumer_def unsubscribeFromAllPartitions_def
        getConsumptionStats_def)
  with Cons.IH [OF un(1)] un(2) show ?case by simp
qed simp

lemma push_kept:
  assumes "svs S invar used subs pubs store" and "invar (m_svsPubSub f)"
  shows "calls_kept S invar used subs pubs P 0 f (snd (pushData S d e f))"
proof (rule evolves_kept)
  show "node_evolves invar subs pubs f (snd (pushData S d e f))"
  proof (cases "e \<in> set (producer_edges f)")
    case True
    from pushData_known [OF assms True, of d "()"] obtain f' where "pushData S d e f = (Inr (), f')"
      "node_evolves invar subs pubs f f'" by blast
    then show ?thesis by simp
  next
    case False
    then have "pushData S d e f = (Inl (no_producer e), f)" by (simp add: pushData_def map_of_unknown)
    then show ?thesis using evolves_refl [of invar f subs pubs, OF assms(2)] by simp
  qed
  show "node_frame f (snd (pushData S d e f))" by (rule pushData_node_frame)
  show "used (m_svsPubSub (snd (pushData S d e f))) = used (m_svsPubSub f)"
    using svs.publish [OF assms prod.collapse [symmetric]]
    by (simp add: pushData_def producer_pushData_def getNextPartitionNumber_def split_beta Let_def split: option.split)
qed

lemma repartition_kept:
  assumes "svs S invar used subs pubs store" and "invar (m_svsPubSub f)"
    and "used (m_svsPubSub f) + length ps < 2 ^ 32" and "\<not> P \<le> no_subscriptions"
  shows "calls_kept S invar used subs pubs P (length ps) f (snd (repartitionConsumer S ps e f))"
proof (cases "map_of (m_iceflowConsumers f) e")
  case None
  then have "snd (repartitionConsumer S ps e f) = f" by (simp add: repartitionConsumer_def)
  with assms(2) show ?thesis by (simp add: kept_refl)
next
  case (Some c)
  from repartition_fresh [OF assms(1-3), of e c] obtain hs ps' where
    "repartition S e ps c (Some (m_svsPubSub f)) = (Inr True, c\<lparr>m_subscriptionHandles := hs\<rparr>, Some ps')"
    "invar ps'" "used ps' = used (m_svsPubSub f) + length ps" "pubs ps' = pubs (m_svsPubSub f)" by blast
  moreover from this have "m_svsPubSub (snd (repartitionConsumer S ps e f)) = ps'"
    by (simp add: repartitionConsumer_def Some)
  ultimately show ?thesis
    using assms(4) repartitionConsumer_frame back_ok_repartitioned [OF assms(1-3)]
      repartitionConsumer_keeps_live [OF assms(1-3) _ Some]
    unfolding calls_kept_def by fastforce
qed

lemma stats_kept:
  assumes "svs S invar used subs pubs store" and "invar (m_svsPubSub f)" and "\<not> P \<le> no_statistics"
  shows "calls_kept S invar used subs pubs P 0 f (snd (getConsumerStats S now f))"
proof -
  have ps: "m_svsPubSub (snd (getConsumerStats S now f)) =
      snd (consumerStatsLoop S now (m_iceflowConsumers f) [] (m_svsPubSub f))"
    by (simp add: getConsumerStats_def split_beta)
  have "no_subscriptions \<le> no_statistics"
    by (rule le_funI, rename_tac c, case_tac c) simp_all
  with assms(3) have "\<not> P \<le> no_subscriptions" by (metis order_trans)
  with assms(3) getConsumerStats_frame [of f S now] back_ok_stats [OF assms(1,2), where now = now]
    consumerStatsLoop_svs [OF assms(1,2), of now "m_iceflowConsumers f" "[]"]
    consumerStatsLoop_used [OF assms(1,2), of now "m_iceflowConsumers f" "[]"]
  show ?thesis unfolding calls_kept_def ps by simp
qed

lemma shutdown_kept: "invar (m_svsPubSub f) \<Longrightarrow> calls_kept S invar used subs pubs P 0 f (shutdown f)"
  by (rule evolves_kept) (simp_all add: shutdown_def node_evolves_def)

lemma perform_kept:
  assumes "svs S invar used subs pubs store" and "invar (m_svsPubSub f)"
    and "used (m_svsPubSub f) + subscriptions c < 2 ^ 32" and "P c"
  shows "calls_kept S invar used subs pubs P (subscriptions c) f (snd (perform S c f))"
proof (cases c)
  case (Push_data e d)
  with push_kept [OF assms(1,2)] show ?thesis by simp
next
  case (Repartition_consumer e ps)
  with assms(4) have "\<not> P \<le> no_subscriptions" by (auto simp: le_fun_def)
  with repartition_kept [OF assms(1,2)] assms(3) Repartition_consumer show ?thesis by simp
next
  case (Repartition_producer e n)
  have "m_iceflowConsumers (snd (repartitionProducer n e f)) = m_iceflowConsumers f"
    by (simp add: repartitionProducer_def split: option.split sum.split)
  moreover note frame = repartitionProducer_frame [where f = f and n = n and e = e]
  ultimately have "node_evolves invar subs pubs f (snd (repartitionProducer n e f))"
    using assms(2) frame_producer_edges [OF frame(1)] by (simp add: node_evolves_def)
  from evolves_kept [OF this frame(1)] frame(2) Repartition_producer show ?thesis by simp
next
  case (Consumer_stats now)
  with assms(4) have "\<not> P \<le> no_statistics" by (auto simp: le_fun_def)
  with stats_kept [OF assms(1,2)] Consumer_stats show ?thesis by simp
next
  case (Producer_stats now)
  with assms(2) show ?thesis by (simp add: kept_refl)
next
  case Shut_down
  with assms(2) show ?thesis by (simp add: shutdown_kept)
qed

lemma behave_kept:
  assumes "svs S invar used subs pubs store" and "invar (m_svsPubSub f)" and "used (m_svsPubSub f) + n < 2 ^ 32"
    and "within b n" and "calls_only P b" and "behave b S f = (r, f', a)"
  shows "calls_kept S invar used subs pubs P n f f'"
  using assms(2-)
proof (induction b arbitrary: f n)
  case (Return r a)
  then show ?case by (simp add: kept_refl)
next
  case (Call c k)
  let ?f = "snd (perform S c f)"
  have step: "calls_kept S invar used subs pubs P (subscriptions c) f ?f"
    by (rule perform_kept [OF assms(1)]) (use Call.prems in auto)
  moreover have "calls_kept S invar used subs pubs P (n - subscriptions c) ?f f'"
    by (rule Call.IH [OF rangeI]) (use Call.prems kept_invar [OF step] kept_used [OF step] in auto)
  ultimately show ?case using kept_trans Call.prems(3) by fastforce
qed

lemma acknowledged_kept:
  assumes "svs S invar used subs pubs store" and "invar (m_svsPubSub f)"
  shows "calls_kept S invar used subs pubs P 0 f
    (f\<lparr>m_svsPubSub := snd (svs_publish S (m_svsPubSub f) n ack None),
       m_iceflowConsumers := adjust e (consumer_saveTimestamp now) (m_iceflowConsumers f)\<rparr>)"
proof (rule evolves_kept)
  note published = svs.publish [OF assms prod.collapse [symmetric], of n ack None]
  have "same_handles (m_iceflowConsumers f) (adjust e (consumer_saveTimestamp now) (m_iceflowConsumers f))"
    using map_adjust_same [of "m_iceflowConsumers f" e "\<lambda>c. (m_subTopic c, m_subscriptionHandles c)" "consumer_saveTimestamp now"]
    by (simp add: same_handles_def)
  with published show "node_evolves invar subs pubs f
      (f\<lparr>m_svsPubSub := snd (svs_publish S (m_svsPubSub f) n ack None),
         m_iceflowConsumers := adjust e (consumer_saveTimestamp now) (m_iceflowConsumers f)\<rparr>)"
    by (simp add: node_evolves_def)
  show "used (m_svsPubSub (f\<lparr>m_svsPubSub := snd (svs_publish S (m_svsPubSub f) n ack None),
      m_iceflowConsumers := adjust e (consumer_saveTimestamp now) (m_iceflowConsumers f)\<rparr>)) = used (m_svsPubSub f)"
    using published by simp
qed (simp add: node_frame_def partition_counts_def)

lemma onConsumerCalls_kept:
  assumes "svs S invar used subs pubs store" and "invar (m_svsPubSub f)" and "used (m_svsPubSub f) + n < 2 ^ 32"
    and "\<And>cb d a. within (app cb d a) n \<and> calls_only P (app cb d a)"
    and "onConsumerCalls S J app e d now (f, a) = (r, f', a')"
  shows "calls_kept S invar used subs pubs P n f f'"
proof (cases "map_of (m_iceflowConsumers f) e")
  case None
  with assms(2,5) show ?thesis by (simp add: onConsumerCalls_def kept_refl)
next
  case c: (Some c)
  show ?thesis
  proof (cases "m_consumerCallback c")
    case None
    with assms(2,5) c show ?thesis by (simp add: onConsumerCalls_def kept_refl)
  next
    case cb: (Some cb)
    obtain r1 f1 a1 where b: "behave (app cb (sub_data d) a) S f = (r1, f1, a1)" by (rule prod_cases3)
    have step: "calls_kept S invar used subs pubs P n f f1"
      by (rule behave_kept [OF assms(1-3) _ _ b]) (use assms(4) in blast)+
    show ?thesis
    proof (cases r1)
      case (Inl x)
      with assms(5) c cb b step show ?thesis by (simp add: onConsumerCalls_def)
    next
      case (Inr u)
      with assms(5) c cb b have "f' = f1\<lparr>m_svsPubSub := snd (svs_publish S (m_svsPubSub f1)
          (backchannelName S (m_subTopic c)) (ackPayload J (sub_seqNo d)) None),
          m_iceflowConsumers := adjust e (consumer_saveTimestamp now) (m_iceflowConsumers f1)\<rparr>"
        by (simp add: onConsumerCalls_def)
      with kept_trans [OF step acknowledged_kept [OF assms(1) kept_invar [OF step]]] show ?thesis by simp
    qed
  qed
qed

lemma backchannel_kept:
  assumes "svs S invar used subs pubs store" and "invar (m_svsPubSub f)"
    and "handleBackchannel S J np sp d (m_svsPubSub f) = (r, ps)"
  shows "calls_kept S invar used subs pubs P 0 f (f\<lparr>m_svsPubSub := ps\<rparr>)"
proof -
  have "invar ps \<and> subs ps = subs (m_svsPubSub f) \<and> pubs ps = pubs (m_svsPubSub f) \<and> used ps = used (m_svsPubSub f)"
    using assms(2,3) svs.erase_simps [OF assms(1)]
    by (auto simp: handleBackchannel_def Let_def split: sum.splits if_splits)
  then show ?thesis by (intro evolves_kept) (simp_all add: node_evolves_def)
qed

lemma handleCalls_kept:
  assumes "svs S invar used subs pubs store" and "invar (m_svsPubSub f)"
    and "used (m_svsPubSub f) + demand n ev < 2 ^ 32"
    and "\<And>cb d a. within (app cb d a) n \<and> calls_only P (app cb d a)" and "allowed P ev"
    and "handleCalls S J app ev (f, a) = (r, f', a')"
  shows "calls_kept S invar used subs pubs P (demand n ev) f f'"
proof (cases ev)
  case (Thread_call c)
  with assms perform_kept [OF assms(1,2), of c P] show ?thesis by simp
next
  case (Face fe)
  show ?thesis
  proof (cases fe)
    case (Arrived cb d now)
    show ?thesis
    proof (cases cb)
      case (Consumer_callback e)
      with Face Arrived assms(6) onConsumerCalls_kept [OF assms(1,2) _ assms(4)] assms(3) show ?thesis by simp
    next
      case (Backchannel_handler np sp)
      obtain r1 ps where "handleBackchannel S J np sp d (m_svsPubSub f) = (r1, ps)"
        by (cases "handleBackchannel S J np sp d (m_svsPubSub f)")
      with kept_mono [OF backchannel_kept [OF assms(1,2) this]] Face Arrived Backchannel_handler assms(6)
      show ?thesis by auto
    qed
  next
    case Shutdown
    with Face assms(6) have "f' = shutdown f" by simp
    then show ?thesis by (auto intro: kept_mono [OF shutdown_kept] assms(2))
  next
    case (Face_error x)
    with Face assms(2,6) show ?thesis by (simp add: kept_refl)
  qed
qed

lemma processCalls_kept:
  assumes "svs S invar used subs pubs store" and "invar (m_svsPubSub f)"
    and "used (m_svsPubSub f) + demands n es < 2 ^ 32"
    and "\<And>cb d a. within (app cb d a) n \<and> calls_only P (app cb d a)" and "list_all (allowed P) es"
    and "processCalls S J app es (f, a) = (r, f', a')"
  shows "calls_kept S invar used subs pubs P (demands n es) f f'"
  using assms(2,3,5,6)
proof (induction es arbitrary: f a)
  case Nil
  then show ?case by (simp add: kept_refl)
next
  case (Cons ev es)
  obtain r1 f1 a1 where ev: "handleCalls S J app ev (f, a) = (r1, f1, a1)" by (rule prod_cases3)
  have step: "calls_kept S invar used subs pubs P (demand n ev) f f1"
    by (rule handleCalls_kept [OF assms(1) Cons.prems(1) _ assms(4) _ ev]) (use Cons.prems in simp_all)
  show ?case
  proof (cases r1)
    case (Inl x)
    with ev Cons.prems(4) step show ?thesis by (auto intro: kept_mono)
  next
    case (Inr u)
    with ev Cons.prems(4) have "processCalls S J app es (f1, a1) = (r, f', a')" by simp
    from Cons.IH [OF kept_invar [OF step] _ _ this] Cons.prems kept_used [OF step] kept_trans [OF step]
    show ?thesis by simp
  qed
qed

lemma loopCalls_kept:
  assumes "svs S invar used subs pubs store" and "invar (m_svsPubSub f)"
    and "used (m_svsPubSub f) + demands n (concat batches) < 2 ^ 32"
    and "\<And>cb d a. within (app cb d a) n \<and> calls_only P (app cb d a)"
    and "list_all (allowed P) (concat batches)"
    and "loopCalls S J app batches (f, a) = (r, f', a')"
  shows "calls_kept S invar used subs pubs P (demands n (concat batches)) f f' \<and> (r = Stopped \<longrightarrow> \<not> m_running f')"
  using assms(2,3,5,6)
proof (induction batches arbitrary: f a)
  case Nil
  then show ?case by (auto simp: kept_refl split: if_splits)
next
  case (Cons batch batches)
  show ?case
  proof (cases "m_running f")
    case False
    with Cons.prems show ?thesis by (simp add: kept_refl)
  next
    case True
    obtain r1 f1 a1 where ev: "processCalls S J app batch (f, a) = (r1, f1, a1)" by (rule prod_cases3)
    have step: "calls_kept S invar used subs pubs P (demands n batch) f f1"
      by (rule processCalls_kept [OF assms(1) Cons.prems(1) _ assms(4) _ ev]) (use Cons.prems in simp_all)
    have "loopCalls S J app batches (f1, a1) = (r, f', a') \<or> (\<exists>x. r = Crashed x \<and> f' = f1)"
      using Cons.prems(4) ev True by (auto split: sum.splits if_splits)
    then show ?thesis
    proof
      assume "loopCalls S J app batches (f1, a1) = (r, f', a')"
      from Cons.IH [OF kept_invar [OF step] _ _ this] Cons.prems kept_used [OF step] kept_trans [OF step]
      show ?thesis by simp
    next
      assume "\<exists>x. r = Crashed x \<and> f' = f1"
      with step show ?thesis by (auto intro: kept_mono)
    qed
  qed
qed

section \<open>Properties\<close>

text \<open>
  A callback that does more than push: it catches the exception of a push to an edge that is not
  there, moves its own consumer to another partition, and pushes on.
\<close>

definition example_caller :: "(nat, nat) calling_application" where
  "example_caller cb data a =
     Call (Push_data ''t2l'' data)
       (\<lambda>_. Call (Repartition_consumer ''t2l'' [4])
         (\<lambda>_. Call (Push_data ''l2w'' data)
           (\<lambda>reply. case reply of Raised x \<Rightarrow> Return (Inl x) a | _ \<Rightarrow> Return (Inr ()) (a + 1))))"

definition example_events :: "component list node_event list list" where
  "example_events =
     [[Face (Arrived (Consumer_callback ''t2l'') (example_data [5]) 50),
       Thread_call (Repartition_producer ''l2w'' 2), Face Shutdown]]"

lemma example_caller_kind: "within (example_caller cb d a) 1 \<and> calls_only no_statistics (example_caller cb d a)"
  by (simp add: example_caller_def split: reply.split)

lemma example_prosumer_back: "back_ok ref_ndn ref_subs example_prosumer"
proof -
  have "m_syncPrefix example_iceflow = ''/app''" "m_nodePrefix example_iceflow = ''/node-/app/u''"
    using newIceFlow_state [OF example_iceflow_new] by (auto simp: example_dag_def)
  then have "m_syncPrefix example_subscribed = ''/app''" "m_nodePrefix example_subscribed = ''/node-/app/u''"
    using repartitionConsumer_frame [of example_iceflow ref_ndn "[1, 3]" "''t2l''"]
    by (simp_all add: example_subscribed_def node_frame_def)
  then have "m_iceflowConsumers example_prosumer = [(''t2l'', (storedConsumer ''/app'' ''t2l'' None 0)
      \<lparr>m_subscriptionHandles := [2, 3], m_consumerCallback := Some (Prosumer 0)\<rparr>)]"
    "m_syncPrefix example_prosumer = ''/app''" "m_nodePrefix example_prosumer = ''/node-/app/u''"
    by (simp_all add: example_prosumer_def registerProsumerCallback_def registerConsumerCallback_def
        example_subscribed_sels setConsumerCallback_def)
  then show ?thesis
    by (auto simp: back_ok_def example_prosumer_sels example_subscribed_sels ref_subs_def
        intro!: ranI [of _ 1])
qed

text \<open>
  C19: what a running node keeps while its operations are called. Callbacks may push, repartition,
  query statistics and shut down, in any order and reacting to what they get (a callback that registers
  another one or calls \<open>run\<close> is not covered); other threads may make the same calls between two
  handlers; the 32-bit counter of handles has room for all of it. Whatever data arrives and however
  the run ends, the node has the same edges and numbers of partitions, all its earlier publications,
  and its back channels subscribed. If nobody asks for consumer statistics, every handle of every consumer is still a live
  subscription of that consumer; if moreover nobody repartitions a consumer, the subscriptions are
  the very same. If the loop has stopped, \<open>run\<close> may be called again. On a node that is already
  running \<open>run\<close> throws and starts nothing.
\<close>

theorem running_node_keeps:
  assumes "svs S invar used subs pubs store" and "invar (m_svsPubSub f)"
    and "used (m_svsPubSub f) + demands n (concat batches) < 2 ^ 32"
    and "\<And>cb d a. within (app cb d a) n \<and> calls_only P (app cb d a)"
    and "list_all (allowed P) (concat batches)"
    and "back_ok S subs f" and "node_live S subs f"
  shows "case runCalls S J app batches (f, a) of
      Inl x \<Rightarrow> m_running f \<and> is_runtime_error x
    | Inr (r, f', a') \<Rightarrow> \<not> m_running f \<and> node_frame f f' \<and> producer_edges f' = producer_edges f \<and>
        (\<exists>new. pubs (m_svsPubSub f') = pubs (m_svsPubSub f) @ new) \<and> back_ok S subs f' \<and>
        ((\<forall>c. P c \<longrightarrow> no_statistics c) \<longrightarrow> node_live S subs f') \<and>
        ((\<forall>c. P c \<longrightarrow> no_subscriptions c) \<longrightarrow> subs (m_svsPubSub f') = subs (m_svsPubSub f)) \<and>
        (r = Stopped \<longrightarrow> \<not> m_running f')"
proof (cases "m_running f")
  case True
  then show ?thesis by (simp add: runCalls_def)
next
  case False
  let ?f = "f\<lparr>m_running := True\<rparr>"
  obtain r f' a' where loop: "loopCalls S J app batches (?f, a) = (r, f', a')" by (rule prod_cases3)
  have "invar (m_svsPubSub ?f)" and "used (m_svsPubSub ?f) + demands n (concat batches) < 2 ^ 32"
    using assms(2,3) by simp_all
  from loopCalls_kept [OF assms(1) this assms(4,5) loop]
  have kept: "calls_kept S invar used subs pubs P (demands n (concat batches)) ?f f'"
    and stopped: "r = Stopped \<longrightarrow> \<not> m_running f'" by simp_all
  have "back_ok S subs ?f" "node_live S subs ?f" "node_frame f ?f"
    using assms(6,7) by (simp_all add: back_ok_def node_live_def)
  with kept frame_trans [of f ?f f'] stopped False loop frame_producer_edges [of f f'] show ?thesis
    by (auto simp: runCalls_def calls_kept_def le_fun_def)
qed

theorem running_node_keeps_witness:
  "case runCalls ref_ndn ref_json example_caller example_events (example_prosumer, 0) of
     Inl x \<Rightarrow> False
   | Inr (r, f', a') \<Rightarrow> node_live ref_ndn ref_subs f' \<and> back_ok ref_ndn ref_subs f' \<and>
       consumer_edges f' = consumer_edges example_prosumer"
proof -
  have "rs_count (m_svsPubSub example_prosumer) + demands 1 (concat example_events) < 2 ^ 32"
    by (simp add: example_prosumer_sels example_subscribed_sels example_events_def)
  moreover have "list_all (allowed no_statistics) (concat example_events)" by (simp add: example_events_def)
  ultimately show ?thesis
    using running_node_keeps [where app = example_caller and P = no_statistics and n = 1 and
        batches = example_events and J = ref_json and a = 0, OF ref_svs.svs_axioms example_prosumer_inv _
        example_caller_kind _ example_prosumer_back example_prosumer_live]
    by (auto simp: example_prosumer_sels node_frame_def split: sum.splits)
qed

end
