(* ===== verification/Loop_Steps.thy ===== *)
theory Loop_Steps
  imports Network
begin

text \<open>
  The event loop of a process as a run of the network: what \<open>run\<close> does with batches of events that
  the network can deliver is a sequence of its steps. So everything shown of the network holds of
  the processes that call \<open>run\<close>.
\<close>

section \<open>A shutdown commutes with deliveries\<close>

text \<open>No handler reads or writes \<open>m_running\<close>: the outcome of a delivery is the same before and after.\<close>

abbreviation with_running :: "bool \<Rightarrow> ('ps, 'j, 'u) IceFlow \<Rightarrow> ('ps, 'j, 'u) IceFlow" where
  "with_running b f \<equiv> f\<lparr>m_running := b\<rparr>"

lemma pushData_commutes:
  "pushData S d e (with_running b f) = map_prod id (with_running b) (pushData S d e f)"
  by (simp add: pushData_def split_beta Let_def split: option.split)

lemma runScript_commutes:
  "runScript S pushes r a (with_running b f) = map_prod id (map_prod (with_running b) id) (runScript S pushes r a f)"
proof (induction pushes arbitrary: f)
  case (Cons push pushes)
  obtain e d a1 where push: "push = (e, d, a1)" by (rule prod_cases3)
  obtain r1 f1 where "pushData S d e f = (r1, f1)" by fastforce
  with Cons.IH show ?case by (cases r1) (simp_all add: push pushData_commutes)
qed simp

lemma callback_commutes:
  "invokeCallback S app cb d (with_running b f, a) =
     map_prod id (map_prod (with_running b) id) (invokeCallback S app cb d (f, a))"
  by (cases cb) (simp_all add: runScript_commutes split_beta)

lemma delivery_commutes:
  assumes "handleEvent S J app (Arrived cb d now) (f, a) = (r, f', a')"
  shows "handleEvent S J app (Arrived cb d now) (with_running b f, a) = (r, with_running b f', a')"
proof (cases cb)
  case (Backchannel_handler np sp)
  with assms show ?thesis by (auto simp: split_beta)
next
  case (Consumer_callback e)
  show ?thesis
  proof (cases "map_of (m_iceflowConsumers f) e")
    case None
    with assms Consumer_callback show ?thesis by (simp add: onConsumerData_def)
  next
    case c: (Some c)
    show ?thesis
    proof (cases "m_consumerCallback c")
      case None
      with assms Consumer_callback c show ?thesis by (auto simp: onConsumerData_def subscribeCallBack_def)
    next
      case (Some cb')
      obtain r1 f1 a1 where run: "invokeCallback S app cb' (sub_data d) (f, a) = (r1, f1, a1)" by (rule prod_cases3)
      then have "invokeCallback S app cb' (sub_data d) (with_running b f, a) = (r1, with_running b f1, a1)"
        by (simp add: callback_commutes)
      with assms Consumer_callback c Some run show ?thesis
        by (cases r1) (auto simp: onConsumerData_def subscribeCallBack_def Let_def)
    qed
  qed
qed

section \<open>Batches\<close>

text \<open>An event the network can bring about at the node \<open>f\<close>.\<close>

definition can_happen ::
    "('ps, 'j, 'n, 'u, 'a) deployment \<Rightarrow> ('ps, 'j, 'u, 'a) network \<Rightarrow> ('ps, 'j, 'u) IceFlow \<Rightarrow> 'n face_event \<Rightarrow> bool" where
  "can_happen D s f ev = (case ev of
       Arrived cb d now \<Rightarrow> \<exists>j g b m who. s j = Some (g, b) \<and>
         (sub_name d, sub_data d, who, sub_seqNo d) \<in> set (d_pubs D (m_svsPubSub g)) \<and>
         (m, cb) \<in> ran (d_subs D (m_svsPubSub f)) \<and> d_matches D m (sub_name d)
     | _ \<Rightarrow> True)"

lemma can_happen_evolves:
  assumes "can_happen D s f ev" and "s i = Some (f, a)" and "node_evolves invar (d_subs D) (d_pubs D) f f'"
  shows "can_happen D (s(i \<mapsto> (f', a'))) f' ev"
proof (cases ev)
  case (Arrived cb d now)
  with assms(1) obtain j g b m who where g: "s j = Some (g, b)"
    "(sub_name d, sub_data d, who, sub_seqNo d) \<in> set (d_pubs D (m_svsPubSub g))"
    "(m, cb) \<in> ran (d_subs D (m_svsPubSub f))" "d_matches D m (sub_name d)"
    by (auto simp: can_happen_def)
  have f': "d_subs D (m_svsPubSub f') = d_subs D (m_svsPubSub f)"
    "set (d_pubs D (m_svsPubSub f)) \<subseteq> set (d_pubs D (m_svsPubSub f'))"
    using assms(3) by (auto simp: node_evolves_def)
  show ?thesis
  proof (cases "j = i")
    case True
    with g(1,2) assms(2) f'(2) have "(sub_name d, sub_data d, who, sub_seqNo d) \<in> set (d_pubs D (m_svsPubSub f'))"
      by auto
    with g(3,4) f'(1) Arrived show ?thesis by (fastforce simp: can_happen_def)
  next
    case False
    with g f'(1) Arrived show ?thesis by (fastforce simp: can_happen_def)
  qed
qed (simp_all add: can_happen_def)

context deployed
begin

lemma event_step:
  assumes "s i = Some (h, a)" and "m_running h" and "can_happen D s h (Arrived cb d now)"
    and "handleEvent (d_svs D) (d_json D) (d_app D i) (Arrived cb d now) (h, a) = (r, h', a')"
  shows "net_step D s (s(i \<mapsto> (h', a')))"
proof -
  obtain j g b m who where g: "s j = Some (g, b)"
    "(sub_name d, sub_data d, who, sub_seqNo d) \<in> set (d_pubs D (m_svsPubSub g))"
    "(m, cb) \<in> ran (d_subs D (m_svsPubSub h))" "d_matches D m (sub_name d)"
    using assms(3) by (auto simp: can_happen_def)
  have "\<lparr>sub_name = sub_name d, sub_data = sub_data d, sub_seqNo = sub_seqNo d\<rparr> = d" by (cases d) simp
  then have "handleEvent (d_svs D) (d_json D) (d_app D i)
      (Arrived cb \<lparr>sub_name = sub_name d, sub_data = sub_data d, sub_seqNo = sub_seqNo d\<rparr> now) (h, a) = (r, h', a')"
    using assms(4) by (simp only:)
  from net_step.delivered [OF assms(1) g this assms(2)] show ?thesis .
qed

text \<open>
  One call of \<open>processEvents\<close>. The node \<open>h\<close> is the one whose shutdown is still to come: it has
  handled the same deliveries.
\<close>

lemma batch_steps:
  assumes "net_reach D s" and "s i = Some (h, a)" and "m_running h"
    and "\<forall>ev \<in> set evs. can_happen D s h ev"
    and "processEvents (d_svs D) (d_json D) (d_app D i) evs (with_running b h, a) = (r, f', a')"
  shows "\<exists>h'. (net_step D)\<^sup>*\<^sup>* s (s(i \<mapsto> (h', a'))) \<and> m_running h' \<and> f' = with_running (m_running f') h' \<and>
    node_evolves invar (d_subs D) (d_pubs D) h h'"
  using assms
proof (induction evs arbitrary: s h a b)
  case Nil
  have "s(i \<mapsto> (h, a)) = s" using Nil.prems(2) by auto
  with Nil show ?case
    using network_process(2) [OF reach_ok [OF Nil.prems(1)] Nil.prems(2)]
    by (intro exI [of _ h]) (auto intro: evolves_refl)
next
  case (Cons ev evs)
  note inv = network_process(2) [OF reach_ok [OF Cons.prems(1)] Cons.prems(2)]
  show ?case
  proof (cases ev)
    case Shutdown
    with Cons.prems(5) have "processEvents (d_svs D) (d_json D) (d_app D i) evs (with_running False h, a) = (r, f', a')"
      by (simp add: shutdown_def)
    from Cons.IH [OF Cons.prems(1-3) _ this] Cons.prems(4) show ?thesis by simp
  next
    case (Face_error e)
    have "s(i \<mapsto> (h, a)) = s" using Cons.prems(2) by auto
    with Face_error Cons.prems(3,5) inv show ?thesis
      by (intro exI [of _ h]) (auto intro: evolves_refl)
  next
    case (Arrived cb d now)
    obtain r1 h1 a1 where h1: "handleEvent (d_svs D) (d_json D) (d_app D i) (Arrived cb d now) (h, a) = (r1, h1, a1)"
      by (rule prod_cases3)
    have "can_happen D s h (Arrived cb d now)" using Cons.prems(4) Arrived by simp
    from event_step [where s = s and i = i, OF Cons.prems(2,3) this h1]
    have step: "net_step D s (s(i \<mapsto> (h1, a1)))" .
    have ev1: "node_evolves invar (d_subs D) (d_pubs D) h h1" and run1: "m_running h1"
      using handleEvent_evolves [OF svs_axioms inv h1] Cons.prems(3) by auto
    have rest: "(case r1 of Inl x \<Rightarrow> (Inl x, with_running b h1, a1)
        | Inr u \<Rightarrow> processEvents (d_svs D) (d_json D) (d_app D i) evs (with_running b h1, a1)) = (r, f', a')"
      using Cons.prems(5) delivery_commutes [OF h1, of b] by (simp add: Arrived)
    show ?thesis
    proof (cases r1)
      case (Inl x)
      with rest have f': "f' = with_running b h1" "a1 = a'" by simp_all
      then have "f' = with_running (m_running f') h1" by simp
      with r_into_rtranclp [of "net_step D", OF step] run1 ev1 f'(2) show ?thesis by blast
    next
      case (Inr u)
      let ?s = "s(i \<mapsto> (h1, a1))"
      have "net_reach D ?s" using Cons.prems(1) step by (rule net_more)
      moreover have "?s i = Some (h1, a1)" by simp
      moreover have "\<forall>e \<in> set evs. can_happen D ?s h1 e"
        using Cons.prems(4) can_happen_evolves [where s = s and i = i, OF _ Cons.prems(2) ev1] by simp
      moreover have "processEvents (d_svs D) (d_json D) (d_app D i) evs (with_running b h1, a1) = (r, f', a')"
        using rest Inr by simp
      ultimately obtain h' where h': "(net_step D)\<^sup>*\<^sup>* ?s (?s(i \<mapsto> (h', a')))" "m_running h'"
        "f' = with_running (m_running f') h'" "node_evolves invar (d_subs D) (d_pubs D) h1 h'"
        using Cons.IH [OF _ _ run1] by blast
      have "(net_step D)\<^sup>*\<^sup>* s (s(i \<mapsto> (h', a')))"
        using converse_rtranclp_into_rtranclp [where r = "net_step D", OF step h'(1)] by simp
      with h' evolves_trans [OF ev1] show ?thesis by blast
    qed
  qed
qed

lemma processEvents_steps:
  assumes "net_reach D s" and "s i = Some (f, a)" and "m_running f"
    and "\<forall>ev \<in> set evs. can_happen D s f ev"
    and "processEvents (d_svs D) (d_json D) (d_app D i) evs (f, a) = (r, f', a')"
  shows "(net_step D)\<^sup>*\<^sup>* s (s(i \<mapsto> (f', a'))) \<and> node_evolves invar (d_subs D) (d_pubs D) f f'"
proof -
  have "with_running True f = f" using assms(3) by simp
  with assms(5) batch_steps [OF assms(1-4), of True r f' a'] obtain h where
    h: "(net_step D)\<^sup>*\<^sup>* s (s(i \<mapsto> (h, a')))" "f' = with_running (m_running f') h" "m_running h"
    and ev: "node_evolves invar (d_subs D) (d_pubs D) f h" by auto
  have "node_evolves invar (d_subs D) (d_pubs D) f (with_running b h)" for b
    using ev by (simp add: node_evolves_def)
  then have ev': "node_evolves invar (d_subs D) (d_pubs D) f f'" by (subst h(2))
  show ?thesis
  proof (cases "m_running f'")
    case True
    with h(2,3) have "f' = h" by simp
    with h(1) ev show ?thesis by simp
  next
    case False
    let ?s = "s(i \<mapsto> (h, a'))"
    have "f' = shutdown h" using h(2) False by (simp add: shutdown_def)
    moreover have "net_step D ?s (?s(i \<mapsto> (shutdown h, a')))" by (rule net_step.stopped) simp
    ultimately have "net_step D ?s (s(i \<mapsto> (f', a')))" by simp
    from rtranclp.rtrancl_into_rtrancl [where r = "net_step D", OF h(1) this] ev' show ?thesis by simp
  qed
qed

lemma eventLoop_steps:
  assumes "net_reach D s" and "s i = Some (f, a)" and "\<forall>evs \<in> set batches. \<forall>ev \<in> set evs. can_happen D s f ev"
    and "eventLoop (d_svs D) (d_json D) (d_app D i) batches (f, a) = (r, f', a')"
  shows "(net_step D)\<^sup>*\<^sup>* s (s(i \<mapsto> (f', a')))"
  using assms
proof (induction batches arbitrary: s f a)
  case Nil
  then have "s(i \<mapsto> (f', a')) = s" by auto
  then show ?case by simp
next
  case (Cons evs batches)
  show ?case
  proof (cases "m_running f")
    case False
    with Cons.prems have "s(i \<mapsto> (f', a')) = s" by auto
    then show ?thesis by simp
  next
    case True
    obtain r1 f1 a1 where batch: "processEvents (d_svs D) (d_json D) (d_app D i) evs (f, a) = (r1, f1, a1)"
      by (rule prod_cases3)
    have "\<forall>ev \<in> set evs. can_happen D s f ev" using Cons.prems(3) by simp
    from processEvents_steps [OF Cons.prems(1,2) True this batch]
    have steps: "(net_step D)\<^sup>*\<^sup>* s (s(i \<mapsto> (f1, a1)))" and ev: "node_evolves invar (d_subs D) (d_pubs D) f f1"
      by blast+
    let ?s = "s(i \<mapsto> (f1, a1))"
    consider (crash) "(f', a') = (f1, a1)"
      | (on) "eventLoop (d_svs D) (d_json D) (d_app D i) batches (f1, a1) = (r, f', a')"
      using Cons.prems(4) batch True by (cases r1) (auto split: if_splits)
    then show ?thesis
    proof cases
      case crash
      from steps show ?thesis by (subst crash)
    next
      case on
      have reach: "net_reach D ?s" using Cons.prems(1) steps by (rule rtranclp_trans)
      have here: "?s i = Some (f1, a1)" by simp
      have "\<forall>evs \<in> set batches. \<forall>e \<in> set evs. can_happen D ?s f1 e"
        using Cons.prems(3) can_happen_evolves [where s = s and i = i, OF _ Cons.prems(2) ev] by simp
      from Cons.IH [OF reach here this on] have "(net_step D)\<^sup>*\<^sup>* ?s (s(i \<mapsto> (f', a')))"
        unfolding fun_upd_upd .
      from rtranclp_trans [where r = "net_step D", OF steps this] show ?thesis .
    qed
  qed
qed

lemma run_steps:
  assumes "net_reach D s" and "s i = Some (f, a)" and "\<forall>evs \<in> set batches. \<forall>ev \<in> set evs. can_happen D s f ev"
    and "run (d_svs D) (d_json D) (d_app D i) batches (f, a) = Inr (r, f', a')"
  shows "(net_step D)\<^sup>*\<^sup>* s (s(i \<mapsto> (f', a')))"
proof -
  let ?f = "with_running True f" and ?s = "s(i \<mapsto> (with_running True f, a))"
  have idle: "\<not> m_running f" and loop: "eventLoop (d_svs D) (d_json D) (d_app D i) batches (?f, a) = (r, f', a')"
    using assms(4) by (simp_all add: run_def split: if_splits)
  have step: "net_step D s ?s" by (rule net_step.started [where s = s and i = i, OF assms(2) idle])
  have "node_evolves invar (d_subs D) (d_pubs D) f ?f"
    using network_process(2) [OF reach_ok [OF assms(1)] assms(2)] by (simp add: node_evolves_def)
  from can_happen_evolves [where s = s and i = i, OF _ assms(2) this] assms(3)
  have "\<forall>evs \<in> set batches. \<forall>ev \<in> set evs. can_happen D ?s ?f ev" by blast
  from eventLoop_steps [OF net_more [OF assms(1) step] _ this loop]
  have "(net_step D)\<^sup>*\<^sup>* ?s (s(i \<mapsto> (f', a')))" by simp
  from converse_rtranclp_into_rtranclp [where r = "net_step D", OF step this] show ?thesis .
qed

end
section \<open>Properties\<close>

text \<open>
  C14: the event loop is a run of the network. Take a reachable state of a deployment, a process in
  it, and batches of events each of which the network can bring about there: data some process has
  published, for a matching subscription of this process; a shutdown; an exception of the face. If
  \<open>run\<close> accepts the call, the state it leaves, however it ends, is reached by steps of the network.
  So what holds of every run of the network holds of the processes that call \<open>run\<close>.
\<close>

theorem run_is_network_run:
  assumes "deployed D invar store of_str of_obj of_arr" and "net_reach D s" and "s i = Some (f, a)"
    and "\<forall>evs \<in> set batches. \<forall>ev \<in> set evs. can_happen D s f ev"
    and "run (d_svs D) (d_json D) (d_app D i) batches (f, a) = Inr (r, f', a')"
  shows "(net_step D)\<^sup>*\<^sup>* s (s(i \<mapsto> (f', a')))"
  by (rule deployed.run_steps [OF assms])

theorem run_is_network_run_witness:
  "\<exists>s g g' d b. net_reach example_deployment s \<and> s 1 = Some (g, 0) \<and> sub_data d = [42] \<and>
     run ref_ndn ref_json example_app [[Arrived (Consumer_callback ''t2l'') d 0, Shutdown], [Face_error b]] (g, 0) =
       Inr (Stopped, g', 0) \<and>
     length (rs_pubs (m_svsPubSub g')) = Suc (length (rs_pubs (m_svsPubSub g))) \<and>
     (net_step example_deployment)\<^sup>*\<^sup>* s (s(1 \<mapsto> (g', 0)))"
proof (rule example_unstarted)
  fix s f g c m who seq
  assume at: "net_reach example_deployment s" "s 0 = Some (f, 0)" "s 1 = Some (g, 0)"
    "(m, [42], Some who, seq) \<in> set (rs_pubs (m_svsPubSub f))"
    "(m, Consumer_callback ''t2l'') \<in> ran (ref_subs (m_svsPubSub g))"
    "map_of (m_iceflowConsumers g) ''t2l'' = Some c" "m_consumerCallback c = Some (Plain 0)"
    "\<not> m_running g"
  let ?d = "\<lparr>sub_name = m, sub_data = [42], sub_seqNo = seq\<rparr>" and ?h = "g\<lparr>m_running := True\<rparr>"
  let ?evs = "[Arrived (Consumer_callback ''t2l'') ?d 0, Shutdown]" and ?err = "Face_error (Runtime_error [])"
  have call: "invokeCallback ref_ndn example_app (Plain 0) (sub_data ?d) (?h, 0) = (Inr (), ?h, 0)"
    by (simp add: example_app_def)
  have c: "map_of (m_iceflowConsumers ?h) ''t2l'' = Some c" using at(6) by simp
  have "ref_inv (m_svsPubSub g)"
    using example_net.network_process(2) [OF example_net.reach_ok [OF at(1)] at(3)] .
  then have "ref_inv (m_svsPubSub ?h)" by simp
  from ack_published [OF ref_svs.svs_axioms this c, where n = "backchannelName ref_ndn (m_subTopic c)"
      and ack = "ackPayload ref_json seq" and now = 0]
  obtain g1 x where g1: "handleEvent ref_ndn ref_json example_app (hd ?evs) (?h, 0) = (Inr (), g1, 0)"
    "rs_pubs (m_svsPubSub g1) = rs_pubs (m_svsPubSub ?h) @ [x]"
    using onConsumerData_returned [OF c at(7) call, of ref_json 0] by auto
  have run: "run ref_ndn ref_json example_app [?evs, [?err]] (g, 0) = Inr (Stopped, shutdown g1, 0)"
    using g1(1) at(8) by (simp add: run_def shutdown_def)
  have "can_happen example_deployment s g (hd ?evs)"
    unfolding can_happen_def using at by (auto intro!: exI [of _ 0])
  then have "\<forall>evs \<in> set [?evs, [?err]]. \<forall>ev \<in> set evs. can_happen example_deployment s g ev"
    by (simp add: can_happen_def)
  from run_is_network_run [where i = 1, OF example_net.deployed_axioms at(1,3) this] run
  have "(net_step example_deployment)\<^sup>*\<^sup>* s (s(1 \<mapsto> (shutdown g1, 0)))" by simp
  with run at(1,3) g1(2) show ?thesis
    by (intro exI [of _ s] exI [of _ g] exI [of _ "shutdown g1"] exI [of _ ?d] exI [of _ "Runtime_error []"])
      (simp add: shutdown_def)
qed

end
