(* ===== verification/Program_Runs.thy ===== *)
theory Program_Runs
  imports Loop_Steps Processes
begin

text \<open>
  The programs of \<open>examples/wordCount\<close> as processes of a network: their start-up, each batch of the
  event loop and each turn of the threads of \<open>text2lines\<close> are steps of \<open>net_step\<close>. Their application
  code works on the state the processes of the network share (\<open>lift_app\<close>).
\<close>

section \<open>Application code on a larger state\<close>

text \<open>The same application code, on states that contain the ones it was written for.\<close>

definition lift_app :: "('a \<Rightarrow> 'b) \<Rightarrow> ('b \<Rightarrow> 'a) \<Rightarrow> ('u, 'a) application \<Rightarrow> ('u, 'b) application" where
  "lift_app pack unpack app =
     \<lparr>run_plain = (\<lambda>u d b. map_prod id pack (run_plain app u d (unpack b))),
      run_prosumer = (\<lambda>u d b. (case run_prosumer app u d (unpack b) of
        (pushes, r, a) \<Rightarrow> (map (\<lambda>(e, d, a). (e, d, pack a)) pushes, r, pack a)))\<rparr>"

abbreviation lift_outcome :: "('a \<Rightarrow> 'b) \<Rightarrow> 'r \<times> 'f \<times> 'a \<Rightarrow> 'r \<times> 'f \<times> 'b" where
  "lift_outcome pack \<equiv> map_prod id (map_prod id pack)"

lemma runScript_lift:
  "runScript S (map (\<lambda>(e, d, a). (e, d, pack a)) pushes) r (pack a) f = lift_outcome pack (runScript S pushes r a f)"
proof (induction pushes arbitrary: f)
  case (Cons push pushes)
  obtain e d a1 where push: "push = (e, d, a1)" by (rule prod_cases3)
  obtain r1 f1 where "pushData S d e f = (r1, f1)" by fastforce
  with Cons.IH show ?case by (cases r1) (simp_all add: push)
qed simp

lemma callback_lift:
  assumes "\<And>a. unpack (pack a) = a"
  shows "invokeCallback S (lift_app pack unpack app) cb d (f, pack a) = lift_outcome pack (invokeCallback S app cb d (f, a))"
  by (cases cb) (simp_all add: lift_app_def assms runScript_lift split_beta)

lemma handleEvent_lift:
  assumes "\<And>a. unpack (pack a) = a"
  shows "handleEvent S J (lift_app pack unpack app) ev (f, pack a) = lift_outcome pack (handleEvent S J app ev (f, a))"
proof (cases ev)
  case (Arrived cb d now)
  show ?thesis
  proof (cases cb)
    case (Consumer_callback e)
    show ?thesis
    proof (cases "map_of (m_iceflowConsumers f) e")
      case c: (Some c)
      show ?thesis
      proof (cases "m_consumerCallback c")
        case (Some cb')
        obtain r1 f1 a1 where run: "invokeCallback S app cb' (sub_data d) (f, a) = (r1, f1, a1)" by (rule prod_cases3)
        then have "invokeCallback S (lift_app pack unpack app) cb' (sub_data d) (f, pack a) = (r1, f1, pack a1)"
          by (simp add: callback_lift [where pack = pack and unpack = unpack, OF assms])
        with run c Some show ?thesis
          by (cases r1) (simp_all add: Arrived Consumer_callback onConsumerData_def subscribeCallBack_def Let_def)
      qed (simp add: Arrived Consumer_callback c onConsumerData_def subscribeCallBack_def)
    qed (simp add: Arrived Consumer_callback onConsumerData_def)
  qed (simp add: Arrived split_beta)
qed simp_all

lemma processEvents_lift:
  assumes "\<And>a. unpack (pack a) = a"
  shows "processEvents S J (lift_app pack unpack app) evs (f, pack a) = lift_outcome pack (processEvents S J app evs (f, a))"
proof (induction evs arbitrary: f a)
  case (Cons ev evs)
  obtain r f1 a1 where "handleEvent S J app ev (f, a) = (r, f1, a1)" by (rule prod_cases3)
  with Cons.IH show ?case by (cases r) (simp_all add: handleEvent_lift [where pack = pack and unpack = unpack, OF assms] del: handleEvent.simps)
qed simp

section \<open>What the loop and the threads keep\<close>

lemma processEvents_frame: "node_frame f (fst (snd (processEvents S J app evs (f, a))))"
proof (induction evs arbitrary: f a)
  case (Cons ev evs)
  obtain r f1 a1 where ev: "handleEvent S J app ev (f, a) = (r, f1, a1)" by (rule prod_cases3)
  then have "node_frame f f1" using handleEvent_frame [of f S J app ev a] by simp
  with frame_trans [OF this Cons.IH] ev show ?case by (cases r) simp_all
qed simp

lemma eventLoop_frame: "node_frame f (fst (snd (eventLoop S J app batches (f, a))))"
proof (induction batches arbitrary: f a)
  case (Cons evs batches)
  obtain r f1 a1 where ev: "processEvents S J app evs (f, a) = (r, f1, a1)" by (rule prod_cases3)
  then have "node_frame f f1" using processEvents_frame [of f S J app evs a] by simp
  with frame_trans [OF this Cons.IH] ev show ?case by (cases r) simp_all
qed simp

lemma frame_running: "node_frame f (f\<lparr>m_running := b\<rparr>)"
  by (simp add: node_frame_def partition_counts_def)

lemma runNode_frame:
  assumes "runNode S J app batches f a = Executing (g, b)"
  shows "node_frame f g"
proof -
  have "eventLoop S J app batches (f\<lparr>m_running := True\<rparr>, a) = (Running, g, b)"
    using assms by (auto simp: runNode_def Event_Loop.run_def split: if_splits prod.splits loop_outcome.splits)
  with eventLoop_frame [of "f\<lparr>m_running := True\<rparr>" S J app batches a]
  have "node_frame (f\<lparr>m_running := True\<rparr>) g" by simp
  with frame_running show ?thesis by (rule frame_trans)
qed

lemma threadTurn_frame:
  assumes "threadTurn S J turn t = Some u"
  shows "node_frame (node t) (node u)"
proof (cases turn)
  case (Loop_turn evs)
  obtain f where f: "f = (if loop_begun t then node t else (node t)\<lparr>m_running := True\<rparr>)" by blast
  obtain r g b where run: "processEvents S J no_callbacks evs (f, app_state t) = (r, g, b)" by (rule prod_cases3)
  have "node u = f \<or> node u = g"
    using assms run unfolding Loop_turn threadTurn.simps Let_def f [symmetric]
    by (cases r) (auto split: if_splits)
  moreover have "node_frame (node t) f" unfolding f by (simp add: frame_running)
  moreover have "node_frame f g" using processEvents_frame [of f S J no_callbacks evs "app_state t"] run by simp
  ultimately show ?thesis using frame_trans by metis
next
  case Push_turn
  show ?thesis
  proof (cases "pending t")
    case (Cons push rest)
    obtain e d b where push: "push = (e, d, b)" by (rule prod_cases3)
    have "node u = snd (pushData S d e (node t))"
      using assms Push_turn Cons push by (auto split: prod.splits sum.splits)
    then show ?thesis by (simp only: pushData_node_frame)
  qed (use assms Push_turn in simp)
qed

lemma threadTurns_frame: "threadTurns S J turns t = Some u \<Longrightarrow> node_frame (node t) (node u)"
proof (induction turns arbitrary: t)
  case (Cons turn turns)
  then obtain t1 where t1: "threadTurn S J turn t = Some t1" "threadTurns S J turns t1 = Some u"
    by (auto simp: bind_eq_Some_conv)
  from frame_trans [OF threadTurn_frame [OF t1(1)] Cons.IH [OF t1(2)]] show ?case .
qed simp

section \<open>Programs as runs of a loop\<close>

text \<open>One more batch: the loop goes on from where it is.\<close>

lemma eventLoop_append:
  "eventLoop S J app (bs @ cs) fa =
     (case eventLoop S J app bs fa of (Running, fb) \<Rightarrow> eventLoop S J app cs fb | x \<Rightarrow> x)"
proof (induction bs arbitrary: fa)
  case Nil
  then show ?case by (cases cs) simp_all
next
  case (Cons b bs)
  then show ?case by (simp split: prod.split sum.split)
qed

lemma eventLoop_running: "eventLoop S J app bs fa = (Running, fb) \<Longrightarrow> m_running (fst fb)"
proof (induction bs arbitrary: fa)
  case (Cons b bs)
  then show ?case by (auto split: prod.splits sum.splits if_splits)
qed (auto split: if_splits)

lemma runNode_more:
  assumes "runNode S J app bs f a = Executing (g, b)" and "runNode S J app (bs @ [evs]) f a = Executing (h, c)"
  shows "m_running g \<and> (\<exists>r. processEvents S J app evs (g, b) = (r, h, c))"
proof -
  let ?w = "(f\<lparr>m_running := True\<rparr>, a)"
  have bs: "eventLoop S J app bs ?w = (Running, g, b)"
    using assms(1) by (auto simp: runNode_def Event_Loop.run_def split: if_splits prod.splits loop_outcome.splits)
  have "eventLoop S J app (bs @ [evs]) ?w = (Running, h, c)"
    using assms(2) by (auto simp: runNode_def Event_Loop.run_def split: if_splits prod.splits loop_outcome.splits)
  with bs have last: "eventLoop S J app [evs] (g, b) = (Running, h, c)" by (simp add: eventLoop_append)
  have "m_running g" using eventLoop_running [OF bs] by simp
  with last show ?thesis by (auto split: prod.splits sum.splits if_splits)
qed

lemma runNode_none: "\<not> m_running f \<Longrightarrow> runNode S J app [] f a = Executing (f\<lparr>m_running := True\<rparr>, a)"
  by (simp add: runNode_def Event_Loop.run_def)

text \<open>How the consumer of a program comes to its callback and its partitions.\<close>

definition subscribes ::
    "('ps, 'n) ndn_ops \<Rightarrow> ('ps \<Rightarrow> nat) \<Rightarrow> 'u ConsumerCallback \<Rightarrow> string \<Rightarrow> ('ps, 'j, 'u) IceFlow
       \<Rightarrow> ('ps, 'j, 'u) IceFlow \<Rightarrow> bool" where
  "subscribes S used cb e f f' \<longleftrightarrow> (\<exists>f1 r ps r'. registerConsumerCallback cb e f = (r, f1) \<and>
     used (m_svsPubSub f1) + length ps < 2 ^ 32 \<and> repartitionConsumer S ps e f1 = (r', f'))"

lemma register_pubsub: "m_svsPubSub (snd (registerConsumerCallback cb e f)) = m_svsPubSub f"
  by (simp add: registerConsumerCallback_def split: option.split)

lemma lines2words_subscribes:
  assumes "lines2words_start S J nodeName k m f fs = Some (Inr (f', s))" and "m_upstreamEdges f = up # ups"
    and "used (m_svsPubSub f) + unat (maxPartitions up) + 2 < 2 ^ 32"
  shows "subscribes S used (Prosumer ()) (edge_id up) f f'"
proof -
  have "getUpstreamEdge 0 f = Inr (Some up)" by (simp add: getUpstreamEdge_def assms(2) edgeAt_first)
  then obtain ps where ps: "createConsumerPartitions (maxPartitions up) k 2 = Some ps"
    and f': "repartitionConsumer S ps (edge_id up) (snd (registerConsumerCallback (Prosumer ()) (edge_id up) f)) = (Inr (), f')"
    using assms(1)
    by (auto simp: lines2words_start_def bindE_Inr_iff bind_eq_Some_conv Let_def split_beta registerProsumerCallback_def
        valueE_def split: sum.splits) (simp add: prod_eq_iff)
  have "(0 :: u32) < 2" and "unat (maxPartitions up) + unat (2 :: u32) < 2 ^ 32" using assms(3) by simp_all
  from createConsumerPartitions_result [OF this, of k] ps have "sorted_wrt (<) ps" "set ps \<subseteq> {..maxPartitions up}" by auto
  then have "length ps \<le> unat (maxPartitions up) + 1" by (rule strict_words_length)
  with assms(3) have "used (m_svsPubSub f) + length ps < 2 ^ 32" by simp
  with f' show ?thesis
    unfolding subscribes_def
    by (intro exI [of _ "snd (registerConsumerCallback (Prosumer ()) (edge_id up) f)"]
        exI [of _ "fst (registerConsumerCallback (Prosumer ()) (edge_id up) f)"] exI [of _ ps] exI [of _ "Inr ()"])
      (simp add: register_pubsub)
qed

lemma wordcount_subscribes:
  assumes "wordcount_start S J nodeName f fs = Inr (f', s)" and "m_upstreamEdges f = up # ups"
    and "used (m_svsPubSub f) + 1 < 2 ^ 32"
  shows "subscribes S used (Plain ()) (edge_id up) f f'"
proof -
  have "getUpstreamEdge 0 f = Inr (Some up)" by (simp add: getUpstreamEdge_def assms(2) edgeAt_first)
  then have "repartitionConsumer S [0] (edge_id up) (snd (registerConsumerCallback (Plain ()) (edge_id up) f)) = (Inr (), f')"
    using assms(1) by (auto simp: wordcount_start_def bindE_Inr_iff Let_def split_beta valueE_def prod_eq_iff)
  with assms(3) show ?thesis
    unfolding subscribes_def
    by (intro exI [of _ "snd (registerConsumerCallback (Plain ()) (edge_id up) f)"]
        exI [of _ "fst (registerConsumerCallback (Plain ()) (edge_id up) f)"] exI [of _ "[0]"] exI [of _ "Inr ()"])
      (simp add: register_pubsub)
qed

text \<open>
  A program that constructs its node from the DAG file, subscribes the consumer of one edge and then
  runs the loop with its application code: \<open>main\<close> is given by the batches of the loop.
\<close>

definition loop_process ::
    "('ps, 'n) ndn_ops \<Rightarrow> 'j json_ops \<Rightarrow> ('ps \<Rightarrow> bool) \<Rightarrow> ('ps \<Rightarrow> nat) \<Rightarrow> ('ps \<Rightarrow> u32 \<rightharpoonup> 'n \<times> callback)
       \<Rightarrow> ('ps \<Rightarrow> 'n publication list) \<Rightarrow> environment \<Rightarrow> string \<Rightarrow> string \<Rightarrow> 'j DAGParser \<Rightarrow> 'j Node
       \<Rightarrow> 'u ConsumerCallback \<Rightarrow> string \<Rightarrow> ('u, 'a) application
       \<Rightarrow> ('n face_event list list \<Rightarrow> (('ps, 'j, 'u) IceFlow \<times> 'a) process) \<Rightarrow> bool" where
  "loop_process S J invar used subs pubs E file nodeName d n cb e app main \<longleftrightarrow> (\<exists>f f' s R.
     newIceFlowFromFile S J (dag_files E) (node_uuid E) (seed_time E) (start_time E) file nodeName None = Inr f \<and>
     fresh_node S invar used subs pubs (node_uuid E) d n f \<and> subscribes S used cb e f f' \<and>
     subscribed_node S invar subs pubs cb e R f f' \<and>
     (\<forall>batches. main batches = mainProcess (runNode S J app batches f' s)))"

lemma lines2words_loop:
  fixes S :: "('ps, 'n) ndn_ops" and J :: "'j json_ops" and batches :: "'n face_event list list"
  assumes "svs S invar used subs pubs store" and "lines2words_ready J E batches argv d n up i"
    and "downstream n = down # downs"
  shows "loop_process S J invar used subs pubs E (argv ! 1) ''lines2words'' d n (Prosumer ()) (edge_id up)
    (lines2words_app (wall_clock E) (edge_id down)) (\<lambda>batches. lines2words_main S J E batches argv)"
proof -
  let ?i = "word_of_int i :: u32"
  obtain f :: "('ps, 'j, unit) IceFlow" and f' k thr where
    f: "newIceFlowFromFile S J (dag_files E) (node_uuid E) (seed_time E) (start_time E) (argv ! 1)
        ''lines2words'' None = Inr f" "fresh_node S invar used subs pubs (node_uuid E) d n f"
    and k: "stoi (argv ! 3) = Inr k"
    and start: "lines2words_start S J ''lines2words'' ?i (word_of_int k) f (start_disk E) =
      Some (Inr (f', start_state ''lines2words'' (m_nodePrefix f) thr (start_disk E)))"
    and sub: "subscribed_node S invar subs pubs (Prosumer ()) (edge_id up)
      {p. ?i \<le> p \<and> p \<le> maxPartitions up \<and> (unat p - unat ?i) mod 2 = 0} f f'"
    using lines2words_startup [OF assms(1,2)] by (elim exE conjE)
  obtain ups where ready: "length argv = 4" "stoi (argv ! 2) = Inr i" "\<not> use_grpc E"
    "map snd (findUpstreamEdges d n) = up # ups" "length (downstream n) + unat (maxPartitions up) + 2 < 2 ^ 32"
    using assms(2) unfolding lines2words_ready_def by (elim conjE exE) (rule that)
  have sels: "m_upstreamEdges f = up # ups" "used (m_svsPubSub f) = length (downstream n)"
    "getDownstreamEdge 0 f = Inr (Some down)"
    using f(2) ready(4) assms(3) by (simp_all add: fresh_node_def getDownstreamEdge_def edgeAt_first)
  have "used (m_svsPubSub f) + unat (maxPartitions up) + 2 < 2 ^ 32" using ready(5) sels(2) by simp
  note subscribes = lines2words_subscribes [where used = used, OF start sels(1) this]
  have "lines2words_main S J E batches argv =
      mainProcess (runNode S J (lines2words_app (wall_clock E) (edge_id down)) batches f'
        (start_state ''lines2words'' (m_nodePrefix f) thr (start_disk E)))" for batches
    using ready(1-3) k f(1) start sels(3)
    by (simp add: lines2words_main_def lines2words_run_def startGrpc_def valueE_def)
  with f subscribes sub show ?thesis
    unfolding loop_process_def by (intro exI conjI allI)
qed

lemma wordcount_loop:
  fixes S :: "('ps, 'n) ndn_ops" and J :: "'j json_ops" and batches :: "'n face_event list list"
  assumes "svs S invar used subs pubs store" and "wordcount_ready J E batches argv d n up"
  shows "loop_process S J invar used subs pubs E (argv ! 1) ''wordcount'' d n (Plain ()) (edge_id up)
    (wordcount_app (wall_clock E)) (\<lambda>batches. wordcount_main S J E batches argv)"
proof -
  obtain f :: "('ps, 'j, unit) IceFlow" and f' thr where
    f: "newIceFlowFromFile S J (dag_files E) (node_uuid E) (seed_time E) (start_time E) (argv ! 1)
        ''wordcount'' None = Inr f" "fresh_node S invar used subs pubs (node_uuid E) d n f"
    and start: "wordcount_start S J ''wordcount'' f (start_disk E) = Inr (f', example_state.extend
      (start_state ''wordcount'' (m_nodePrefix f) thr (start_disk E)) (wordcount_state.fields []))"
    and sub: "subscribed_node S invar subs pubs (Plain ()) (edge_id up) {0} f f'"
    using wordcount_startup [OF assms] by (elim exE conjE)
  obtain ups where ready: "length argv = 2" "\<not> use_grpc E" "map snd (findUpstreamEdges d n) = up # ups"
    "deployable J E (argv ! 1) ''wordcount'' d n"
    using assms(2) unfolding wordcount_ready_def by (elim conjE exE) (rule that)
  have sels: "m_upstreamEdges f = up # ups" and "used (m_svsPubSub f) + 1 < 2 ^ 32"
    using f(2) ready(3,4) by (simp_all add: fresh_node_def deployable_def)
  note subscribes = wordcount_subscribes [where used = used, OF start this]
  have "wordcount_main S J E batches argv = mainProcess (runNode S J (wordcount_app (wall_clock E)) batches f'
      (example_state.extend (start_state ''wordcount'' (m_nodePrefix f) thr (start_disk E)) (wordcount_state.fields [])))"
    for batches
    using ready(1,2) f(1) start by (simp add: wordcount_main_def wordcount_run_def startGrpc_def)
  with f subscribes sub show ?thesis
    unfolding loop_process_def by (intro exI conjI allI)
qed

section \<open>Programs as steps of the network\<close>

context deployed
begin

lemma more_steps:
  "(net_step D)\<^sup>*\<^sup>* s t \<Longrightarrow> net_step D t u \<Longrightarrow> (net_step D)\<^sup>*\<^sup>* s u"
  by (rule rtranclp.rtrancl_into_rtrancl [where r = "net_step D"])

lemma joined_step:
  assumes "s i = None"
    and "newIceFlowFromFile (d_svs D) (d_json D) contents uuid time now fname nodeName r = Inr f"
    and "fresh_node (d_svs D) invar (d_used D) (d_subs D) (d_pubs D) uuid d n f"
    and "parseFromFile (d_json D) contents fname = Inr d" and "findNodeByName d nodeName = Inr n"
    and "length (downstream n) < 2 ^ 32"
    and "{m_applicationName d} \<times> edge_id ` set (downstream n @ map snd (findUpstreamEdges d n)) \<subseteq> d_topics D"
  shows "net_step D s (s(i \<mapsto> (f, a)))"
proof (rule net_step.joined [where s = s and i = i, OF assms(1,5,6)])
  show "newIceFlow (d_svs D) uuid time now d nodeName r = Inr f"
    using assms(2,4) by (simp add: newIceFlowFromFile_def)
  have "m_syncPrefix f = m_applicationName d"
    and "set (producer_edges f) \<union> set (consumer_edges f) = edge_id ` set (downstream n @ map snd (findUpstreamEdges d n))"
    using assms(3) by (auto simp: fresh_node_def)
  then show "uses_topics (d_topics D) f" using assms(7) by (simp add: uses_topics_def)
qed

lemma launch_steps:
  assumes "s i = None"
    and "loop_process (d_svs D) (d_json D) invar (d_used D) (d_subs D) (d_pubs D) E fname nodeName d n cb e app main"
    and "parseFromFile (d_json D) (dag_files E) fname = Inr d" and "findNodeByName d nodeName = Inr n"
    and "length (downstream n) < 2 ^ 32"
    and "{m_applicationName d} \<times> edge_id ` set (downstream n @ map snd (findUpstreamEdges d n)) \<subseteq> d_topics D"
  shows "\<exists>g b. main [] = Live (g, b) \<and> (\<forall>c. (net_step D)\<^sup>*\<^sup>* s (s(i \<mapsto> (g, c))))"
proof -
  obtain f f' a R where
    f: "newIceFlowFromFile (d_svs D) (d_json D) (dag_files E) (node_uuid E) (seed_time E) (start_time E) fname nodeName None = Inr f"
      "fresh_node (d_svs D) invar (d_used D) (d_subs D) (d_pubs D) (node_uuid E) d n f"
    and sub: "subscribes (d_svs D) (d_used D) cb e f f'"
      "subscribed_node (d_svs D) invar (d_subs D) (d_pubs D) cb e R f f'"
    and main: "main [] = mainProcess (runNode (d_svs D) (d_json D) app [] f' a)"
    using assms(2) unfolding loop_process_def by blast
  have idle: "\<not> m_running f'" using fresh_node_def subscribed_node_def f(2) sub(2) by metis
  then have live: "main [] = Live (f'\<lparr>m_running := True\<rparr>, a)" by (simp add: main runNode_none)
  obtain f1 r ps r' where f1: "registerConsumerCallback cb e f = (r, f1)"
    "d_used D (m_svsPubSub f1) + length ps < 2 ^ 32" "repartitionConsumer (d_svs D) ps e f1 = (r', f')"
    using sub(1) unfolding subscribes_def by blast
  have "(net_step D)\<^sup>*\<^sup>* s (s(i \<mapsto> (f'\<lparr>m_running := True\<rparr>, c)))" for c
  proof -
    let ?at = "\<lambda>f. s(i \<mapsto> (f, c))"
    have 1: "(net_step D)\<^sup>*\<^sup>* s (?at f)"
      by (rule r_into_rtranclp [where r = "net_step D"], rule joined_step [where s = s and i = i, OF assms(1) f assms(3-6)])
    have at: "?at g i = Some (g, c)" "(?at g)(i \<mapsto> (h, c)) = ?at h" for g h by simp_all
    have "net_step D (?at f) (?at f1)"
      using net_step.callback_registered [where s = "?at f" and i = i and a' = c, OF at(1) f1(1)] unfolding at(2) .
    note 2 = more_steps [OF 1 this]
    have "net_step D (?at f1) (?at f')"
      using net_step.consumer_repartitioned [where s = "?at f1" and i = i and a' = c, OF at(1) f1(2,3)] unfolding at(2) .
    note 3 = more_steps [OF 2 this]
    have "net_step D (?at f') (?at (f'\<lparr>m_running := True\<rparr>))"
      using net_step.started [where s = "?at f'" and i = i and a' = c, OF at(1) idle] unfolding at(2) .
    from more_steps [OF 3 this] show ?thesis .
  qed
  with live show ?thesis by blast
qed

lemma continue_steps:
  assumes "net_reach D s" and "s i = Some (g, pack b)" and "d_app D i = lift_app pack unpack app"
    and "\<And>a. unpack (pack a) = a" and "\<forall>ev \<in> set evs. can_happen D s g ev"
    and "loop_process (d_svs D) (d_json D) invar (d_used D) (d_subs D) (d_pubs D) E fname nodeName d n cb e app main"
    and "main batches = Live (g, b)" and "main (batches @ [evs]) = Live (h, c)"
  shows "(net_step D)\<^sup>*\<^sup>* s (s(i \<mapsto> (h, pack c)))"
proof -
  obtain f' a where main: "\<And>bs. main bs = mainProcess (runNode (d_svs D) (d_json D) app bs f' a)"
    using assms(6) unfolding loop_process_def by blast
  have "runNode (d_svs D) (d_json D) app batches f' a = Executing (g, b)"
    and "runNode (d_svs D) (d_json D) app (batches @ [evs]) f' a = Executing (h, c)"
    using assms(7,8) unfolding main by (auto dest: main_live)
  from runNode_more [OF this] obtain r where run: "m_running g"
    and "processEvents (d_svs D) (d_json D) app evs (g, b) = (r, h, c)" by blast
  then have "processEvents (d_svs D) (d_json D) (d_app D i) evs (g, pack b) = (r, h, pack c)"
    unfolding assms(3) by (simp add: processEvents_lift [where pack = pack and unpack = unpack, OF assms(4)])
  from processEvents_steps [OF assms(1,2) run assms(5) this] show ?thesis by blast
qed
text \<open>What arrives is a unit some process has pushed on the edge, or an acknowledgement that can be read.\<close>

lemma arrival_cases:
  assumes "net_reach D s" and "s i = Some (f, a)" and "can_happen D s f (Arrived cb d now)"
  obtains e j g b where "cb = Consumer_callback e" and "e \<in> set (consumer_edges f)" and "s j = Some (g, b)"
      and "e \<in> set (producer_edges g)" and "sub_data d \<in> set (unit_payloads (d_pubs D (m_svsPubSub g)))"
    | np sp where "cb = Backchannel_handler np sp" and "\<And>e. undisturbed (d_json D) e (Arrived cb d now)"
proof -
  note ok = reach_ok [OF assms(1)]
  obtain j g b m who where g: "s j = Some (g, b)"
    "(sub_name d, sub_data d, who, sub_seqNo d) \<in> set (d_pubs D (m_svsPubSub g))"
    "(m, cb) \<in> ran (d_subs D (m_svsPubSub f))" "d_matches D m (fst (sub_name d, sub_data d, who, sub_seqNo d))"
    using assms(3) by (auto simp: can_happen_def)
  show thesis
  proof (cases cb)
    case (Consumer_callback e)
    have unit: "e \<in> set (consumer_edges f)" "data_publication (d_svs D) g e (sub_name d, sub_data d, who, sub_seqNo d)"
      using delivered_unit [OF ok assms(2) g(1,2) _ g(4)] g(3) Consumer_callback by blast+
    then have "who \<noteq> None" by (auto simp: data_publication_def)
    with g(2) have "sub_data d \<in> set (unit_payloads (d_pubs D (m_svsPubSub g)))"
      by (force simp: unit_payloads_def)
    with that(1) [OF Consumer_callback unit(1) g(1) data_publication_edge [OF unit(2)]] show thesis .
  next
    case (Backchannel_handler np sp)
    obtain e q where "ack_publication (d_svs D) (d_json D) g e q (sub_name d, sub_data d, who, sub_seqNo d)"
      using delivered_ack [OF ok assms(2) g(1,2) _ g(4)] g(3) Backchannel_handler by blast
    then have "sub_data d = ackPayload (d_json D) q" by (simp add: ack_publication_def)
    then have "undisturbed (d_json D) e' (Arrived cb d now)" for e'
      by (simp add: Backchannel_handler ackPayload_def parse_dump_num get_u64_num)
    with that(2) [OF Backchannel_handler] show thesis .
  qed
qed

end

section \<open>The threads of \<open>text2lines\<close> as steps of the network\<close>

text \<open>Without consumers the loop never calls the application: any code does the same.\<close>

lemma no_consumer_same:
  assumes "m_iceflowConsumers g = []" and "handleEvent S J app ev (g, a) = (r, h, c)"
  shows "handleEvent S J app' ev (g, b) = (r, h, b) \<and> m_iceflowConsumers h = [] \<and> c = a"
proof (cases ev)
  case (Arrived cb d now)
  with assms show ?thesis by (cases cb) (auto simp: onConsumerData_def split_beta)
qed (use assms in \<open>auto simp: shutdown_def\<close>)

lemma no_consumer_batch_same:
  assumes "m_iceflowConsumers g = []" and "processEvents S J app evs (g, a) = (r, h, c)"
  shows "processEvents S J app' evs (g, b) = (r, h, b)"
  using assms
proof (induction evs arbitrary: g)
  case (Cons ev evs)
  obtain r1 g1 a1 where ev: "handleEvent S J app ev (g, a) = (r1, g1, a1)" by (rule prod_cases3)
  have g1: "handleEvent S J app' ev (g, b) = (r1, g1, b)" "m_iceflowConsumers g1 = []" "a1 = a"
    using no_consumer_same [OF Cons.prems(1) ev, of app' b] by blast+
  show ?case
  proof (cases r1)
    case (Inl x)
    with Cons.prems(2) ev g1(1) show ?thesis by auto
  next
    case (Inr u)
    with Cons.prems(2) ev g1(3) have "processEvents S J app evs (g1, a) = (r, h, c)" by simp
    from Cons.IH [OF g1(2) this] Inr g1(1) show ?thesis by simp
  qed
qed simp

lemma push_turn_steps:
  fixes D :: "('ps, 'j, 'n, unit, 'a) deployment"
  assumes "s i = Some (node t, a)" and "threadTurn (d_svs D) J Push_turn t = Some u"
  shows "(net_step D)\<^sup>*\<^sup>* s (s(i \<mapsto> (node u, a)))"
proof (cases "pending t")
  case Nil
  with assms(2) have "u = t" by simp
  then have "s(i \<mapsto> (node u, a)) = s" using assms(1) by auto
  then show ?thesis by simp
next
  case (Cons push rest)
  obtain e d b where push: "push = (e, d, b)" by (rule prod_cases3)
  obtain r f where f: "pushData (d_svs D) d e (node t) = (r, f)" by fastforce
  have "node u = f" using assms(2) Cons push f by (auto split: sum.splits)
  moreover have "net_step D s (s(i \<mapsto> (f, a)))"
    by (rule net_step.pushed [where s = s and i = i, OF assms(1) f])
  ultimately show ?thesis using r_into_rtranclp [where r = "net_step D"] by simp
qed

lemma loop_turn_steps:
  fixes D :: "('ps, 'j, 'n, unit, 'a) deployment"
  assumes "net_reach D s" and "s i = Some (node t, a)" and "m_iceflowConsumers (node t) = []"
    and "m_running (node t) = loop_begun t" and "\<forall>ev \<in> set evs. can_happen D s (node t) ev"
    and "threadTurn (d_svs D) (d_json D) (Loop_turn evs) t = Some u"
    and "deployed D invar store of_str of_obj of_arr"
  shows "(net_step D)\<^sup>*\<^sup>* s (s(i \<mapsto> (node u, a)))"
proof -
  obtain f where f_def: "f = (node t)\<lparr>m_running := True\<rparr>" by blast
  have f: "(if loop_begun t then node t else (node t)\<lparr>m_running := True\<rparr>) = f" "m_running f"
    using assms(4) by (auto simp: f_def)
  let ?s = "s(i \<mapsto> (f, a))"
  have start: "(net_step D)\<^sup>*\<^sup>* s ?s"
  proof (cases "m_running (node t)")
    case True
    then have "s(i \<mapsto> (f, a)) = s" using assms(2) by (auto simp: f_def)
    then show ?thesis by simp
  next
    case False
    from net_step.started [where s = s and i = i and a' = a, OF assms(2) this]
    show ?thesis unfolding f_def by (rule r_into_rtranclp [where r = "net_step D"])
  qed
  have "node_evolves invar (d_subs D) (d_pubs D) (node t) f"
    using deployed.network_process(2) [OF assms(7) deployed.reach_ok [OF assms(7,1)] assms(2)] by (simp add: node_evolves_def f_def)
  from can_happen_evolves [where s = s and i = i, OF _ assms(2) this] assms(5)
  have can: "\<forall>ev \<in> set evs. can_happen D ?s f ev" by blast
  obtain r g b where run: "processEvents (d_svs D) (d_json D) no_callbacks evs (f, app_state t) = (r, g, b)"
    by (rule prod_cases3)
  have u: "node u = g" using assms(4,6) run f by (cases r) (auto simp: Let_def split: if_splits)
  have none: "m_iceflowConsumers f = []" using assms(3) by (simp add: f_def)
  have here: "?s i = Some (f, a)" by simp
  have "net_reach D ?s" using assms(1) start by (rule rtranclp_trans)
  from deployed.processEvents_steps [where s = ?s and i = i, OF assms(7) this here f(2) can no_consumer_batch_same [OF none run]]
  have "(net_step D)\<^sup>*\<^sup>* ?s (s(i \<mapsto> (g, a)))" unfolding fun_upd_upd by blast
  from rtranclp_trans [where r = "net_step D", OF start this] u show ?thesis by simp
qed

end
