(* ===== verification/Word_Count_Network.thy ===== *)
theory Word_Count_Network
  imports Program_Runs
begin

text \<open>
  The word count example as an application: any number of processes of its three programs, started at
  any time on the DAG of the repository, whose loops and pushes interleave in any order, with data
  delivered as the network can deliver it. A process is given by its command line and its history, and
  its state by running \<open>main\<close> on that history. Every run of the application is a run of
  \<open>net_step\<close>, and no process ever counts a word that is not in a text.
\<close>

section \<open>The application\<close>

text \<open>
  A process of the application: the program, its environment and command line, and what has happened
  to it since. Its state is a node and what its callbacks keep; \<open>text2lines\<close> has no callback.
\<close>

datatype program_state = Source | Splitter (splitter_state: example_state) | Counter (counter_state: wordcount_state)

datatype 'n execution =
    Text2lines environment "string list" "'n turn list"
  | Lines2words environment "string list" "'n face_event list list"
  | Wordcount environment "string list" "'n face_event list list"

fun execution_state ::
    "('ps, 'n) ndn_ops \<Rightarrow> 'j json_ops \<Rightarrow> 'n execution \<Rightarrow> (('ps, 'j, unit) IceFlow \<times> program_state) option" where
  "execution_state S J (Text2lines E argv turns) =
     (case text2lines_main S J E turns argv of Live t \<Rightarrow> Some (node t, Source) | _ \<Rightarrow> None)"
| "execution_state S J (Lines2words E argv batches) =
     (case lines2words_main S J E batches argv of Live (f, a) \<Rightarrow> Some (f, Splitter a) | _ \<Rightarrow> None)"
| "execution_state S J (Wordcount E argv batches) =
     (case wordcount_main S J E batches argv of Live (f, a) \<Rightarrow> Some (f, Counter a) | _ \<Rightarrow> None)"

fun handles :: "'n face_event list \<Rightarrow> 'n execution \<Rightarrow> 'n execution" where
  "handles evs (Text2lines E argv turns) = Text2lines E argv (turns @ [Loop_turn evs])"
| "handles evs (Lines2words E argv batches) = Lines2words E argv (batches @ [evs])"
| "handles evs (Wordcount E argv batches) = Wordcount E argv (batches @ [evs])"

type_synonym 'n application_run = "nat \<rightharpoonup> 'n execution"

definition application_network ::
    "('ps, 'n) ndn_ops \<Rightarrow> 'j json_ops \<Rightarrow> 'n application_run \<Rightarrow> ('ps, 'j, unit, program_state) network" where
  "application_network S J C = (\<lambda>i. Option.bind (C i) (execution_state S J))"

text \<open>
  On the DAG of the repository, with the files and options each program needs. The history of the
  process is one its loop can handle.
\<close>

abbreviation t2l_edge :: "jval Edge" where "t2l_edge \<equiv> plain_edge ''t2l'' 3 ''2''"
abbreviation l2w_edge :: "jval Edge" where "l2w_edge \<equiv> plain_edge ''l2w'' 1 ''3''"

fun on_word_count :: "jval json_ops \<Rightarrow> 'n execution \<Rightarrow> bool" where
  "on_word_count J (Text2lines E argv turns) \<longleftrightarrow>
     (\<exists>text. text2lines_ready J E turns argv word_count_dag (word_count_nodes ! 0) text)"
| "on_word_count J (Lines2words E argv batches) \<longleftrightarrow>
     (\<exists>k. lines2words_ready J E batches argv word_count_dag (word_count_nodes ! 1) t2l_edge k)"
| "on_word_count J (Wordcount E argv batches) \<longleftrightarrow>
     wordcount_ready J E batches argv word_count_dag (word_count_nodes ! 2) l2w_edge"

fun begins :: "'n execution \<Rightarrow> bool" where
  "begins (Text2lines E argv turns) \<longleftrightarrow> turns = []"
| "begins (Lines2words E argv batches) \<longleftrightarrow> batches = []"
| "begins (Wordcount E argv batches) \<longleftrightarrow> batches = []"

fun runs_code :: "(unit, program_state) application \<Rightarrow> 'n execution \<Rightarrow> bool" where
  "runs_code app (Text2lines E argv turns) \<longleftrightarrow> True"
| "runs_code app (Lines2words E argv batches) \<longleftrightarrow>
     app = lift_app Splitter splitter_state (lines2words_app (wall_clock E) ''l2w'')"
| "runs_code app (Wordcount E argv batches) \<longleftrightarrow>
     app = lift_app Counter counter_state (wordcount_app (wall_clock E))"

text \<open>
  A process is started; a loop handles a batch of data the network can deliver; a line is pushed. No
  program calls \<open>shutdown\<close>, and a batch that an exception of the face ends is the batch of what came
  before it. A process that was interrupted takes no more steps; what it published can still be
  delivered.
\<close>

fun arrives :: "'n face_event \<Rightarrow> bool" where
  "arrives (Arrived cb d now) \<longleftrightarrow> True"
| "arrives ev \<longleftrightarrow> False"

inductive application_step ::
    "('ps, jval, 'n, unit, program_state) deployment \<Rightarrow> 'n application_run \<Rightarrow> 'n application_run \<Rightarrow> bool" for D where
  launched:
    "C i = None \<Longrightarrow> begins p \<Longrightarrow> on_word_count (d_json D) p \<Longrightarrow> runs_code (d_app D i) p \<Longrightarrow>
     application_step D C (C(i \<mapsto> p))"
| handled:
    "C i = Some p \<Longrightarrow> application_network (d_svs D) (d_json D) C i = Some (f, a) \<Longrightarrow>
     \<forall>ev \<in> set evs. arrives ev \<and> can_happen D (application_network (d_svs D) (d_json D) C) f ev \<Longrightarrow>
     application_step D C (C(i \<mapsto> handles evs p))"
| pushed:
    "C i = Some (Text2lines E argv turns) \<Longrightarrow>
     application_step D C (C(i \<mapsto> Text2lines E argv (turns @ [Push_turn])))"

abbreviation application_reach ::
    "('ps, jval, 'n, unit, program_state) deployment \<Rightarrow> 'n application_run \<Rightarrow> bool" where
  "application_reach D \<equiv> (application_step D)\<^sup>*\<^sup>* Map.empty"

section \<open>Every process is live\<close>

fun in_edges :: "'n execution \<Rightarrow> string set" where
  "in_edges (Text2lines E argv turns) = {}"
| "in_edges (Lines2words E argv batches) = {''t2l''}"
| "in_edges (Wordcount E argv batches) = {''l2w''}"

fun out_edges :: "'n execution \<Rightarrow> string set" where
  "out_edges (Text2lines E argv turns) = {''t2l''}"
| "out_edges (Lines2words E argv batches) = {''l2w''}"
| "out_edges (Wordcount E argv batches) = {}"

text \<open>What a process has pushed.\<close>

fun has_pushed :: "jval json_ops \<Rightarrow> 'n execution \<Rightarrow> byte list list \<Rightarrow> bool" where
  "has_pushed J (Text2lines E argv turns) ls \<longleftrightarrow>
     (\<exists>text. text2lines_ready J E turns argv word_count_dag (word_count_nodes ! 0) text \<and>
        ls = take (pushes_in turns) (map bytes_of_string (getlines text)))"
| "has_pushed J (Lines2words E argv batches) ls \<longleftrightarrow> ls = concat (map words_out (delivered batches))"
| "has_pushed J (Wordcount E argv batches) ls \<longleftrightarrow> ls = []"

lemma word_count_nodes_edges:
  "downstream (word_count_nodes ! 0) = [t2l_edge]" "downstream (word_count_nodes ! 1) = [l2w_edge]"
  "downstream (word_count_nodes ! 2) = []"
  by (simp_all add: word_count_nodes_def task_node_def)

lemma evolves_edges:
  "node_evolves invar subs pubs f g \<Longrightarrow> producer_edges g = producer_edges f \<and> consumer_edges g = consumer_edges f"
  using same_handles_keys by (auto simp: node_evolves_def)

lemma loop_process_live:
  fixes S :: "('ps, 'n) ndn_ops" and J :: "'j json_ops" and cb :: "'u ConsumerCallback"
  assumes "svs S invar used subs pubs store"
    and "loop_process S J invar used subs pubs E fname nodeName d n cb e app main"
    and "\<And>f :: ('ps, 'j, 'u) IceFlow. set (producer_edges f) = edge_id ` set (downstream n) \<Longrightarrow>
      returning_call S invar pubs app cb out step f"
    and "list_all (list_all (undisturbed J e)) batches"
  shows "\<exists>f g b. main batches = Live (g, b) \<and> set (producer_edges g) = edge_id ` set (downstream n) \<and>
    set (consumer_edges g) = edge_id ` set (map snd (findUpstreamEdges d n)) \<and>
    unit_payloads (pubs (m_svsPubSub g)) = concat (map out (delivered batches)) \<and>
    newIceFlowFromFile S J (dag_files E) (node_uuid E) (seed_time E) (start_time E) fname nodeName None = Inr f \<and>
    node_frame f g"
proof -
  obtain f f' s R where built: "newIceFlowFromFile S J (dag_files E) (node_uuid E) (seed_time E) (start_time E)
      fname nodeName None = Inr f"
    and f: "fresh_node S invar used subs pubs (node_uuid E) d n f"
    and sub: "subscribed_node S invar subs pubs cb e R f f'"
    and main: "main batches = mainProcess (runNode S J app batches f' s)"
    using assms(2) unfolding loop_process_def by blast
  have frame: "node_frame f f'" "m_running f' = m_running f" "pubs (m_svsPubSub f') = pubs (m_svsPubSub f)"
    using sub by (simp_all add: subscribed_node_def)
  have edges: "set (producer_edges f') = edge_id ` set (downstream n)"
    "set (consumer_edges f') = edge_id ` set (map snd (findUpstreamEdges d n))"
    and idle: "\<not> m_running f'" and none: "pubs (m_svsPubSub f') = []"
    using f frame frame_producer_edges [OF frame(1)] by (simp_all add: fresh_node_def node_frame_def)
  obtain g b where run: "runNode S J app batches f' s = Executing (g, b)"
    and trace: "consumer_trace S J invar subs pubs cb e out step f' s (concat batches) (g, b)"
    using consumer_process [OF assms(1) assms(3) [OF edges(1)] sub idle assms(4), of s] by auto
  note same = frame_trans [OF frame(1) runNode_frame [OF run]]
  have "node_evolves invar subs pubs f' g" using trace by (simp add: consumer_trace_def)
  from evolves_edges [OF this] edges trace none run built same show ?thesis
    by (intro exI [of _ f] exI [of _ g] exI [of _ b]) (simp add: main consumer_trace_def)
qed

lemma deployable_parts:
  assumes "deployable J E fname nodeName d n"
  shows "parseFromFile J (dag_files E) fname = Inr d" "findNodeByName d nodeName = Inr n" "length (downstream n) < 2 ^ 32"
  using assms by (simp_all add: deployable_def)

text \<open>The number of partitions a process pushes to is the one of the DAG.\<close>

definition edge_partitions :: "string \<Rightarrow> u32" where
  "edge_partitions e = (if e = ''t2l'' then 3 else 1)"

lemma word_count_partitions:
  assumes "newIceFlowFromFile S J contents uuid time now fname nodeName r = Inr f" and "node_frame f g"
    and "parseFromFile J contents fname = Inr word_count_dag" and "findNodeByName word_count_dag nodeName = Inr n"
    and "downstream n = [] \<or> downstream n = [t2l_edge] \<or> downstream n = [l2w_edge]" and "e \<in> set (producer_edges g)"
  shows "map_of (partition_counts g) e = Some (edge_partitions e)"
proof -
  have counts: "partition_counts g = partition_counts f" and "producer_edges g = producer_edges f"
    using assms(2) frame_producer_edges by (auto simp: node_frame_def)
  then have "e \<in> set (producer_edges f)" using assms(6) by simp
  then obtain p where p: "map_of (m_iceflowProducers f) e = Some p"
    by (metis domD dom_map_of_conv_image_fst list.set_map)
  have "newIceFlow S uuid time now word_count_dag nodeName r = Inr f"
    using assms(1,3) by (simp add: newIceFlowFromFile_def)
  from newIceFlow_state [OF this] assms(4)
  have "\<forall>kp \<in> set (m_iceflowProducers f). producer_for S (m_nodePrefix f) (m_syncPrefix f) (downstream n) kp" by auto
  with map_of_SomeD [OF p] obtain x where "x \<in> set (downstream n)" "edge_id x = e" "maxPartitions x = m_numberOfPartitions p"
    by (fastforce simp: producer_for_def)
  with assms(5) have "m_numberOfPartitions p = edge_partitions e" by (auto simp: edge_partitions_def)
  with p show ?thesis by (simp add: counts partition_counts_lookup)
qed

lemma process_live:
  fixes S :: "('ps, 'n) ndn_ops"
  assumes "svs S invar used subs pubs store" and "on_word_count J p"
  shows "\<exists>f a. execution_state S J p = Some (f, a) \<and> set (producer_edges f) = out_edges p \<and>
    set (consumer_edges f) = in_edges p \<and> has_pushed J p (unit_payloads (pubs (m_svsPubSub f))) \<and>
    (\<forall>e \<in> set (producer_edges f). map_of (partition_counts f) e = Some (edge_partitions e))"
proof (cases p)
  case (Text2lines E argv turns)
  with assms(2) obtain content where
    ready: "text2lines_ready J E turns argv word_count_dag (word_count_nodes ! 0) content" by auto
  obtain f :: "('ps, jval, unit) IceFlow" and t0 pushes where
    built: "newIceFlowFromFile S J (dag_files E) (node_uuid E) (seed_time E) (start_time E) (argv ! 1)
        ''text2lines'' None = Inr f"
    and f: "fresh_node S invar used subs pubs (node_uuid E) word_count_dag (word_count_nodes ! 0) f"
    and proc: "threads_process S J invar subs pubs f (map bytes_of_string (getlines content))
      (\<lambda>turns. text2lines_main S J E turns argv) t0 pushes"
    using text2lines_threads_process [OF assms(1) ready] by blast
  have sels: "m_iceflowConsumers f = []" "pubs (m_svsPubSub f) = []" "set (producer_edges f) = {''t2l''}"
    using f [unfolded fresh_node_def word_count_nodes_edges] word_count_edges(1) by (elim conjE; simp)+
  have ok: "list_all (turn_undisturbed J) turns" using ready by (simp only: text2lines_ready_def)
  obtain t t' where t: "threads_trace S invar subs pubs f pushes (pushes_in turns) t"
    "text2lines_main S J E turns argv = Live t'" "node t' = node t" "threadTurns S J turns t0 = Some t"
    using threads_process_turns [OF assms(1) sels(1) proc ok] by blast
  have "node t0 = f" using proc by (simp only: threads_process_def)
  with threadTurns_frame [OF t(4)] have frame: "node_frame f (node t)" by simp
  have dep: "deployable J E (argv ! 1) ''text2lines'' word_count_dag (word_count_nodes ! 0)"
    using ready by (simp only: text2lines_ready_def)
  have counts: "\<forall>e \<in> set (producer_edges (node t)). map_of (partition_counts (node t)) e = Some (edge_partitions e)"
    by (intro ballI word_count_partitions [OF built frame deployable_parts(1,2) [OF dep]])
      (unfold word_count_nodes_edges, blast+)
  have "node_evolves invar subs pubs f (node t)" using t(1) by (simp add: threads_trace_def)
  from evolves_edges [OF this] have "set (producer_edges (node t)) = {''t2l''}" "set (consumer_edges (node t)) = {}"
    using sels(1,3) by simp_all
  moreover have "unit_payloads (pubs (m_svsPubSub (node t))) =
      take (pushes_in turns) (map bytes_of_string (getlines content))"
    using t(1) sels(2) proc by (simp add: threads_trace_def threads_process_def)
  moreover have "execution_state S J (Text2lines E argv turns) = Some (node t, Source)" using t(2,3) by simp
  ultimately show ?thesis
    unfolding Text2lines in_edges.simps out_edges.simps has_pushed.simps using ready counts by blast
next
  case (Lines2words E argv batches)
  with assms(2) obtain k where
    ready: "lines2words_ready J E batches argv word_count_dag (word_count_nodes ! 1) t2l_edge k" by auto
  have "returning_call S invar pubs (lines2words_app (wall_clock E) (edge_id l2w_edge)) (Prosumer ()) words_out
      (\<lambda>d s. snd (snd (lines2words (wall_clock E) (edge_id l2w_edge) (string_of_bytes d) s))) f"
    if "set (producer_edges f) = edge_id ` set (downstream (word_count_nodes ! 1))" for f :: "('ps, jval, unit) IceFlow"
    by (rule lines2words_call [OF assms(1)]) (unfold that word_count_nodes_edges, simp)
  moreover have "list_all (list_all (undisturbed J (edge_id t2l_edge))) batches"
    using ready by (simp only: lines2words_ready_def)
  ultimately obtain f g b where g: "lines2words_main S J E batches argv = Live (g, b)"
    "set (producer_edges g) = edge_id ` set (downstream (word_count_nodes ! 1))"
    "set (consumer_edges g) = edge_id ` set (map snd (findUpstreamEdges word_count_dag (word_count_nodes ! 1)))"
    "unit_payloads (pubs (m_svsPubSub g)) = concat (map words_out (delivered batches))"
    and built: "newIceFlowFromFile S J (dag_files E) (node_uuid E) (seed_time E) (start_time E) (argv ! 1)
        ''lines2words'' None = Inr f" and frame: "node_frame f g"
    using loop_process_live [OF assms(1) lines2words_loop [OF assms(1) ready word_count_nodes_edges(2)]] by blast
  have dep: "deployable J E (argv ! 1) ''lines2words'' word_count_dag (word_count_nodes ! 1)"
    using ready by (simp only: lines2words_ready_def)
  have counts: "\<forall>e \<in> set (producer_edges g). map_of (partition_counts g) e = Some (edge_partitions e)"
    by (intro ballI word_count_partitions [OF built frame deployable_parts(1,2) [OF dep]])
      (unfold word_count_nodes_edges, blast+)
  have edges: "set (producer_edges g) = {''l2w''}" "set (consumer_edges g) = {''t2l''}"
    using g(2,3) unfolding word_count_edges word_count_nodes_edges by simp_all
  have "execution_state S J (Lines2words E argv batches) = Some (g, Splitter b)" using g(1) by simp
  with edges g(4) counts show ?thesis
    unfolding Lines2words in_edges.simps out_edges.simps has_pushed.simps by blast
next
  case (Wordcount E argv batches)
  with assms(2) have ready: "wordcount_ready J E batches argv word_count_dag (word_count_nodes ! 2) l2w_edge" by simp
  then have "list_all (list_all (undisturbed J (edge_id l2w_edge))) batches" by (simp only: wordcount_ready_def)
  from loop_process_live [OF assms(1) wordcount_loop [OF assms(1) ready] wordcount_call this]
  obtain f g b where g: "wordcount_main S J E batches argv = Live (g, b)"
    "set (producer_edges g) = edge_id ` set (downstream (word_count_nodes ! 2))"
    "set (consumer_edges g) = edge_id ` set (map snd (findUpstreamEdges word_count_dag (word_count_nodes ! 2)))"
    "unit_payloads (pubs (m_svsPubSub g)) = concat (map (\<lambda>d. []) (delivered batches))"
    and built: "newIceFlowFromFile S J (dag_files E) (node_uuid E) (seed_time E) (start_time E) (argv ! 1)
        ''wordcount'' None = Inr f" and frame: "node_frame f g"
    by blast
  have dep: "deployable J E (argv ! 1) ''wordcount'' word_count_dag (word_count_nodes ! 2)"
    using ready by (simp only: wordcount_ready_def)
  have counts: "\<forall>e \<in> set (producer_edges g). map_of (partition_counts g) e = Some (edge_partitions e)"
    by (intro ballI word_count_partitions [OF built frame deployable_parts(1,2) [OF dep]])
      (unfold word_count_nodes_edges, blast+)
  have edges: "set (producer_edges g) = {}" "set (consumer_edges g) = {''l2w''}"
    using g(2,3) unfolding word_count_edges word_count_nodes_edges by simp_all
  have none: "unit_payloads (pubs (m_svsPubSub g)) = []" using g(4) by simp
  have "execution_state S J (Wordcount E argv batches) = Some (g, Counter b)" using g(1) by simp
  with edges none counts show ?thesis
    unfolding Wordcount in_edges.simps out_edges.simps has_pushed.simps by blast
qed

section \<open>A run of the application is a run of the network\<close>

text \<open>The histories a step makes are ones the processes can have.\<close>

lemma ready_more:
  "text2lines_ready J E (turns @ [t]) argv d n content \<longleftrightarrow> text2lines_ready J E turns argv d n content \<and> turn_undisturbed J t"
  "lines2words_ready J E (batches @ [evs]) argv d n up k \<longleftrightarrow>
     lines2words_ready J E batches argv d n up k \<and> list_all (undisturbed J (edge_id up)) evs"
  "wordcount_ready J E (batches @ [evs]) argv d n up \<longleftrightarrow>
     wordcount_ready J E batches argv d n up \<and> list_all (undisturbed J (edge_id up)) evs"
  unfolding text2lines_ready_def lines2words_ready_def wordcount_ready_def
  by (simp_all only: list_all_append list.pred_inject simp_thms conj_assoc)

lemma handles_ready:
  assumes "on_word_count J p" and "\<forall>e \<in> in_edges p. list_all (undisturbed J e) evs"
    and "list_all (\<lambda>ev. \<exists>e. undisturbed J e ev) evs"
  shows "on_word_count J (handles evs p)"
  using assms by (cases p) (auto simp: ready_more)

definition application_topics :: "(string \<times> string) set" where
  "application_topics = {(''WordCount'', ''t2l''), (''WordCount'', ''l2w'')}"

definition started_well :: "('ps, jval, 'n, unit, program_state) deployment \<Rightarrow> 'n application_run \<Rightarrow> bool" where
  "started_well D C \<longleftrightarrow> (\<forall>i p. C i = Some p \<longrightarrow> on_word_count (d_json D) p \<and> runs_code (d_app D i) p)"

lemma network_state:
  assumes "deployed D invar store of_str of_obj of_arr" and "started_well D C" and "C i = Some p"
  shows "\<exists>f a. application_network (d_svs D) (d_json D) C i = Some (f, a) \<and> set (producer_edges f) = out_edges p \<and>
    set (consumer_edges f) = in_edges p \<and> has_pushed (d_json D) p (unit_payloads (d_pubs D (m_svsPubSub f))) \<and>
    (\<forall>e \<in> set (producer_edges f). map_of (partition_counts f) e = Some (edge_partitions e))"
proof -
  have "svs (d_svs D) invar (d_used D) (d_subs D) (d_pubs D) store" using assms(1) by (simp add: deployed_def)
  moreover have "on_word_count (d_json D) p" using assms(2,3) by (simp add: started_well_def)
  ultimately show ?thesis using process_live assms(3) by (fastforce simp: application_network_def)
qed

lemma network_some:
  "application_network S J C i = Some fa \<longleftrightarrow> (\<exists>p. C i = Some p \<and> execution_state S J p = Some fa)"
  by (simp add: application_network_def bind_eq_Some_conv)

lemma network_changed:
  "execution_state S J p = Some fa \<Longrightarrow> application_network S J (C(i \<mapsto> p)) = (application_network S J C)(i \<mapsto> fa)"
  by (simp add: application_network_def fun_eq_iff)

text \<open>The events of a step: data for the edge the process consumes, or acknowledgements.\<close>

lemma arrivals_undisturbed:
  assumes "deployed D invar store of_str of_obj of_arr" and "net_reach D s" and "s i = Some (f, a)"
    and "\<forall>ev \<in> set evs. arrives ev \<and> can_happen D s f ev"
  shows "list_all (\<lambda>ev. \<exists>e. undisturbed (d_json D) e ev) evs"
    and "set (consumer_edges f) \<subseteq> {e} \<Longrightarrow> list_all (undisturbed (d_json D) e) evs"
proof -
  have "\<exists>e'. undisturbed (d_json D) e' ev \<and> (set (consumer_edges f) \<subseteq> {e} \<longrightarrow> undisturbed (d_json D) e ev)"
    if ev: "ev \<in> set evs" for ev e
  proof -
    obtain cb d now where arrived: "ev = Arrived cb d now" and can: "can_happen D s f (Arrived cb d now)"
      using assms(4) ev by (cases ev) auto
    show ?thesis
    proof (rule deployed.arrival_cases [OF assms(1-3) can])
      fix e'
      assume e': "cb = Consumer_callback e'" "e' \<in> set (consumer_edges f)"
      then have "undisturbed (d_json D) e' ev" by (simp add: arrived)
      with e'(2) show ?thesis by auto
    next
      assume "\<And>e. undisturbed (d_json D) e (Arrived cb d now)"
      then show ?thesis unfolding arrived by blast
    qed
  qed
  then show "list_all (\<lambda>ev. \<exists>e. undisturbed (d_json D) e ev) evs"
    and "set (consumer_edges f) \<subseteq> {e} \<Longrightarrow> list_all (undisturbed (d_json D) e) evs"
    unfolding list_all_iff by blast+
qed

lemma word_count_names:
  assumes "application_topics \<subseteq> T"
  shows "{m_applicationName word_count_dag} \<times> edge_id ` set (downstream (word_count_nodes ! 0) @
      map snd (findUpstreamEdges word_count_dag (word_count_nodes ! 0))) \<subseteq> T"
    and "{m_applicationName word_count_dag} \<times> edge_id ` set (downstream (word_count_nodes ! 1) @
      map snd (findUpstreamEdges word_count_dag (word_count_nodes ! 1))) \<subseteq> T"
    and "{m_applicationName word_count_dag} \<times> edge_id ` set (downstream (word_count_nodes ! 2) @
      map snd (findUpstreamEdges word_count_dag (word_count_nodes ! 2))) \<subseteq> T"
  unfolding word_count_edges word_count_nodes_edges using assms by (simp_all add: application_topics_def)

lemma launched_steps:
  fixes D :: "('ps, jval, 'n, unit, program_state) deployment"
  assumes "deployed D invar store of_str of_obj of_arr" and "application_topics \<subseteq> d_topics D"
    and "s i = None" and "begins p" and "on_word_count (d_json D) p"
    and "execution_state (d_svs D) (d_json D) p = Some fa"
  shows "(net_step D)\<^sup>*\<^sup>* s (s(i \<mapsto> fa))"
proof -
  have svs: "svs (d_svs D) invar (d_used D) (d_subs D) (d_pubs D) store" using assms(1) by (simp add: deployed_def)
  note names = word_count_names [OF assms(2)]
  show ?thesis
  proof (cases p)
    case (Text2lines E argv turns)
    with assms(4,5) obtain content where
      ready: "text2lines_ready (d_json D) E ([] :: 'n turn list) argv word_count_dag (word_count_nodes ! 0) content" by auto
    then have dep: "deployable (d_json D) E (argv ! 1) ''text2lines'' word_count_dag (word_count_nodes ! 0)"
      by (simp only: text2lines_ready_def)
    obtain f :: "('ps, jval, unit) IceFlow" and t0 pushes where
      f: "newIceFlowFromFile (d_svs D) (d_json D) (dag_files E) (node_uuid E) (seed_time E) (start_time E) (argv ! 1)
          ''text2lines'' None = Inr f"
        "fresh_node (d_svs D) invar (d_used D) (d_subs D) (d_pubs D) (node_uuid E) word_count_dag (word_count_nodes ! 0) f"
      and proc: "threads_process (d_svs D) (d_json D) invar (d_subs D) (d_pubs D) f (map bytes_of_string (getlines content))
        (\<lambda>turns. text2lines_main (d_svs D) (d_json D) E turns argv) t0 pushes"
      using text2lines_threads_process [OF svs ready] by blast
    have t0: "node t0 = f" "m_running (node t0) = loop_begun t0" "threadTurns (d_svs D) (d_json D) [] t0 = Some t0"
      using proc unfolding threads_process_def threads_trace_def by (blast, blast, simp)
    obtain t' where "text2lines_main (d_svs D) (d_json D) E [] argv = Live t'" "node t' = node t0"
      using proc t0(2,3) unfolding threads_process_def by blast
    with assms(4,6) Text2lines t0(1) have "fa = (f, Source)" by simp
    moreover have "net_step D s (s(i \<mapsto> (f, Source)))"
      by (rule deployed.joined_step [where s = s and i = i, OF assms(1,3) f deployable_parts [OF dep] names(1)])
    ultimately show ?thesis using r_into_rtranclp [where r = "net_step D"] by simp
  next
    case (Lines2words E argv batches)
    with assms(4,5) obtain k where
      ready: "lines2words_ready (d_json D) E ([] :: 'n face_event list list) argv word_count_dag (word_count_nodes ! 1) t2l_edge k" by auto
    then have dep: "deployable (d_json D) E (argv ! 1) ''lines2words'' word_count_dag (word_count_nodes ! 1)"
      by (simp only: lines2words_ready_def)
    from deployed.launch_steps [where s = s and i = i, OF assms(1,3)
        lines2words_loop [OF svs ready word_count_nodes_edges(2)] deployable_parts [OF dep] names(2)] assms(4,6)
    show ?thesis by (auto simp: Lines2words)
  next
    case (Wordcount E argv batches)
    with assms(4,5) have
      ready: "wordcount_ready (d_json D) E ([] :: 'n face_event list list) argv word_count_dag (word_count_nodes ! 2) l2w_edge" by simp
    then have dep: "deployable (d_json D) E (argv ! 1) ''wordcount'' word_count_dag (word_count_nodes ! 2)"
      by (simp only: wordcount_ready_def)
    from deployed.launch_steps [where s = s and i = i, OF assms(1,3)
        wordcount_loop [OF svs ready] deployable_parts [OF dep] names(3)] assms(4,6)
    show ?thesis by (auto simp: Wordcount)
  qed
qed

text \<open>Two histories of the threads that differ in the last turn.\<close>

lemma turns_more:
  fixes D :: "('ps, jval, 'n, unit, program_state) deployment"
  assumes "deployed D invar store of_str of_obj of_arr"
    and "on_word_count (d_json D) (Text2lines E argv (turns @ [turn]) :: 'n execution)"
    and "execution_state (d_svs D) (d_json D) (Text2lines E argv turns) = Some (f, a)"
    and "execution_state (d_svs D) (d_json D) (Text2lines E argv (turns @ [turn])) = Some (g, b)"
  shows "\<exists>t u. f = node t \<and> g = node u \<and> a = Source \<and> b = Source \<and> m_iceflowConsumers (node t) = [] \<and>
    m_running (node t) = loop_begun t \<and> threadTurn (d_svs D) (d_json D) turn t = Some u"
proof -
  have svs: "svs (d_svs D) invar (d_used D) (d_subs D) (d_pubs D) store" using assms(1) by (simp add: deployed_def)
  obtain content where
    more: "text2lines_ready (d_json D) E (turns @ [turn]) argv word_count_dag (word_count_nodes ! 0) content"
    using assms(2) by auto
  then have ok: "list_all (turn_undisturbed (d_json D)) turns" "list_all (turn_undisturbed (d_json D)) (turns @ [turn])"
    unfolding text2lines_ready_def list_all_append by argo+
  obtain f0 :: "('ps, jval, unit) IceFlow" and t0 pushes where
    f0: "fresh_node (d_svs D) invar (d_used D) (d_subs D) (d_pubs D) (node_uuid E) word_count_dag (word_count_nodes ! 0) f0"
    and proc: "threads_process (d_svs D) (d_json D) invar (d_subs D) (d_pubs D) f0 (map bytes_of_string (getlines content))
      (\<lambda>turns. text2lines_main (d_svs D) (d_json D) E turns argv) t0 pushes"
    using text2lines_threads_process [OF svs more] by blast
  have none: "m_iceflowConsumers f0 = []"
    using f0 [unfolded fresh_node_def word_count_nodes_edges] word_count_edges(1) by (elim conjE; simp)
  obtain t t' where t: "threadTurns (d_svs D) (d_json D) turns t0 = Some t"
    "threads_trace (d_svs D) invar (d_subs D) (d_pubs D) f0 pushes (pushes_in turns) t"
    "text2lines_main (d_svs D) (d_json D) E turns argv = Live t'" "node t' = node t"
    using threads_process_turns [OF svs none proc ok(1)] by blast
  obtain u u' where u: "threadTurns (d_svs D) (d_json D) (turns @ [turn]) t0 = Some u"
    "text2lines_main (d_svs D) (d_json D) E (turns @ [turn]) argv = Live u'" "node u' = node u"
    using threads_process_turns [OF svs none proc ok(2)] by blast
  have append: "threadTurns S J (xs @ ys) t = Option.bind (threadTurns S J xs t) (threadTurns S J ys)"
    for S :: "('ps, 'n) ndn_ops" and J :: "jval json_ops" and xs ys and t :: "('ps, jval) text2lines_threads"
  proof (induction xs arbitrary: t)
    case (Cons x xs)
    then show ?case by (cases "threadTurn S J x t") simp_all
  qed simp
  have "threadTurn (d_svs D) (d_json D) turn t = Some u"
    using u(1) t(1) by (simp add: append bind_eq_Some_conv)
  moreover have "m_iceflowConsumers (node t) = []" and "m_running (node t) = loop_begun t"
    using t(2) none evolves_edges [of invar "d_subs D" "d_pubs D" f0 "node t"] by (simp_all add: threads_trace_def)
  moreover have "f = node t" "g = node u" "a = Source" "b = Source" using assms(3,4) t(3,4) u(2,3) by simp_all
  ultimately show ?thesis by blast
qed

lemma handled_steps:
  fixes D :: "('ps, jval, 'n, unit, program_state) deployment"
  assumes "deployed D invar store of_str of_obj of_arr" and "net_reach D s" and "s i = Some (f, a)"
    and "runs_code (d_app D i) p" and "on_word_count (d_json D) p" and "on_word_count (d_json D) (handles evs p)"
    and "execution_state (d_svs D) (d_json D) p = Some (f, a)"
    and "execution_state (d_svs D) (d_json D) (handles evs p) = Some fa"
    and "\<forall>ev \<in> set evs. can_happen D s f ev"
  shows "(net_step D)\<^sup>*\<^sup>* s (s(i \<mapsto> fa))"
proof -
  have svs: "svs (d_svs D) invar (d_used D) (d_subs D) (d_pubs D) store" using assms(1) by (simp add: deployed_def)
  obtain g b where fa: "fa = (g, b)" by (cases fa)
  show ?thesis
  proof (cases p)
    case (Text2lines E argv turns)
    note more = assms(6-8) [unfolded Text2lines handles.simps fa]
    obtain t u where t: "f = node t" "g = node u" "a = Source" "b = Source" "m_iceflowConsumers (node t) = []"
      "m_running (node t) = loop_begun t" "threadTurn (d_svs D) (d_json D) (Loop_turn evs) t = Some u"
      using turns_more [OF assms(1) more] by blast
    have "s i = Some (node t, Source)" and "\<forall>ev \<in> set evs. can_happen D s (node t) ev"
      using assms(3,9) t(1,3) by simp_all
    from loop_turn_steps [where s = s and i = i, OF assms(2) this(1) t(5,6) this(2) t(7) assms(1)]
    show ?thesis unfolding fa t(2,4) .
  next
    case (Lines2words E argv batches)
    with assms(5) obtain k where
      ready: "lines2words_ready (d_json D) E batches argv word_count_dag (word_count_nodes ! 1) t2l_edge k" by auto
    obtain b1 b2 where live: "lines2words_main (d_svs D) (d_json D) E batches argv = Live (f, b1)" "a = Splitter b1"
      "lines2words_main (d_svs D) (d_json D) E (batches @ [evs]) argv = Live (g, b2)" "b = Splitter b2"
      using assms(7,8) by (auto simp: Lines2words fa split: process.splits)
    have "d_app D i = lift_app Splitter splitter_state (lines2words_app (wall_clock E) (edge_id l2w_edge))"
      using assms(4) by (simp add: Lines2words)
    from deployed.continue_steps [where s = s and i = i and unpack = splitter_state, OF assms(1,2)
        assms(3) [unfolded live(2)] this program_state.sel(1) assms(9)
        lines2words_loop [OF svs ready word_count_nodes_edges(2)] live(1,3)]
    show ?thesis unfolding fa live(4) .
  next
    case (Wordcount E argv batches)
    with assms(5) have
      ready: "wordcount_ready (d_json D) E batches argv word_count_dag (word_count_nodes ! 2) l2w_edge" by simp
    obtain b1 b2 where live: "wordcount_main (d_svs D) (d_json D) E batches argv = Live (f, b1)" "a = Counter b1"
      "wordcount_main (d_svs D) (d_json D) E (batches @ [evs]) argv = Live (g, b2)" "b = Counter b2"
      using assms(7,8) by (auto simp: Wordcount fa split: process.splits)
    have "d_app D i = lift_app Counter counter_state (wordcount_app (wall_clock E))"
      using assms(4) by (simp add: Wordcount)
    from deployed.continue_steps [where s = s and i = i and unpack = counter_state, OF assms(1,2)
        assms(3) [unfolded live(2)] this program_state.sel(2) assms(9) wordcount_loop [OF svs ready] live(1,3)]
    show ?thesis unfolding fa live(4) .
  qed
qed

lemma application_step_network:
  fixes D :: "('ps, jval, 'n, unit, program_state) deployment"
  assumes "deployed D invar store of_str of_obj of_arr" and "application_topics \<subseteq> d_topics D"
    and "started_well D C" and "net_reach D (application_network (d_svs D) (d_json D) C)"
    and "application_step D C C'"
  shows "started_well D C' \<and>
    (net_step D)\<^sup>*\<^sup>* (application_network (d_svs D) (d_json D) C) (application_network (d_svs D) (d_json D) C')"
proof -
  have svs: "svs (d_svs D) invar (d_used D) (d_subs D) (d_pubs D) store" using assms(1) by (simp add: deployed_def)
  let ?net = "application_network (d_svs D) (d_json D)"
  have changed: "started_well D (C(i \<mapsto> q)) \<and> (net_step D)\<^sup>*\<^sup>* (?net C) (?net (C(i \<mapsto> q)))"
    if q: "on_word_count (d_json D) q" "runs_code (d_app D i) q"
    and steps: "\<And>fa. execution_state (d_svs D) (d_json D) q = Some fa \<Longrightarrow> (net_step D)\<^sup>*\<^sup>* (?net C) ((?net C)(i \<mapsto> fa))"
    for i q
  proof -
    obtain fa where fa: "execution_state (d_svs D) (d_json D) q = Some fa" using process_live [OF svs q(1)] by blast
    have "started_well D (C(i \<mapsto> q))" using assms(3) q by (simp add: started_well_def)
    with steps [OF fa] network_changed [OF fa, of C i] show ?thesis by simp
  qed
  from assms(5) show ?thesis
  proof cases
    case (launched i p)
    have "?net C i = None" using launched(2) by (simp add: application_network_def)
    from launched_steps [where s = "?net C" and i = i, OF assms(1,2) this launched(3,4)]
    show ?thesis unfolding launched(1) by (rule changed [OF launched(4,5)])
  next
    case (handled i p f a evs)
    have p: "on_word_count (d_json D) p" "runs_code (d_app D i) p"
      using assms(3) handled(2) by (simp_all add: started_well_def)
    have state: "execution_state (d_svs D) (d_json D) p = Some (f, a)"
      using handled(2,3) by (simp add: network_some)
    have "set (consumer_edges f) = in_edges p"
      using network_state [OF assms(1,3) handled(2)] handled(3) by auto
    then have "\<forall>e \<in> in_edges p. set (consumer_edges f) \<subseteq> {e}" by (cases p) simp_all
    with arrivals_undisturbed [OF assms(1,4) handled(3,4)]
    have more: "on_word_count (d_json D) (handles evs p)" by (intro handles_ready [OF p(1)]) blast+
    have "runs_code (d_app D i) (handles evs p)" using p(2) by (cases p) simp_all
    moreover have "\<forall>ev \<in> set evs. can_happen D (?net C) f ev" using handled(4) by blast
    ultimately show ?thesis
      unfolding handled(1)
      using handled_steps [where s = "?net C" and i = i, OF assms(1,4) handled(3) p(2,1) more state]
      by (intro changed [OF more]) blast+
  next
    case (pushed i E argv turns)
    have p: "on_word_count (d_json D) (Text2lines E argv turns :: 'n execution)"
      using assms(3) pushed(2) unfolding started_well_def by blast
    then have more: "on_word_count (d_json D) (Text2lines E argv (turns @ [Push_turn]) :: 'n execution)"
      by (auto simp: ready_more)
    obtain f a where fa: "?net C i = Some (f, a)" using network_state [OF assms(1,3) pushed(2)] by blast
    then have state: "execution_state (d_svs D) (d_json D) (Text2lines E argv turns) = Some (f, a)"
      using pushed(2) by (simp add: network_some)
    have "(net_step D)\<^sup>*\<^sup>* (?net C) ((?net C)(i \<mapsto> gb))"
      if gb: "execution_state (d_svs D) (d_json D) (Text2lines E argv (turns @ [Push_turn])) = Some gb" for gb
    proof -
      obtain g b where g: "gb = (g, b)" by (cases gb)
      obtain t u where t: "f = node t" "g = node u" "a = Source" "b = Source"
        "threadTurn (d_svs D) (d_json D) Push_turn t = Some u"
        using turns_more [OF assms(1) more state gb [unfolded g]] by blast
      have "?net C i = Some (node t, Source)" using fa t(1,3) by simp
      from push_turn_steps [where s = "?net C" and i = i, OF this t(5)] show ?thesis unfolding g t(2,4) .
    qed
    then show ?thesis unfolding pushed(1) by (intro changed [OF more]) simp_all
  qed
qed

lemma application_run_network:
  assumes "deployed D invar store of_str of_obj of_arr" and "application_topics \<subseteq> d_topics D"
    and "application_reach D C"
  shows "started_well D C \<and> net_reach D (application_network (d_svs D) (d_json D) C)"
  using assms(3)
proof (induction rule: rtranclp_induct)
  case base
  have "application_network (d_svs D) (d_json D) Map.empty = Map.empty" by (simp add: application_network_def fun_eq_iff)
  then show ?case by (simp add: started_well_def)
next
  case (step C C')
  from application_step_network [OF assms(1,2) _ _ step(2)] step(3)
  show ?case by (auto intro: rtranclp_trans)
qed

section \<open>Where the words come from\<close>

text \<open>A line of the text some \<open>text2lines\<close> process of the run was started on.\<close>

definition text_line :: "jval json_ops \<Rightarrow> 'n application_run \<Rightarrow> byte list \<Rightarrow> bool" where
  "text_line J C d \<longleftrightarrow> (\<exists>j E argv turns content. C j = Some (Text2lines E argv turns) \<and>
     text2lines_ready J E ([] :: 'n turn list) argv word_count_dag (word_count_nodes ! 0) content \<and>
     d \<in> bytes_of_string ` set (getlines content))"

fun from_texts :: "jval json_ops \<Rightarrow> 'n application_run \<Rightarrow> 'n execution \<Rightarrow> bool" where
  "from_texts J C (Text2lines E argv turns) \<longleftrightarrow> True"
| "from_texts J C (Lines2words E argv batches) \<longleftrightarrow> (\<forall>d \<in> set (delivered batches). text_line J C d)"
| "from_texts J C (Wordcount E argv batches) \<longleftrightarrow>
     (\<forall>d \<in> set (delivered batches). \<exists>l. text_line J C l \<and> d \<in> set (words_out l))"

lemma ready_initially:
  "text2lines_ready J E turns argv d n content \<Longrightarrow> text2lines_ready J E [] argv d n content"
  unfolding text2lines_ready_def by (elim conjE, intro conjI, assumption+, simp)

text \<open>What a process has pushed on an edge, given where what it received came from.\<close>

lemma pushed_from_texts:
  assumes "C j = Some p" and "from_texts J C p" and "has_pushed J p ls" and "d \<in> set ls"
  shows "out_edges p = {''t2l''} \<Longrightarrow> text_line J C d"
    and "out_edges p = {''l2w''} \<Longrightarrow> \<exists>l. text_line J C l \<and> d \<in> set (words_out l)"
proof -
  assume "out_edges p = {''t2l''}"
  then obtain E argv turns where p: "p = Text2lines E argv turns" by (cases p) auto
  with assms(3) obtain content where
    ready: "text2lines_ready J E turns argv word_count_dag (word_count_nodes ! 0) content"
    and ls: "ls = take (pushes_in turns) (map bytes_of_string (getlines content))" by auto
  have "d \<in> bytes_of_string ` set (getlines content)" using assms(4) unfolding ls by (auto dest: in_set_takeD)
  with ready_initially [OF ready] assms(1) p show "text_line J C d" unfolding text_line_def by blast
next
  assume "out_edges p = {''l2w''}"
  then obtain E argv batches where p: "p = Lines2words E argv batches" by (cases p) auto
  with assms(2-4) show "\<exists>l. text_line J C l \<and> d \<in> set (words_out l)" by auto
qed

text \<open>A step keeps the texts of the processes.\<close>

lemma step_keeps_lines:
  fixes C C' :: "'n application_run"
  assumes "application_step D C C'" and "text_line J C d"
  shows "text_line J C' d"
proof -
  obtain j E argv turns content where j: "C j = Some (Text2lines E argv turns)"
    "text2lines_ready J E ([] :: 'n turn list) argv word_count_dag (word_count_nodes ! 0) content"
    "d \<in> bytes_of_string ` set (getlines content)"
    using assms(2) unfolding text_line_def by blast
  have "\<exists>turns'. C' j = Some (Text2lines E argv turns')"
    using assms(1) by cases (use j(1) in auto)
  with j(2,3) show ?thesis unfolding text_line_def by blast
qed

lemma step_keeps_origins:
  "application_step D C C' \<Longrightarrow> from_texts J C p \<Longrightarrow> from_texts J C' p"
  using step_keeps_lines [of D C C' J] by (cases p) (simp, fastforce, fastforce)

lemma handles_origins:
  assumes "from_texts J C p"
    and "\<And>d. d \<in> set (map sub_data (units_of evs)) \<Longrightarrow>
      (in_edges p = {''t2l''} \<longrightarrow> text_line J C d) \<and>
      (in_edges p = {''l2w''} \<longrightarrow> (\<exists>l. text_line J C l \<and> d \<in> set (words_out l)))"
  shows "from_texts J C (handles evs p)"
  using assms by (cases p) auto

lemma out_edges_single: "e \<in> out_edges p \<Longrightarrow> out_edges p = {e}"
  by (cases p) simp_all

lemma units_arrived:
  "u \<in> set (units_of evs) \<Longrightarrow> \<exists>e now. Arrived (Consumer_callback e) u now \<in> set evs"
  by (induction evs rule: units_of.induct) auto

lemma application_origins:
  fixes D :: "('ps, jval, 'n, unit, program_state) deployment"
  assumes "deployed D invar store of_str of_obj of_arr" and "application_topics \<subseteq> d_topics D"
    and "application_reach D C"
  shows "\<forall>i p. C i = Some p \<longrightarrow> from_texts (d_json D) C p"
  using assms(3)
proof (induction rule: rtranclp_induct)
  case (step C C')
  let ?net = "application_network (d_svs D) (d_json D) C"
  have inv: "started_well D C" "net_reach D ?net" using application_run_network [OF assms(1,2) step(1)] by blast+
  have new: "from_texts (d_json D) C' q" if "C' i = Some q" for i q
    using step(2)
  proof cases
    case (launched k p)
    have "from_texts (d_json D) C p" using launched(3) by (cases p) simp_all
    with that launched(1) step(3) have "from_texts (d_json D) C q" by (auto split: if_splits)
    then show ?thesis by (rule step_keeps_origins [OF step(2)])
  next
    case (handled k p f a evs)
    have edges: "set (consumer_edges f) = in_edges p"
      using network_state [OF assms(1) inv(1) handled(2)] handled(3) by auto
    have "(in_edges p = {''t2l''} \<longrightarrow> text_line (d_json D) C d) \<and>
        (in_edges p = {''l2w''} \<longrightarrow> (\<exists>l. text_line (d_json D) C l \<and> d \<in> set (words_out l)))"
      if d: "d \<in> set (map sub_data (units_of evs))" for d
    proof -
      obtain d' where d': "d' \<in> set (units_of evs)" "sub_data d' = d" using d by auto
      obtain e now where ev: "Arrived (Consumer_callback e) d' now \<in> set evs" using units_arrived [OF d'(1)] by blast
      have can: "can_happen D ?net f (Arrived (Consumer_callback e) d' now)" using ev handled(4) by blast
      obtain j g b where g: "e \<in> set (consumer_edges f)" "?net j = Some (g, b)" "e \<in> set (producer_edges g)"
        "d \<in> set (unit_payloads (d_pubs D (m_svsPubSub g)))"
      proof (rule deployed.arrival_cases [OF assms(1) inv(2) handled(3) can])
        fix e' j g b
        assume "Consumer_callback e = Consumer_callback e'" "e' \<in> set (consumer_edges f)" "?net j = Some (g, b)"
          "e' \<in> set (producer_edges g)" "sub_data d' \<in> set (unit_payloads (d_pubs D (m_svsPubSub g)))"
        with d'(2) show thesis by (intro that) (simp_all del: list.set_map)
      qed simp
      obtain p' where p': "C j = Some p'" "set (producer_edges g) = out_edges p'"
        "has_pushed (d_json D) p' (unit_payloads (d_pubs D (m_svsPubSub g)))"
      proof -
        obtain p' where "C j = Some p'" using g(2) by (auto simp: network_some)
        with network_state [OF assms(1) inv(1) this] g(2) that show thesis by auto
      qed
      have "from_texts (d_json D) C p'" using step(3) p'(1) by blast
      note origin = pushed_from_texts [OF p'(1) this p'(3) g(4)]
      have "out_edges p' = {e}" and e: "e \<in> in_edges p"
        using out_edges_single g(1,3) edges p'(2) by blast+
      with origin show ?thesis by (intro conjI impI) (simp_all only: singleton_iff)
    qed
    moreover have "from_texts (d_json D) C p" using step(3) handled(2) by blast
    ultimately have "from_texts (d_json D) C (handles evs p)" by (intro handles_origins) blast+
    with that handled(1) step(3) have "from_texts (d_json D) C q" by (auto split: if_splits)
    then show ?thesis by (rule step_keeps_origins [OF step(2)])
  next
    case (pushed k E argv turns)
    with that step(3) have "from_texts (d_json D) C q" by (auto split: if_splits)
    then show ?thesis by (rule step_keeps_origins [OF step(2)])
  qed
  then show ?case by blast
qed simp

lemma counted_from_texts:
  fixes C :: "'n application_run"
  assumes "from_texts J C (Wordcount E argv batches)"
    and "w \<in> set (map (map tolower) (concat (map (words \<circ> string_of_bytes) (delivered batches))))"
  obtains j E' argv' turns content v where "C j = Some (Text2lines E' argv' turns)"
    and "text2lines_ready J E' ([] :: 'n turn list) argv' word_count_dag (word_count_nodes ! 0) content"
    and "v \<in> set (words content)" and "w = map tolower v"
proof -
  obtain d v where d: "d \<in> set (delivered batches)" "v \<in> set (words (string_of_bytes d))" "w = map tolower v"
    using assms(2) by auto
  obtain l where l: "text_line J C l" "d \<in> set (words_out l)" using assms(1) d(1) by auto
  then obtain v' where v': "v' \<in> set (words (string_of_bytes l))" "d = bytes_of_string v'" by auto
  have "v = v'" using d(2) words_of_word [OF v'(1)] by (simp add: v'(2))
  obtain j E' argv' turns content where j: "C j = Some (Text2lines E' argv' turns)"
    "text2lines_ready J E' ([] :: 'n turn list) argv' word_count_dag (word_count_nodes ! 0) content"
    "l \<in> bytes_of_string ` set (getlines content)"
    using l(1) unfolding text_line_def by blast
  then obtain x where "x \<in> set (getlines content)" "string_of_bytes l = x" by auto
  with v'(1) \<open>v = v'\<close> have "v \<in> set (concat (map words (getlines content)))" by auto
  then have "v \<in> set (words content)" by (simp only: words_getlines)
  from that [OF j(1,2) this d(3)] show thesis .
qed

section \<open>An example run\<close>

definition word_count_deployment :: "(ref_svs, jval, component list, unit, program_state) deployment" where
  "word_count_deployment =
     \<lparr>d_svs = ref_ndn, d_json = word_count_json, d_used = rs_count, d_subs = ref_subs, d_pubs = rs_pubs,
      d_matches = prefix,
      d_app = (\<lambda>i. if i < 3 then lift_app Splitter splitter_state (lines2words_app (wall_clock word_count_env) ''l2w'')
        else lift_app Counter counter_state (wordcount_app (wall_clock word_count_env))),
      d_topics = application_topics\<rparr>"

lemma word_count_deployment_sels [simp]:
  "d_svs word_count_deployment = ref_ndn" "d_json word_count_deployment = word_count_json"
  "d_used word_count_deployment = rs_count" "d_subs word_count_deployment = ref_subs"
  "d_pubs word_count_deployment = rs_pubs" "d_matches word_count_deployment = prefix"
  "d_topics word_count_deployment = application_topics"
  by (simp_all add: word_count_deployment_def)

lemma word_count_json_sels:
  "j_at word_count_json = jval_at" "j_contains word_count_json = jval_contains"
  "j_value_string word_count_json = jval_value_string" "j_value word_count_json = jval_value"
  "j_object word_count_json = JObject []" "j_elems word_count_json = jval_elems"
  "j_items word_count_json = jval_items" "j_get_string word_count_json = jval_get_string"
  "j_get_u32 word_count_json = jval_get_word" "j_get_u64 word_count_json = jval_get_word"
  "j_get_object word_count_json = jval_get_object"
  "j_is_number_integer word_count_json = jval_is_number_integer"
  "j_of_u64 word_count_json n = JNumber (uint n)" "j_dump word_count_json = jval_dump"
  "j_read word_count_json bs = (if bs = dag_contents then Inr word_count_document else jval_read bs)"
  "j_parse word_count_json = jval_parse"
  by (simp_all add: word_count_json_def)

interpretation word_count_api: json_api word_count_json JString JObject JArray
  by unfold_locales
    (auto simp: word_count_json_sels jval_parse_def ordered_keys_def split: option.splits)

lemma word_count_topic_names:
  "topicName ref_ndn ''WordCount'' ''t2l'' q = [Text ''WordCount'', Text ''t2l'', Number (ucast q)]"
  "topicName ref_ndn ''WordCount'' ''l2w'' q = [Text ''WordCount'', Text ''l2w'', Number (ucast q)]"
  "backchannelName ref_ndn ''WordCount/t2l'' = [Text ''WordCount'', Text ''t2l'', Text ''backchannel'']"
  "backchannelName ref_ndn ''WordCount/l2w'' = [Text ''WordCount'', Text ''l2w'', Text ''backchannel'']"
  by (simp_all add: topicName_def backchannelName_def ref_name_of_def)

interpretation word_count_net:
  deployed word_count_deployment ref_inv rs_store JString JObject JArray
proof (rule deployed.intro)
  show "deployed_axioms word_count_deployment"
    by unfold_locales (auto simp: application_topics_def word_count_topic_names ucast_u32_inject)
qed (simp_all add: ref_svs.svs_axioms word_count_api.json_api_axioms)

text \<open>What a process has pushed on a partition it has, a process that reads the partition can be given.\<close>

lemma pushed_unit:
  fixes D :: "('ps, jval, 'n, unit, program_state) deployment"
  assumes "deployed D invar store of_str of_obj of_arr" and "started_well D C"
    and "net_reach D (application_network (d_svs D) (d_json D) C)"
    and "C j = Some p" and "out_edges p = {e}"
    and "application_network (d_svs D) (d_json D) C j = Some (g, b)"
    and "x \<in> set (unit_payloads (d_pubs D (m_svsPubSub g)))"
  obtains n who seq q where "(n, x, who, seq) \<in> set (d_pubs D (m_svsPubSub g))"
    and "n = topicName (d_svs D) (m_syncPrefix g) e q" and "q < edge_partitions e"
proof -
  obtain n who seq where pub: "(n, x, who, seq) \<in> set (d_pubs D (m_svsPubSub g))" "who \<noteq> None"
    using assms(7) by (auto simp: unit_payloads_def)
  have "justified D (application_network (d_svs D) (d_json D) C) g (n, x, who, seq)"
    using deployed.reach_ok [OF assms(1,3)] assms(6) pub(1) unfolding network_ok_def by blast
  then obtain e' where data: "data_publication (d_svs D) g e' (n, x, who, seq)"
    using pub(2) by (auto simp: justified_def ack_publication_def)
  have "set (producer_edges g) = {e}"
    and counts: "\<forall>e \<in> set (producer_edges g). map_of (partition_counts g) e = Some (edge_partitions e)"
  proof -
    obtain f a where f: "application_network (d_svs D) (d_json D) C j = Some (f, a)" "set (producer_edges f) = out_edges p"
      "\<forall>e \<in> set (producer_edges f). map_of (partition_counts f) e = Some (edge_partitions e)"
      using network_state [OF assms(1,2,4)] by blast
    have "f = g" using f(1) assms(6) by simp
    with f(2,3) assms(5) show "set (producer_edges g) = {e}"
      and "\<forall>e \<in> set (producer_edges g). map_of (partition_counts g) e = Some (edge_partitions e)" by simp_all
  qed
  with data_publication_edge [OF data] have e': "e' = e" and "map_of (partition_counts g) e = Some (edge_partitions e)"
    by blast+
  with data obtain q where "n = topicName (d_svs D) (m_syncPrefix g) e q" "q < edge_partitions e"
    by (auto simp: data_publication_def)
  with pub(1) that show thesis by blast
qed

lemma application_prefix:
  fixes D :: "('ps, jval, 'n, unit, program_state) deployment"
  assumes "deployed D invar store of_str of_obj of_arr" and "net_reach D s" and "s i = Some (f, a)"
    and "d_topics D = application_topics" and "e \<in> set (producer_edges f) \<union> set (consumer_edges f)"
  shows "m_syncPrefix f = ''WordCount''"
proof -
  have "process_ok D invar f"
    using deployed.network_process(1) [OF assms(1) deployed.reach_ok [OF assms(1,2)] assms(3)] .
  from deployed.edge_topic [OF assms(1) this assms(5)] show ?thesis
    by (auto simp: assms(4) application_topics_def)
qed

lemma reader_given:
  fixes D :: "('ps, jval, 'n, unit, program_state) deployment"
  assumes "deployed D invar store of_str of_obj of_arr" and "net_reach D s"
    and "s i = Some (f, a)" and "s j = Some (g, b)"
    and "(topicName (d_svs D) (m_syncPrefix f) e q, x, who, seq) \<in> set (d_pubs D (m_svsPubSub g))"
    and "reads (d_svs D) (d_subs D) e f = Some R" and "q \<in> R"
    and "\<And>n. d_matches D n n"
  shows "can_happen D s f (Arrived (Consumer_callback e)
    \<lparr>sub_name = topicName (d_svs D) (m_syncPrefix f) e q, sub_data = x, sub_seqNo = seq\<rparr> now)"
proof -
  obtain c where c: "map_of (m_iceflowConsumers f) e = Some c"
    and sub: "Some (partition_sub (d_svs D) e c q) \<in> d_subs D (m_svsPubSub f) ` set (m_subscriptionHandles c)"
    using assms(6,7) by (auto simp: reads_def)
  have "node_wf (d_svs D) f"
    using deployed.network_process(3) [OF assms(1) deployed.reach_ok [OF assms(1,2)] assms(3)] .
  with map_of_SomeD [OF c] have "m_subTopic c = m_syncPrefix f @ ''/'' @ e" by (auto simp: node_wf_def)
  then have "partition_sub (d_svs D) e c q = (topicName (d_svs D) (m_syncPrefix f) e q, Consumer_callback e)"
    by (simp add: partition_sub_def consumer_prepareDataName_def topicName_def)
  with sub have "(topicName (d_svs D) (m_syncPrefix f) e q, Consumer_callback e) \<in> ran (d_subs D (m_svsPubSub f))"
    by (auto simp: ran_def image_iff eq_commute)
  with assms(4,5,8) show ?thesis unfolding can_happen_def by fastforce
qed

abbreviation text2lines_command :: "string list" where
  "text2lines_command \<equiv> [''text2lines'', ''../application-DAG.json'']"

abbreviation lines2words_command :: "string \<Rightarrow> string list" where
  "lines2words_command k \<equiv> [''lines2words'', ''../application-DAG.json'', k, ''2'']"

abbreviation wordcount_command :: "string list" where
  "wordcount_command \<equiv> [''wordcount'', ''../application-DAG.json'']"

text \<open>
  Four processes; a line is pushed and delivered to the instance that reads its partition, one of its
  words is delivered to the counter. The partition of the line is the one its generator draws.
\<close>

lemma instance_reads:
  fixes q :: u32
  assumes "q < 3"
  obtains k i where "stoi k = Inr i"
    and "word_of_int i \<le> q" and "q \<le> 3" and "(unat q - unat (word_of_int i :: u32)) mod 2 = 0"
proof -
  have "stoi ''0'' = Inr 0" by (simp add: stoi_def is_space_def digit_value_def)
  moreover have "q = 0 \<or> q = 1 \<or> q = 2" by (rule below_three [OF assms])
  ultimately show thesis
    using that [of "''0''" 0] that [of "''1''" 1] stoi_examples(1) by auto
qed

lemma launch_more:
  assumes "application_reach D C" and "C i = None" and "begins p" and "on_word_count (d_json D) p" and "runs_code (d_app D i) p"
  shows "application_reach D (C(i \<mapsto> p))"
  using rtranclp.rtrancl_into_rtrancl [where r = "application_step D", OF assms(1)
      application_step.launched [where C = C and i = i, OF assms(2-5)]] .

text \<open>The text of the example run is one word.\<close>

definition one_word_env :: environment where
  "one_word_env = word_count_env\<lparr>text_files := [''sourcetext.txt'' \<mapsto> ''The'']\<rparr>"

lemma one_word_ready:
  assumes "list_all (turn_undisturbed word_count_json) turns"
  shows "text2lines_ready word_count_json one_word_env turns text2lines_command word_count_dag (word_count_nodes ! 0) ''The''"
proof -
  have "deployable word_count_json one_word_env ''../application-DAG.json'' ''text2lines'' word_count_dag (word_count_nodes ! 0)"
    using word_count_deployable(1) unfolding deployable_def one_word_env_def by (simp del: word_count_nodes_def)
  moreover have "\<not> use_grpc one_word_env" by (simp add: one_word_env_def word_count_env_def)
  moreover have "\<exists>v name. map_of (node_applicationConfiguration (word_count_nodes ! 0)) ''sourceTextFileName'' = Some v \<and>
      j_get_string word_count_json v = Inr name \<and> text_files one_word_env name = Some ''The''"
    by (simp add: word_count_nodes_def task_node_def word_count_json_def one_word_env_def)
  ultimately show ?thesis
    using assms word_count_edges(1) word_count_nodes_edges(1) unfolding text2lines_ready_def
    by (intro conjI) (assumption | simp (no_asm_simp))+
qed

lemma one_word_parts: "getlines ''The'' = [''The'']" "words ''The'' = [''The'']"
  by (simp_all add: getlines_def words_def is_space_def)

abbreviation source_process where
  "source_process turns \<equiv> Text2lines one_word_env text2lines_command turns"
abbreviation splitter_process where
  "splitter_process k batches \<equiv> Lines2words word_count_env (lines2words_command k) batches"
abbreviation counter_process where
  "counter_process batches \<equiv> Wordcount word_count_env wordcount_command batches"

lemma example_processes:
  "on_word_count word_count_json (source_process [])"
  "stoi k = Inr i \<Longrightarrow> on_word_count word_count_json (splitter_process k [])"
  "on_word_count word_count_json (counter_process [])"
proof -
  have "list_all (turn_undisturbed word_count_json) []" by simp
  from one_word_ready [OF this] show "on_word_count word_count_json (source_process [])"
    unfolding on_word_count.simps by blast
  have batches: "list_all (list_all (undisturbed word_count_json e)) []" for e by simp
  from example_ready(2) [OF batches] show "stoi k = Inr i \<Longrightarrow> on_word_count word_count_json (splitter_process k [])"
    unfolding on_word_count.simps by blast
  from example_ready(3) [OF batches] show "on_word_count word_count_json (counter_process [])"
    unfolding on_word_count.simps .
qed

lemma example_pushing:
  "application_reach word_count_deployment [0 \<mapsto> source_process [Push_turn]]"
proof -
  let ?C = "[0 \<mapsto> source_process []]"
  have "application_reach word_count_deployment ?C"
    by (rule launch_more [where C = Map.empty, OF rtranclp.rtrancl_refl])
      (use example_processes(1) in \<open>simp_all del: on_word_count.simps\<close>)
  moreover have "application_step word_count_deployment ?C (?C(0 \<mapsto> source_process ([] @ [Push_turn])))"
    by (rule application_step.pushed) simp
  ultimately have "application_reach word_count_deployment (?C(0 \<mapsto> source_process ([] @ [Push_turn])))"
    by (rule rtranclp.rtrancl_into_rtrancl [where r = "application_step word_count_deployment"])
  then show ?thesis by simp
qed

lemma example_launched:
  assumes "stoi k = Inr i"
  shows "application_reach word_count_deployment
    [0 \<mapsto> source_process [Push_turn], 1 \<mapsto> splitter_process k [], 3 \<mapsto> counter_process []]"
proof -
  let ?C = "[0 \<mapsto> source_process [Push_turn]]"
  have "application_reach word_count_deployment (?C(1 \<mapsto> splitter_process k []))"
    by (rule launch_more [OF example_pushing])
      (use example_processes(2) [OF assms] in \<open>simp_all add: word_count_deployment_def del: on_word_count.simps\<close>)
  then have "application_reach word_count_deployment (?C(1 \<mapsto> splitter_process k [], 3 \<mapsto> counter_process []))"
    by (rule launch_more) (use example_processes(3) in \<open>simp_all add: word_count_deployment_def del: on_word_count.simps\<close>)
  then show ?thesis by simp
qed

lemma example_delivery:
  assumes "application_reach word_count_deployment C"
    and "application_network ref_ndn word_count_json C j = Some (g, b)"
    and "(topicName ref_ndn ''WordCount'' e q, x, who, seq) \<in> set (rs_pubs (m_svsPubSub g))"
    and "C i = Some p" and "application_network ref_ndn word_count_json C i = Some (f, a)"
    and "e \<in> set (consumer_edges f)" and "reads ref_ndn ref_subs e f = Some R" and "q \<in> R"
  obtains d where "sub_data d = x"
    and "application_reach word_count_deployment (C(i \<mapsto> handles [Arrived (Consumer_callback e) d 0] p))"
proof -
  let ?D = word_count_deployment and ?net = "application_network ref_ndn word_count_json C"
    and ?d = "\<lparr>sub_name = topicName ref_ndn ''WordCount'' e q, sub_data = x, sub_seqNo = seq\<rparr>"
  note dep = word_count_net.deployed_axioms
  have reach: "net_reach ?D ?net"
    using application_run_network [OF dep _ assms(1)] by simp
  have "m_syncPrefix f = ''WordCount''"
    using application_prefix [where i = i, OF dep reach assms(5), of e] assms(6) by simp
  with reader_given [where i = i and j = j, OF dep reach assms(5,2), of e q x who seq R 0] assms(3,7,8)
  have "can_happen ?D ?net f (Arrived (Consumer_callback e) ?d 0)" by simp
  then have "application_step ?D C (C(i \<mapsto> handles [Arrived (Consumer_callback e) ?d 0] p))"
    using assms(4,5) by (intro application_step.handled [where f = f and a = a]) simp_all
  from rtranclp.rtrancl_into_rtrancl [where r = "application_step ?D", OF assms(1) this] that [of ?d]
  show thesis by simp
qed

lemma example_consumes:
  assumes "application_reach word_count_deployment C" and "C i = Some p"
    and "application_network ref_ndn word_count_json C i = Some (f, a)" and "e \<in> in_edges p"
  shows "e \<in> set (consumer_edges f)"
proof -
  have "started_well word_count_deployment C"
    using application_run_network [OF word_count_net.deployed_axioms _ assms(1)] by simp
  from network_state [OF word_count_net.deployed_axioms this assms(2)] assms(3,4) show ?thesis
    by (auto simp del: list.set_map)
qed

lemma example_pushed_unit:
  assumes "application_reach word_count_deployment C" and "C j = Some p" and "out_edges p = {e}"
    and "application_network ref_ndn word_count_json C j = Some (g, b)"
    and "x \<in> set (unit_payloads (rs_pubs (m_svsPubSub g)))"
  obtains who seq q where "(topicName ref_ndn ''WordCount'' e q, x, who, seq) \<in> set (rs_pubs (m_svsPubSub g))"
    and "q < edge_partitions e"
proof -
  let ?D = word_count_deployment and ?net = "application_network ref_ndn word_count_json C"
  note dep = word_count_net.deployed_axioms
  have inv: "started_well ?D C" "net_reach ?D ?net"
    using application_run_network [OF dep _ assms(1)] by simp_all
  have "set (producer_edges g) = {e}"
    using network_state [OF dep inv(1) assms(2)] assms(3,4) by (auto simp del: list.set_map)
  then have "m_syncPrefix g = ''WordCount''"
    using application_prefix [where i = j and e = e, OF dep inv(2), of g b] assms(4) by simp
  with pushed_unit [OF dep inv(1) _ assms(2,3), of g b x] inv(2) assms(4,5) that show thesis by simp metis
qed

text \<open>
  The run: a line is pushed and delivered to the instance that reads its partition, a word of it is
  delivered to the counter. The partition of the line is the one the generator of the producer draws.
\<close>

lemma example_run:
  obtains C batches f s k lines where "application_reach word_count_deployment C"
    and "C 3 = Some (counter_process batches)"
    and "wordcount_main ref_ndn word_count_json word_count_env batches wordcount_command = Live (f, s)"
    and "count_of (wordCountMap s) ''the'' = 1" and "dom C = {0, 1, 3}"
    and "C 0 = Some (source_process [Push_turn])" and "C 1 = Some (splitter_process k lines)"
    and "delivered lines = [bytes_of_string ''The'']" and "delivered batches = [bytes_of_string ''The'']"
proof -
  let ?net = "application_network ref_ndn word_count_json"
  let ?C0 = "[0 \<mapsto> source_process [Push_turn]] :: component list application_run"
  obtain g where g: "execution_state ref_ndn word_count_json (source_process [Push_turn]) = Some (g, Source)"
    "unit_payloads (rs_pubs (m_svsPubSub g)) = [bytes_of_string ''The'']"
  proof -
    obtain t where "text2lines_main ref_ndn word_count_json one_word_env [Push_turn] text2lines_command = Live t"
      "unit_payloads (rs_pubs (m_svsPubSub (node t))) = [bytes_of_string ''The'']"
      using text2lines_run_trace [OF ref_svs.svs_axioms one_word_ready [of "[Push_turn]"]]
      by (auto simp: pushes_in_def one_word_parts)
    with that show thesis by simp
  qed
  have at0: "?C0 0 = Some (source_process [Push_turn])" "out_edges (source_process [Push_turn]) = {''t2l''}"
    "?net ?C0 0 = Some (g, Source)" "bytes_of_string ''The'' \<in> set (unit_payloads (rs_pubs (m_svsPubSub g)))"
    using g by (simp_all add: application_network_def)
  obtain who seq q where line:
    "(topicName ref_ndn ''WordCount'' ''t2l'' q, bytes_of_string ''The'', who, seq) \<in> set (rs_pubs (m_svsPubSub g))"
    and "q < edge_partitions ''t2l''"
    by (rule example_pushed_unit [OF example_pushing at0])
  then have "q < 3" by (simp add: edge_partitions_def)
  obtain k i where k: "stoi k = Inr i" "word_of_int i \<le> q" "q \<le> 3" "(unat q - unat (word_of_int i :: u32)) mod 2 = 0"
    by (rule instance_reads [OF \<open>q < 3\<close>])
  let ?C1 = "[0 \<mapsto> source_process [Push_turn], 1 \<mapsto> splitter_process k [], 3 \<mapsto> counter_process []]
    :: component list application_run"
  note reach1 = example_launched [OF k(1)]
  have batches: "list_all (list_all (undisturbed word_count_json e)) []" for e by simp
  obtain f1 s1 where f1: "lines2words_main ref_ndn word_count_json word_count_env [] (lines2words_command k) = Live (f1, s1)"
    "reads ref_ndn ref_subs ''t2l'' f1 = Some {p. word_of_int i \<le> p \<and> p \<le> 3 \<and> (unat p - unat (word_of_int i :: u32)) mod 2 = 0}"
    using lines2words_run_trace [OF ref_svs.svs_axioms example_ready(2) [OF batches k(1)]] by auto
  have net1: "?net ?C1 0 = Some (g, Source)" "?net ?C1 1 = Some (f1, Splitter s1)"
    using g(1) f1(1) by (simp_all add: application_network_def)
  have at1: "?C1 1 = Some (splitter_process k [])" by simp
  have e1: "''t2l'' \<in> set (consumer_edges f1)" by (rule example_consumes [OF reach1 at1 net1(2)]) simp
  have "q \<in> {p. word_of_int i \<le> p \<and> p \<le> 3 \<and> (unat p - unat (word_of_int i :: u32)) mod 2 = 0}"
    using k(2-4) by blast
  from example_delivery [OF reach1 net1(1) line at1 net1(2) e1 f1(2) this]
  obtain d1 where d1: "sub_data d1 = bytes_of_string ''The''" "application_reach word_count_deployment
      (?C1(1 \<mapsto> handles [Arrived (Consumer_callback ''t2l'') d1 0] (splitter_process k [])))" .
  let ?b1 = "[[Arrived (Consumer_callback ''t2l'') d1 0]]"
  let ?C2 = "[0 \<mapsto> source_process [Push_turn], 1 \<mapsto> splitter_process k ?b1, 3 \<mapsto> counter_process []]
    :: component list application_run"
  have "?C1(1 \<mapsto> handles [Arrived (Consumer_callback ''t2l'') d1 0] (splitter_process k [])) = ?C2"
    by (simp add: fun_eq_iff)
  with d1(2) have reach2: "application_reach word_count_deployment ?C2" by simp
  have ok1: "list_all (list_all (undisturbed word_count_json ''t2l'')) ?b1" by simp
  obtain f2 s2 where f2: "lines2words_main ref_ndn word_count_json word_count_env ?b1 (lines2words_command k) = Live (f2, s2)"
    "unit_payloads (rs_pubs (m_svsPubSub f2)) = concat (map words_out (delivered ?b1))"
    using lines2words_run_trace [OF ref_svs.svs_axioms example_ready(2) [OF ok1 k(1)]] by blast
  have "bytes_of_string ''The'' \<in> set (unit_payloads (rs_pubs (m_svsPubSub f2)))"
    unfolding f2(2) by (simp add: d1(1) one_word_parts)
  note word_in = this
  have at2: "?C2 1 = Some (splitter_process k ?b1)" "out_edges (splitter_process k ?b1) = {''l2w''}"
    "?net ?C2 1 = Some (f2, Splitter s2)" using f2(1) by (simp_all add: application_network_def)
  obtain who' seq' q' where word:
    "(topicName ref_ndn ''WordCount'' ''l2w'' q', bytes_of_string ''The'', who', seq') \<in> set (rs_pubs (m_svsPubSub f2))"
    and "q' < edge_partitions ''l2w''"
    by (rule example_pushed_unit [OF reach2 at2 word_in])
  then have "q' \<in> {0}" by (simp add: edge_partitions_def word_less_nat_alt word_unat_eq_iff)
  obtain f3 s3 where f3: "wordcount_main ref_ndn word_count_json word_count_env [] wordcount_command = Live (f3, s3)"
    "reads ref_ndn ref_subs ''l2w'' f3 = Some {0}"
    using wordcount_run_trace [OF ref_svs.svs_axioms example_ready(3) [OF batches]] by auto
  have at3: "?C2 3 = Some (counter_process [])" "?net ?C2 3 = Some (f3, Counter s3)"
    using f3(1) by (simp_all add: application_network_def)
  have e3: "''l2w'' \<in> set (consumer_edges f3)" by (rule example_consumes [OF reach2 at3]) simp
  from example_delivery [OF reach2 at2(3) word at3 e3 f3(2) \<open>q' \<in> {0}\<close>]
  obtain d2 where d2: "sub_data d2 = bytes_of_string ''The''" "application_reach word_count_deployment
      (?C2(3 \<mapsto> handles [Arrived (Consumer_callback ''l2w'') d2 0] (counter_process [])))" .
  let ?b2 = "[[Arrived (Consumer_callback ''l2w'') d2 0]]"
  have ok2: "list_all (list_all (undisturbed word_count_json ''l2w'')) ?b2" by simp
  obtain f s where "wordcount_main ref_ndn word_count_json word_count_env ?b2 wordcount_command = Live (f, s)"
    "\<forall>w. count_of (wordCountMap s) w =
       int (count (mset (map (map tolower) (concat (map (words \<circ> string_of_bytes) (delivered ?b2))))) w)"
    using wordcount_run_trace [OF ref_svs.svs_axioms example_ready(3) [OF ok2]] by blast
  moreover from this(2) have "count_of (wordCountMap s) ''the'' = 1"
    by (simp add: d2(1) words_def is_space_def lower_chars)
  moreover have "dom (?C2(3 \<mapsto> handles [Arrived (Consumer_callback ''l2w'') d2 0] (counter_process []))) = {0, 1, 3}"
    by auto
  ultimately show thesis by (intro that [OF d2(2), of ?b2 f s k ?b1]) (simp_all add: d1(1) d2(1))
qed

section \<open>Properties\<close>

text \<open>
  C5: a run of the word count application is a run of the network. Start any number of processes of the
  three programs on the DAG of the repository, at any time, and let the event loops handle batches
  of what the network can deliver to them and the lines be pushed, in any order. Every process stays
  live, and the states of the processes together are reached by steps of the network: what is
  shown of the reachable states of a deployment holds of the application.
\<close>

theorem application_runs_network:
  fixes D :: "('ps, jval, 'n, unit, program_state) deployment"
  assumes "deployed D invar store of_str of_obj of_arr" and "application_topics \<subseteq> d_topics D"
    and "application_reach D C"
  shows "net_reach D (application_network (d_svs D) (d_json D) C) \<and>
    dom (application_network (d_svs D) (d_json D) C) = dom C"
proof -
  have run: "started_well D C" "net_reach D (application_network (d_svs D) (d_json D) C)"
    using application_run_network [OF assms] by blast+
  have "dom (application_network (d_svs D) (d_json D) C) \<subseteq> dom C" by (auto simp: network_some)
  moreover have "dom C \<subseteq> dom (application_network (d_svs D) (d_json D) C)"
    using network_state [OF assms(1) run(1)] by blast
  ultimately show ?thesis using run(2) by blast
qed

theorem application_runs_network_witness:
  "\<exists>C. application_reach word_count_deployment C \<and>
     net_reach word_count_deployment (application_network ref_ndn word_count_json C) \<and>
     dom (application_network ref_ndn word_count_json C) = {0, 1, 3}"
proof (rule example_run)
  fix C
  assume run: "application_reach word_count_deployment C" "dom C = {0, 1, 3}"
  have "application_topics \<subseteq> d_topics word_count_deployment" by simp
  from application_runs_network [OF word_count_net.deployed_axioms this run(1)] run
  show ?thesis unfolding word_count_deployment_sels by (intro exI [of _ C]) simp
qed

text \<open>
  C4: only words of the text are counted. In every run of the word count application, whatever is
  delivered, in whichever order and however often, a word with a positive count at a
  \<open>wordcount\<close> process is, in lower case, a word of the source file of some \<open>text2lines\<close> process of
  the run.
\<close>

theorem counted_words_occur:
  fixes D :: "('ps, jval, 'n, unit, program_state) deployment"
  assumes "deployed D invar store of_str of_obj of_arr" and "application_topics \<subseteq> d_topics D"
    and "application_reach D C" and "C i = Some (Wordcount E argv batches)"
    and "wordcount_main (d_svs D) (d_json D) E batches argv = Live (f, s)" and "0 < count_of (wordCountMap s) w"
  shows "\<exists>j E' argv' turns content v. C j = Some (Text2lines E' argv' turns) \<and>
    text2lines_ready (d_json D) E' ([] :: 'n turn list) argv' word_count_dag (word_count_nodes ! 0) content \<and>
    v \<in> set (words content) \<and> w = map tolower v"
proof -
  have svs: "svs (d_svs D) invar (d_used D) (d_subs D) (d_pubs D) store" using assms(1) by (simp add: deployed_def)
  have "started_well D C" using application_run_network [OF assms(1-3)] by blast
  then have "on_word_count (d_json D) (Wordcount E argv batches)"
    using assms(4) unfolding started_well_def by blast
  then have ready: "wordcount_ready (d_json D) E batches argv word_count_dag (word_count_nodes ! 2) l2w_edge" by simp
  let ?ws = "map (map tolower) (concat (map (words \<circ> string_of_bytes) (delivered batches)))"
  obtain f' s' where live: "wordcount_main (d_svs D) (d_json D) E batches argv = Live (f', s')"
    "\<forall>w. count_of (wordCountMap s') w = int (count (mset ?ws) w)"
    using wordcount_run_trace [OF svs ready] by blast
  have "s' = s" using live(1) assms(5) by simp
  with live(2) assms(6) have "0 < count (mset ?ws) w" by simp
  then have w: "w \<in> set ?ws" by (simp only: count_greater_zero_iff set_mset_mset)
  have "from_texts (d_json D) C (Wordcount E argv batches)"
    using application_origins [OF assms(1-3)] assms(4) by blast
  then show ?thesis
    by (rule counted_from_texts [OF _ w]) (intro exI conjI; assumption)
qed

theorem counted_words_occur_witness:
  "\<exists>C batches f s j E argv turns content v. application_reach word_count_deployment C \<and>
     wordcount_main ref_ndn word_count_json word_count_env batches wordcount_command = Live (f, s) \<and>
     count_of (wordCountMap s) ''the'' = 1 \<and> C j = Some (Text2lines E argv turns) \<and>
     v \<in> set (words content) \<and> ''the'' = map tolower v"
proof (rule example_run)
  fix C batches f s
  assume run: "application_reach word_count_deployment C" "C 3 = Some (counter_process batches)"
    and live: "wordcount_main ref_ndn word_count_json word_count_env batches wordcount_command = Live (f, s)"
    and one: "count_of (wordCountMap s) ''the'' = 1"
  have "application_topics \<subseteq> d_topics word_count_deployment" by simp
  moreover have "wordcount_main (d_svs word_count_deployment) (d_json word_count_deployment) word_count_env batches
      wordcount_command = Live (f, s)" using live by simp
  moreover have "0 < count_of (wordCountMap s) ''the''" using one by simp
  ultimately have "\<exists>j E' argv' turns content v. C j = Some (Text2lines E' argv' turns) \<and>
    text2lines_ready (d_json word_count_deployment) E' ([] :: component list turn list) argv' word_count_dag
      (word_count_nodes ! 0) content \<and> v \<in> set (words content) \<and> ''the'' = map tolower v"
    by (rule counted_words_occur [OF word_count_net.deployed_axioms _ run])
  with run(1) live one show ?thesis by (elim exE conjE) (intro exI conjI; assumption)
qed

end
