(* ===== verification/Word_Totals.thy ===== *)
theory Word_Totals
  imports Word_Count_Network "HOL-Library.Multiset"
begin

text \<open>
  The totals of the word count application: over all processes of a run, the words counted are at most
  the words of the texts when no unit is delivered more often than it was pushed, and exactly
  these when every line was pushed and every unit delivered once.
\<close>

section \<open>What is pushed, received and counted\<close>

text \<open>The words in payloads, in lower case.\<close>

definition words_in :: "byte list multiset \<Rightarrow> string multiset" where
  "words_in M = \<Sum>\<^sub># (image_mset (\<lambda>d. mset (map (map tolower) (words (string_of_bytes d)))) M)"

lemma words_in_add [simp]: "words_in (M + N) = words_in M + words_in N"
  by (simp add: words_in_def)

lemma words_in_empty [simp]: "words_in {#} = {#}"
  by (simp add: words_in_def)

lemma words_in_sum: "words_in (\<Sum>i\<in>A. M i) = (\<Sum>i\<in>A. words_in (M i))"
  by (induction A rule: infinite_finite_induct) simp_all

lemma words_in_mono: "M \<subseteq># N \<Longrightarrow> words_in M \<subseteq># words_in N"
  by (auto simp: mset_subset_eq_exists_conv)

lemma words_in_list: "words_in (mset ds) = mset (map (map tolower) (concat (map (words \<circ> string_of_bytes) ds)))"
  by (induction ds) (simp_all add: words_in_def)

lemma words_in_words:
  "words_in (mset (concat (map words_out ds))) = words_in (mset ds)"
proof -
  have "concat (map (words \<circ> string_of_bytes) (words_out d)) = words (string_of_bytes d)" for d
  proof -
    have "concat (map words ws) = ws" if "\<forall>w \<in> set ws. words w = [w]" for ws
      using that by (induction ws) simp_all
    then show ?thesis using words_of_word by (simp add: comp_def)
  qed
  then have "words_in (mset (words_out d)) = words_in (mset [d])" for d
    unfolding words_in_list by simp
  then show ?thesis by (induction ds) (simp_all add: words_in_def)
qed

text \<open>The lines of a text have its words; a part of them has a part of its words.\<close>

lemma words_in_lines:
  "words_in (mset (map bytes_of_string (getlines t))) = mset (map (map tolower) (words t))"
proof -
  have "concat (map (words \<circ> string_of_bytes) (map bytes_of_string (getlines t))) = words t"
    by (simp add: comp_def words_getlines)
  then show ?thesis by (simp only: words_in_list)
qed

lemma words_in_take:
  "words_in (mset (take k (map bytes_of_string (getlines t)))) \<subseteq># mset (map (map tolower) (words t))"
proof -
  have "mset (take k xs) \<subseteq># mset xs" for xs :: "byte list list"
    by (metis append_take_drop_id mset_append mset_subset_eq_add_left)
  from words_in_mono [OF this] show ?thesis unfolding words_in_lines [symmetric] .
qed

fun received :: "'n execution \<Rightarrow> byte list multiset" where
  "received (Text2lines E argv turns) = {#}"
| "received (Lines2words E argv batches) = mset (delivered batches)"
| "received (Wordcount E argv batches) = mset (delivered batches)"

definition pushed_units ::
    "('ps, jval, 'n, unit, program_state) deployment \<Rightarrow> 'n execution \<Rightarrow> byte list multiset" where
  "pushed_units D p = (case execution_state (d_svs D) (d_json D) p of
     None \<Rightarrow> {#} | Some (f, a) \<Rightarrow> mset (unit_payloads (d_pubs D (m_svsPubSub f))))"

definition counted ::
    "('ps, jval, 'n, unit, program_state) deployment \<Rightarrow> string \<Rightarrow> 'n execution \<Rightarrow> int" where
  "counted D w p = (case execution_state (d_svs D) (d_json D) p of
     Some (f, Counter s) \<Rightarrow> count_of (wordCountMap s) w | _ \<Rightarrow> 0)"

text \<open>The text a \<open>text2lines\<close> process reads, and whether it has pushed all of it.\<close>

definition source_text :: "jval json_ops \<Rightarrow> environment \<Rightarrow> string option" where
  "source_text J E =
     Option.bind (map_of (node_applicationConfiguration (word_count_nodes ! 0)) ''sourceTextFileName'')
       (\<lambda>v. case j_get_string J v of Inl x \<Rightarrow> None | Inr name \<Rightarrow> text_files E name)"

fun text_words :: "jval json_ops \<Rightarrow> 'n execution \<Rightarrow> string multiset" where
  "text_words J (Text2lines E argv turns) =
     (case source_text J E of None \<Rightarrow> {#} | Some t \<Rightarrow> mset (map (map tolower) (words t)))"
| "text_words J (Lines2words E argv batches) = {#}"
| "text_words J (Wordcount E argv batches) = {#}"

fun all_pushed :: "jval json_ops \<Rightarrow> 'n execution \<Rightarrow> bool" where
  "all_pushed J (Text2lines E argv turns) \<longleftrightarrow>
     (case source_text J E of None \<Rightarrow> True | Some t \<Rightarrow> length (getlines t) \<le> pushes_in turns)"
| "all_pushed J (Lines2words E argv batches) \<longleftrightarrow> True"
| "all_pushed J (Wordcount E argv batches) \<longleftrightarrow> True"

lemma ready_source:
  "text2lines_ready J E turns argv word_count_dag (word_count_nodes ! 0) t \<Longrightarrow> source_text J E = Some t"
  unfolding text2lines_ready_def source_text_def by (elim conjE exE) simp

text \<open>All that was pushed on an edge and all that was received from it, in a run.\<close>

definition sent ::
    "('ps, jval, 'n, unit, program_state) deployment \<Rightarrow> 'n application_run \<Rightarrow> string \<Rightarrow> byte list multiset" where
  "sent D C e = (\<Sum>i\<in>dom C. if e \<in> out_edges (the (C i)) then pushed_units D (the (C i)) else {#})"

definition got :: "'n application_run \<Rightarrow> string \<Rightarrow> byte list multiset" where
  "got C e = (\<Sum>i\<in>dom C. if e \<in> in_edges (the (C i)) then received (the (C i)) else {#})"

section \<open>Process by process\<close>

lemma process_words:
  fixes D :: "('ps, jval, 'n, unit, program_state) deployment"
  assumes "deployed D invar store of_str of_obj of_arr" and "on_word_count (d_json D) p"
  shows "counted D w p = int (count (words_in (if ''l2w'' \<in> in_edges p then received p else {#})) w)"
    and "words_in (if ''l2w'' \<in> out_edges p then pushed_units D p else {#}) =
      words_in (if ''t2l'' \<in> in_edges p then received p else {#})"
    and "words_in (if ''t2l'' \<in> out_edges p then pushed_units D p else {#}) \<subseteq># text_words (d_json D) p"
    and "all_pushed (d_json D) p \<Longrightarrow>
      words_in (if ''t2l'' \<in> out_edges p then pushed_units D p else {#}) = text_words (d_json D) p"
proof -
  have svs: "svs (d_svs D) invar (d_used D) (d_subs D) (d_pubs D) store" using assms(1) by (simp add: deployed_def)
  obtain f a where f: "execution_state (d_svs D) (d_json D) p = Some (f, a)"
    "has_pushed (d_json D) p (unit_payloads (d_pubs D (m_svsPubSub f)))"
    using process_live [OF svs assms(2)] by blast
  have pushed: "pushed_units D p = mset (unit_payloads (d_pubs D (m_svsPubSub f)))"
    by (simp add: pushed_units_def f(1))
  show "counted D w p = int (count (words_in (if ''l2w'' \<in> in_edges p then received p else {#})) w)"
  proof (cases p)
    case (Wordcount E argv batches)
    with assms(2) have ready: "wordcount_ready (d_json D) E batches argv word_count_dag (word_count_nodes ! 2) l2w_edge"
      by simp
    obtain g s where live: "wordcount_main (d_svs D) (d_json D) E batches argv = Live (g, s)"
      and counts: "\<forall>w. count_of (wordCountMap s) w =
       int (count (mset (map (map tolower) (concat (map (words \<circ> string_of_bytes) (delivered batches))))) w)"
      using wordcount_run_trace [OF svs ready] by blast
    have "counted D w p = count_of (wordCountMap s) w" using live by (simp add: Wordcount counted_def)
    moreover have "count_of (wordCountMap s) w = int (count (words_in (mset (delivered batches))) w)"
      unfolding words_in_list by (rule spec [OF counts])
    ultimately show ?thesis by (simp add: Wordcount)
  qed (simp_all add: counted_def split: process.split prod.split)
  show "words_in (if ''l2w'' \<in> out_edges p then pushed_units D p else {#}) =
      words_in (if ''t2l'' \<in> in_edges p then received p else {#})"
  proof (cases p)
    case (Lines2words E argv batches)
    have "unit_payloads (d_pubs D (m_svsPubSub f)) = concat (map words_out (delivered batches))"
      using f(2) by (simp only: Lines2words has_pushed.simps)
    then have "pushed_units D p = mset (concat (map words_out (delivered batches)))" by (simp only: pushed)
    then have "words_in (pushed_units D p) = words_in (received p)"
      unfolding Lines2words received.simps by (simp only: words_in_words)
    then show ?thesis by (simp add: Lines2words)
  qed simp_all
  show "words_in (if ''t2l'' \<in> out_edges p then pushed_units D p else {#}) \<subseteq># text_words (d_json D) p"
  proof (cases p)
    case (Text2lines E argv turns)
    with f(2) obtain t where
      ready: "text2lines_ready (d_json D) E turns argv word_count_dag (word_count_nodes ! 0) t"
      and units: "unit_payloads (d_pubs D (m_svsPubSub f)) = take (pushes_in turns) (map bytes_of_string (getlines t))"
      by auto
    show ?thesis
      unfolding Text2lines pushed [unfolded Text2lines] units text_words.simps ready_source [OF ready]
      using words_in_take [of "pushes_in turns" t] by simp
  qed simp_all
  show "words_in (if ''t2l'' \<in> out_edges p then pushed_units D p else {#}) = text_words (d_json D) p"
    if full: "all_pushed (d_json D) p"
  proof (cases p)
    case (Text2lines E argv turns)
    with f(2) obtain t where
      ready: "text2lines_ready (d_json D) E turns argv word_count_dag (word_count_nodes ! 0) t"
      and units: "unit_payloads (d_pubs D (m_svsPubSub f)) = take (pushes_in turns) (map bytes_of_string (getlines t))"
      by auto
    have "length (getlines t) \<le> pushes_in turns" using full by (simp add: Text2lines ready_source [OF ready])
    then show ?thesis
      unfolding Text2lines pushed [unfolded Text2lines] units text_words.simps ready_source [OF ready]
      using words_in_lines [of t] by simp
  qed simp_all
qed

section \<open>Over a run\<close>

lemma run_finite: "application_reach D C \<Longrightarrow> finite (dom C)"
proof (induction rule: rtranclp_induct)
  case (step C C')
  from step(2) obtain i p where "C' = C(i \<mapsto> p)" by cases blast+
  then have "dom C' = insert i (dom C)" by auto
  with step(3) show ?case by simp
qed simp

lemma run_words:
  fixes D :: "('ps, jval, 'n, unit, program_state) deployment"
  assumes "deployed D invar store of_str of_obj of_arr" and "started_well D C" and "finite (dom C)"
  shows "(\<Sum>i\<in>dom C. counted D w (the (C i))) = int (count (words_in (got C ''l2w'')) w)"
    and "words_in (sent D C ''l2w'') = words_in (got C ''t2l'')"
    and "words_in (sent D C ''t2l'') \<subseteq># (\<Sum>i\<in>dom C. text_words (d_json D) (the (C i)))"
    and "\<forall>p \<in> ran C. all_pushed (d_json D) p \<Longrightarrow>
      words_in (sent D C ''t2l'') = (\<Sum>i\<in>dom C. text_words (d_json D) (the (C i)))"
proof -
  have ok: "on_word_count (d_json D) (the (C i))" if "i \<in> dom C" for i
    using assms(2) that by (auto simp: started_well_def)
  note words = process_words [OF assms(1) ok]
  have "(\<Sum>i\<in>dom C. counted D w (the (C i))) =
      (\<Sum>i\<in>dom C. int (count (words_in (if ''l2w'' \<in> in_edges (the (C i)) then received (the (C i)) else {#})) w))"
    by (rule sum.cong [OF refl]) (rule words(1))
  then show "(\<Sum>i\<in>dom C. counted D w (the (C i))) = int (count (words_in (got C ''l2w'')) w)"
    by (simp only: got_def words_in_sum count_sum of_nat_sum)
  show "words_in (sent D C ''l2w'') = words_in (got C ''t2l'')"
    unfolding sent_def got_def words_in_sum by (rule sum.cong [OF refl]) (rule words(2))
  have mono: "(\<Sum>i\<in>A. M i) \<subseteq># (\<Sum>i\<in>A. N i)" if "\<And>i. i \<in> A \<Longrightarrow> M i \<subseteq># N i" and "finite A"
    for A :: "nat set" and M N :: "nat \<Rightarrow> string multiset"
    using that(2,1) by (induction A rule: finite_induct) (simp_all add: subset_mset.add_mono)
  show "words_in (sent D C ''t2l'') \<subseteq># (\<Sum>i\<in>dom C. text_words (d_json D) (the (C i)))"
    unfolding sent_def words_in_sum by (rule mono [OF words(3) assms(3)])
  show "words_in (sent D C ''t2l'') = (\<Sum>i\<in>dom C. text_words (d_json D) (the (C i)))"
    if "\<forall>p \<in> ran C. all_pushed (d_json D) p"
  proof -
    have "all_pushed (d_json D) (the (C i))" if "i \<in> dom C" for i
      using \<open>\<forall>p \<in> ran C. all_pushed (d_json D) p\<close> that by (auto intro: ranI)
    then show ?thesis unfolding sent_def words_in_sum by (intro sum.cong [OF refl] words(4))
  qed
qed

section \<open>Properties\<close>

text \<open>
  C3: the application counts no word too often, and every word if nothing is lost. Take any run of
  the word count application, with any number of processes of each program, in which the units
  received from the two edges are among those pushed to them, each as often at most. Over all
  \<open>wordcount\<close> processes, a word is counted at most as often as it occurs, in lower case, in the
  texts of all \<open>text2lines\<close> processes. If every line was pushed and every unit received as often
  as it was pushed, the counts are exact. (A count is an
  \<open>int\<close> in the code: the statement is about runs in which none reaches \<open>2 ^ 31\<close>.)
\<close>

theorem totals_match_texts:
  fixes D :: "('ps, jval, 'n, unit, program_state) deployment"
  assumes "deployed D invar store of_str of_obj of_arr" and "application_topics \<subseteq> d_topics D"
    and "application_reach D C"
    and "got C ''t2l'' \<subseteq># sent D C ''t2l''" and "got C ''l2w'' \<subseteq># sent D C ''l2w''"
  shows "(\<Sum>i\<in>dom C. counted D w (the (C i))) \<le> int (count (\<Sum>i\<in>dom C. text_words (d_json D) (the (C i))) w) \<and>
    (got C ''t2l'' = sent D C ''t2l'' \<longrightarrow> got C ''l2w'' = sent D C ''l2w'' \<longrightarrow>
      (\<forall>p \<in> ran C. all_pushed (d_json D) p) \<longrightarrow>
      (\<Sum>i\<in>dom C. counted D w (the (C i))) = int (count (\<Sum>i\<in>dom C. text_words (d_json D) (the (C i))) w))"
proof -
  have "started_well D C" using application_run_network [OF assms(1-3)] by blast
  note words = run_words [OF assms(1) this run_finite [OF assms(3)]]
  have "words_in (got C ''l2w'') \<subseteq># words_in (got C ''t2l'')"
    using words_in_mono [OF assms(5)] words(2) by simp
  also have "words_in (got C ''t2l'') \<subseteq># (\<Sum>i\<in>dom C. text_words (d_json D) (the (C i)))"
    by (rule subset_mset.order_trans [OF words_in_mono [OF assms(4)] words(3)])
  finally have "count (words_in (got C ''l2w'')) w \<le> count (\<Sum>i\<in>dom C. text_words (d_json D) (the (C i))) w"
    by (rule mset_subset_eq_count)
  moreover have "words_in (got C ''l2w'') = (\<Sum>i\<in>dom C. text_words (d_json D) (the (C i)))"
    if "got C ''t2l'' = sent D C ''t2l''" "got C ''l2w'' = sent D C ''l2w''" "\<forall>p \<in> ran C. all_pushed (d_json D) p"
    using words(2) words(4) [OF that(3)] that(1,2) by simp
  ultimately show ?thesis unfolding words(1) by simp
qed

theorem totals_match_texts_witness:
  "\<exists>C. application_reach word_count_deployment C \<and> (\<Sum>i\<in>dom C. counted word_count_deployment ''the'' (the (C i))) = 1 \<and>
     (\<Sum>i\<in>dom C. counted word_count_deployment ''the'' (the (C i))) =
       int (count (\<Sum>i\<in>dom C. text_words word_count_json (the (C i))) ''the'')"
proof (rule example_run)
  fix C batches f s k lines
  let ?D = word_count_deployment
  assume reach: "application_reach ?D C" and dom: "dom C = {0, 1, 3}"
    and at: "C 3 = Some (counter_process batches)" "C 0 = Some (source_process [Push_turn])"
      "C 1 = Some (splitter_process k lines)"
    and live: "wordcount_main ref_ndn word_count_json word_count_env batches wordcount_command = Live (f, s)"
      "count_of (wordCountMap s) ''the'' = 1"
    and units: "delivered lines = [bytes_of_string ''The'']" "delivered batches = [bytes_of_string ''The'']"
  note dep = word_count_net.deployed_axioms
  have topics: "application_topics \<subseteq> d_topics ?D" by simp
  have well: "started_well ?D C" using application_run_network [OF dep topics reach] by blast
  have pushed: "pushed_units ?D p = mset ls"
    if p: "C i = Some p" and only: "\<And>ls'. has_pushed word_count_json p ls' \<Longrightarrow> ls' = ls" for i p ls
  proof -
    obtain g b where "execution_state ref_ndn word_count_json p = Some (g, b)"
      "has_pushed word_count_json p (unit_payloads (rs_pubs (m_svsPubSub g)))"
      using network_state [OF dep well p] p by (auto simp: application_network_def)
    with only show ?thesis by (auto simp: pushed_units_def)
  qed
  have source: "source_text word_count_json one_word_env = Some ''The''"
    using ready_source [OF one_word_ready [of "[]"]] by simp
  have "pushed_units ?D (source_process [Push_turn]) = mset [bytes_of_string ''The'']"
  proof (rule pushed [OF at(2)])
    fix ls'
    assume "has_pushed word_count_json (source_process [Push_turn :: component list turn]) ls'"
    then obtain t where "text2lines_ready word_count_json one_word_env [Push_turn :: component list turn]
        text2lines_command word_count_dag (word_count_nodes ! 0) t"
      and ls': "ls' = take (pushes_in [Push_turn :: component list turn]) (map bytes_of_string (getlines t))"
      by auto
    with ready_source [OF this(1)] source have "t = ''The''" by simp
    with ls' show "ls' = [bytes_of_string ''The'']" by (simp add: pushes_in_def one_word_parts)
  qed
  moreover have "pushed_units ?D (splitter_process k lines) = mset (concat (map words_out (delivered lines)))"
    by (rule pushed [OF at(3)]) simp
  ultimately have sent: "sent ?D C ''t2l'' = {#bytes_of_string ''The''#}"
    "sent ?D C ''l2w'' = {#bytes_of_string ''The''#}"
    using at dom units by (simp_all add: sent_def one_word_parts)
  have got: "got C ''t2l'' = {#bytes_of_string ''The''#}" "got C ''l2w'' = {#bytes_of_string ''The''#}"
    unfolding got_def dom using at units by simp_all
  have "got C ''t2l'' \<subseteq># sent ?D C ''t2l''" and "got C ''l2w'' \<subseteq># sent ?D C ''l2w''"
    unfolding sent got by simp_all
  note exact = totals_match_texts [OF dep topics reach this, of "''the''", THEN conjunct2]
  have "\<forall>p \<in> ran C. all_pushed word_count_json p"
  proof
    fix p
    assume "p \<in> ran C"
    then obtain i where i: "C i = Some p" by (auto simp: ran_def)
    then have "i \<in> dom C" by blast
    then have "i \<in> {0, 1, 3}" unfolding dom .
    then show "all_pushed word_count_json p"
      using i at source by (auto simp: one_word_parts pushes_in_def)
  qed
  then have "(\<Sum>i\<in>dom C. counted ?D ''the'' (the (C i))) =
      int (count (\<Sum>i\<in>dom C. text_words word_count_json (the (C i))) ''the'')"
    using exact sent got by simp
  moreover have "(\<Sum>i\<in>dom C. counted ?D ''the'' (the (C i))) = 1"
    using at live dom by (simp add: counted_def split: process.split)
  ultimately show ?thesis using reach by (intro exI [of _ C] conjI)
qed

end
