(* ===== verification/Spec2Isabelle.thy ===== *)
theory Spec2Isabelle
  imports Process_Ends Ring_Pops Scaled_Network Congestion Application_Calls Word_Totals
begin

text \<open>
  Verification development for IceFlow, a C++ library for stream processing over Named Data
  Networking. Paths are relative to the root of the repository.

  \<^bold>\<open>The program.\<close> An application is a DAG of tasks, read from a JSON file by \<open>DAGParser\<close>
  (\<open>src/dag-parser.cpp\<close>). Every process runs one node of the DAG: an \<open>IceFlow\<close> object
  (\<open>src/iceflow.cpp\<close>) holds one \<open>IceflowProducer\<close> per downstream edge (\<open>src/producer.cpp\<close>) and one
  \<open>IceflowConsumer\<close> per upstream edge (\<open>src/consumer.cpp\<close>), all on one SVS pub/sub instance. A
  producer publishes each unit under \<open>application/edge/partition\<close> with a random partition; a
  consumer subscribes to some partitions of its edge, hands each unit to a callback and publishes
  the sequence number on the back channel \<open>application/edge/backchannel\<close>, on which the producer
  erases the packet from its store. \<open>IceFlow::run\<close> drives all callbacks. Over gRPC an executor
  (\<open>src/executor.cpp\<close>) repartitions a node and queries its statistics
  (\<open>src/services/node-instance-service.cpp\<close>), and a scaler (\<open>src/scaler.cpp\<close>) reports congestion to
  the executor (\<open>src/services/node-executor-service.cpp\<close>). The word count example
  (\<open>examples/wordCount\<close>) is a pipeline of three nodes that records what it does with \<open>Measurement\<close>
  (\<open>src/measurements.cpp\<close>).

  \<^bold>\<open>Theories.\<close>
  \<^item> \<open>Prelude\<close>: machine types, exceptions as values (\<open>exn + 'a\<close>), the standard maps as association
    lists with unique keys, references whose object may be gone, bytes of strings, decimal numerals.
  \<^item> \<open>Json_Api\<close>, \<open>Ndn_Api\<close>: the two external libraries, each a record of operations and a locale
    with their documented laws (\<open>json_api\<close>: what a lookup in a written value returns; \<open>svs\<close>: fresh
    handles, what subscribe, unsubscribe and publish change), each with a reference instance on which
    all witnesses are evaluated.
  \<^item> \<open>Stats\<close>: \<open>stats.hpp\<close>, \<open>congestion-reporter.hpp\<close>; the locale \<open>timestamp_window\<close>, the contract of
    the two \<open>cleanUpTimestamps\<close>, interpreted in \<open>Consumer\<close> and \<open>Producer\<close>.
  \<^item> \<open>Dag_Parser\<close>: \<open>dag-parser.hpp/.cpp\<close>; a writer for DAGs, and parsing as its inverse.
  \<^item> \<open>Consumer\<close>, \<open>Producer\<close>: the two classes with every member function; \<open>Mt19937\<close> is the
    generator \<open>std::mt19937\<close> the producer draws partitions with; \<open>producer_reach\<close> is reachability
    through the public operations.
  \<^item> \<open>Ice_Flow\<close>: \<open>iceflow.hpp/.cpp\<close> without the loop; the locale \<open>edge_registry\<close> is the contract that
    the operations named by an edge share (unknown edges are rejected, known ones are kept).
  \<^item> \<open>Event_Loop\<close>: \<open>run\<close>, \<open>shutdown\<close>, prosumer callbacks and the effect of every event, for callbacks
    that use the node to push. \<open>Application_Calls\<close>: the loop for callbacks and other threads that call any
    operation of the node while it runs (\<open>behaviour\<close>: a call, and how to go on with its reply), of which
    the other one is a special case (\<open>runCalls_pushing\<close>).
  \<^item> \<open>Node_Life\<close>: the nodes reachable through construction, every operation and every event, and
    their invariant.
  \<^item> \<open>Node_Frame\<close>, \<open>Network\<close>: what no operation of a node changes; any number of nodes whose
    operations and deliveries interleave (\<open>net_step\<close>). The locale \<open>deployed\<close> extends the two
    libraries with the way names match; delivery may happen in any order, repeatedly or never, while the
    loop of the receiver runs. \<open>Loop_Steps\<close>: \<open>run\<close> on batches the network can deliver is a run of the network.
  \<^item> \<open>Packet_Store\<close>, \<open>Work_Queue\<close>, \<open>Back_Channels\<close>, \<open>Processing\<close>: what the operations do to the packets a node keeps
    (locale \<open>svs_store\<close>); an abstract system of work queues (\<open>queue_step\<close>: units are sent,
    acknowledged and released) and the simulation by which the network implements it, inside the
    locale \<open>storing\<close>, a deployment with a data store; the back channels over the life of a network;
    the step of a run that processed an acknowledged unit.
  \<^item> \<open>Instance_Service\<close>, \<open>Executor\<close>: the two gRPC services, both their clients and the life time of
    the servers, messages at the widths of \<open>proto/*.proto\<close>; the locale \<open>congestion_channel\<close>.
    \<open>Scaling\<close>, \<open>Scaled_Network\<close>: several executors divide the partitions of an edge, also
    in a running network. \<open>Congestion\<close>: a report from a
    node to its executor, and why its consumers and producers cannot make one. \<open>Grpc_Api\<close> has the operations of a gRPC server (locale \<open>grpc_server\<close>) and the objects the
    servers point to.
  \<^item> \<open>Measurements\<close>: \<open>measurements.hpp/.cpp\<close> on an explicit file system.
  \<^item> \<open>Dag_Schema\<close>: \<open>dag-syntax.cddl\<close> as relations between a JSON value and its data, and the
    document \<open>examples/wordCount/application-DAG.json\<close>.
  \<^item> \<open>Consumer_Partitions\<close>, \<open>Word_Count\<close>: the functions of \<open>examples/wordCount\<close>. \<open>Programs\<close>: its three
    programs as processes, from the command line to the exit status, with the two threads of
    \<open>text2lines\<close> as an interleaving of turns. \<open>Processes\<close>: what they publish, count and read, one by
    one and together. \<open>Process_Ends\<close>: how they end and what they leave on the disk.
    \<open>Program_Runs\<close>, \<open>Word_Count_Network\<close>: what the programs do as steps of the network, and the runs of the
    application, any number of processes with their histories (\<open>application_step\<close>). \<open>Word_Totals\<close>: what
    all of them count together.
  \<^item> \<open>Ring_Buffer\<close>: \<open>ringbuffer.hpp\<close>, with the threads that use one buffer as a step relation;
    the locale \<open>circular_buffer\<close> is \<open>boost::circular_buffer\<close>. \<open>Ring_Pops\<close>: its members that call
    \<open>m_queue.pop()\<close>, which \<open>boost::circular_buffer\<close> does not have, with \<open>pop\<close> as a parameter; none of
    them notifies, and a wake-up is lost.

  \<^bold>\<open>Correspondence.\<close> A class is a record with the names of its members; a member function is a
  definition with its name (prefixed by the class where two classes share it), which takes the
  object and returns it updated. Exceptions are values of the sum type; logging is left out. The
  pub/sub instance is shared by reference in the code: it is one component of the \<open>IceFlow\<close> record,
  passed to and returned by every operation of its producers and consumers, \<open>None\<close> when the weak
  pointer has expired. Subscribed lambdas are values of the type \<open>callback\<close>, which names the object
  they were bound to. Clock readings, the uuid and the seed are arguments. \<open>processEvents\<close> of the
  NDN face is given by a batch of events (data, a shutdown by another thread, an exception of the
  face), a run by the batches of its successive calls.

  \<^bold>\<open>What the lemmas show.\<close> Parsing: \<open>fromJson\<close> inverts writing, errors for every missing key, exact
  results of the edge queries. Consumer and producer: which names are subscribed and published,
  what expires and what does not, the invariant of the reachable producers. Node: construction
  gives one producer and consumer per edge and subscribes each producer to its back channel;
  repartitioning keeps the handles of the other consumers alive; what each event changes; a unit
  is acknowledged after its results were published and not when the callback fails; the loop stops
  after a shutdown; what a running node keeps while its callbacks and other threads call its operations. Network: in every reachable state, what is delivered to a consumer is a unit of
  its edge, every acknowledgement answers a published unit, and a back channel only erases the
  packet acknowledged; the edges of a DAG connect the nodes it names. The network refines the work
  queues: a packet is kept until a callback has returned for a unit with its number, which is the
  unit itself when a task is run by one process; back channels are never closed, and two
  deliveries settle any unit that can be delivered at all.
  Services: status, response
  and effect of every call, which servers have a live service, which node receives a unit after the
  partitions were divided and that it can be settled then, and what becomes of a congestion report. This theory: a push of
  one node reaches the consumer of another one exactly when its partition was requested. Word
  count: the processes together count every word of the text as often as it occurs, if every unit
  is delivered once; in whatever way units are delivered, the runs of the application are runs of
  the network, and only words of the text are counted; without duplicates none is counted too often. Measurements: the files hold every entry exactly once. Ring buffer: first in
  first out, nothing lost under a threshold, no lost wake-up. Several theorems state defects of the code as they are (statistics that never
  expire or never count, a query that unsubscribes, partition 0 left out by the start scripts, measurements
  that are never written, a server whose service is gone).

  \<^bold>\<open>Bounds and termination.\<close> No fuel is used: \<open>createConsumerPartitions\<close> is a \<open>partial_function\<close>
  and its divergence a theorem; \<open>emplacePartitions\<close> has a measure; the loop is structural in the
  batches and a process in its turns. Partition numbers, thresholds and sequence numbers are words of the width in the code;
  theorems that allocate handles assume that the 32-bit handle counter has room.

  \<^bold>\<open>Not modelled.\<close> The implementations of ndn-cxx, ndn-svs, nlohmann::json, gRPC and boost; how
  the network chooses what to deliver (every choice is a step); data races, as the operations of a
  node interleave as whole steps; a signal handler that interrupts an operation (it runs between
  steps); gRPC calls that arrive at a process of the example, except as operations of \<open>net_step\<close>;
  terminal output; overflow of the \<open>int\<close> counters and exhaustion of memory; member functions
  declared without a definition; how long \<open>waitForAndPop\<close> waits; the smoke test, build files and
  documentation; calls of \<open>run\<close> and \<open>registerConsumerCallback\<close> from inside a callback. References that dangle in
  the code (the edge names kept by consumers and producers, what \<open>findEdgeByName\<close> returns) are values
  \<open>Dangling\<close> of the type \<open>reference\<close>, and reading one is an undefined outcome; the addresses kept by a
  scaler, references as well, are only read while the arguments of its constructor exist.
\<close>

section \<open>Across the nodes\<close>

text \<open>
  C1: a push reaches exactly the consumers of its partition. Take a node that produces an edge and
  a node of the same application that consumes it, both in any reachable state, the second one
  live with room in its handle counter. A push to the edge makes one publication, on some partition
  below the producer's number of partitions; after the consumer was repartitioned, one of its
  subscriptions carries the name of that publication if and only if the partition is among the
  ones it was given.
\<close>

theorem push_reaches_subscribers:
  assumes "svs S invar used subs pubs store"
    and "node_reach S J app f" and "invar (m_svsPubSub f)" and "e \<in> set (producer_edges f)"
    and "node_reach S J' app' g" and "invar (m_svsPubSub g)" and "e \<in> set (consumer_edges g)"
    and "m_syncPrefix g = m_syncPrefix f" and "node_live S subs g"
    and "used (m_svsPubSub g) + length ps < 2 ^ 32"
  shows "\<exists>f' n who seq p q g' c. pushData S d e f = (Inr (), f') \<and>
    pubs (m_svsPubSub f') = pubs (m_svsPubSub f) @ [(n, d, who, seq)] \<and>
    map_of (m_iceflowProducers f) e = Some p \<and> q < m_numberOfPartitions p \<and>
    repartitionConsumer S ps e g = (Inr (), g') \<and> map_of (m_iceflowConsumers g') e = Some c \<and>
    ((n, Consumer_callback e) \<in> ran (subs (m_svsPubSub g') |` set (m_subscriptionHandles c)) \<longleftrightarrow> q \<in> set ps)"
proof -
  obtain f' x where push: "pushData S d e f = (Inr (), f')"
    "pubs (m_svsPubSub f') = pubs (m_svsPubSub f) @ [x]"
    "published_by S (map_of (m_iceflowProducers f)) (e, d, ()) x"
    using pushData_known [OF assms(1,3,4), of d "()"] by blast
  obtain n who seq where x: "x = (n, d, who, seq)"
    using push(3) by (cases x) (auto simp: published_by_def)
  obtain p q where p: "map_of (m_iceflowProducers f) e = Some p"
    and n: "n = producer_prepareDataName S p q"
    and q: "m_numberOfPartitions p = 0 \<or> q < m_numberOfPartitions p"
    using push(3) x by (auto simp: published_by_def)
  have "producer_ok S (m_nodePrefix f) (m_syncPrefix f) e p"
    using reach_wf [OF assms(2)] map_of_SomeD [OF p] by (auto simp: node_wf_def)
  then have topic: "m_pubTopic p = m_syncPrefix f @ ''/'' @ e" and "m_numberOfPartitions p \<noteq> 0"
    using producer_reach_invar [of S p] by (simp_all add: producer_ok_def producer_invar_def)
  with q have below: "q < m_numberOfPartitions p" by blast
  obtain c0 where c0: "map_of (m_iceflowConsumers g) e = Some c0"
    using assms(7) by (metis domD dom_map_of_conv_image_fst list.set_map)
  have sub: "m_subTopic c0 = m_syncPrefix f @ ''/'' @ e"
    using reach_wf [OF assms(5)] map_of_SomeD [OF c0] assms(8) by (auto simp: node_wf_def)
  obtain g' c where g': "repartitionConsumer S ps e g = (Inr (), g')"
    "map_of (m_iceflowConsumers g') = (map_of (m_iceflowConsumers g))(e \<mapsto> c)"
    "map (subs (m_svsPubSub g')) (m_subscriptionHandles c) = map (\<lambda>p. Some (partition_sub S e c0 p)) ps"
    using repartitionConsumer_keeps_live [OF assms(1,6,10,9) c0] by blast
  have "n = consumer_prepareDataName S c0 q"
    by (simp add: n producer_prepareDataName_def consumer_prepareDataName_def topic sub)
  then have name: "(n, Consumer_callback e) = partition_sub S e c0 q" by (simp add: partition_sub_def)
  have "(n, Consumer_callback e) \<in> ran (subs (m_svsPubSub g') |` set (m_subscriptionHandles c)) \<longleftrightarrow>
      Some (n, Consumer_callback e) \<in> set (map (subs (m_svsPubSub g')) (m_subscriptionHandles c))"
    by (force simp: ran_def restrict_map_def)
  also have "\<dots> \<longleftrightarrow> q \<in> set ps"
    by (auto simp: g'(3) name partition_sub_inject [OF assms(1)])
  finally show ?thesis using push x p below g' by fastforce
qed

theorem push_reaches_subscribers_witness:
  "\<exists>f' n who seq q g' c. pushData ref_ndn [42] ''t2l'' example_upstream = (Inr (), f') \<and>
    rs_pubs (m_svsPubSub f') = rs_pubs (m_svsPubSub example_upstream) @ [(n, [42], who, seq)] \<and>
    repartitionConsumer ref_ndn [0, 2] ''t2l'' example_iceflow = (Inr (), g') \<and>
    map_of (m_iceflowConsumers g') ''t2l'' = Some c \<and>
    ((n, Consumer_callback ''t2l'') \<in> ran (ref_subs (m_svsPubSub g') |` set (m_subscriptionHandles c)) \<longleftrightarrow>
       q \<in> {0, 2 :: u32})"
proof -
  have f: "node_reach ref_ndn ref_json example_app example_upstream"
    by (rule node_reach.created [OF example_upstream_new])
  have g: "node_reach ref_ndn ref_json example_app example_iceflow" by (rule example_reach)
  have e: "''t2l'' \<in> set (producer_edges example_upstream)" "''t2l'' \<in> set (consumer_edges example_iceflow)"
    "m_syncPrefix example_iceflow = m_syncPrefix example_upstream"
    unfolding example_upstream_state by (simp_all add: example_iceflow_edges example_iceflow_sync)
  have room: "rs_count (m_svsPubSub example_iceflow) + length [0, 2 :: u32] < 2 ^ 32"
    by (simp add: example_iceflow_svs)
  show ?thesis
    using push_reaches_subscribers [OF ref_svs.svs_axioms f example_upstream_state(3) e(1) g
        example_iceflow_svs(1) e(2,3) example_iceflow_svs(3) room, of "[42]"]
    by (elim exE conjE) (intro exI conjI; (assumption | simp))
qed

end
